(* ===== verification/Prelude.thy ===== *)
theory Prelude
  imports Complex_Main "HOL-Library.Word"
begin

text \<open>
  Shared basis of the development: the faults a C function can end in, the integer
  conversions of the C abstract machine (LP64: \<open>int\<close> 32 bits, \<open>long\<close> 64 bits), the parts
  of the C string library that the sources call (\<open>strtol\<close>, \<open>strtoul\<close>, \<open>strncmp\<close>,
  \<open>strcmp\<close>, \<open>strspn\<close>, \<open>strcspn\<close>, \<open>strtok_r\<close>) on NUL-free character lists, and the
  decimal printing used by the round-trip lemmas.
\<close>

named_theorems cfun_defs \<open>definitions unfolded to evaluate a modelled C function\<close>
named_theorems pp_ops \<open>the operations of a ping/pong transport\<close>

section \<open>Faults\<close>

text \<open>
  Every way a function of the program leaves its normal path: \<open>Exit_fail\<close> is a call of
  \<^verbatim>\<open>exit_fail\<close> with its format string, \<open>Exit_status\<close> is \<^verbatim>\<open>exit(n)\<close>; the others are
  undefined behaviour that the C code does not guard against, made visible as a value.
\<close>

datatype c_fault =
    Exit_fail string
  | Exit_status int
  | Null_pointer
  | Out_of_bounds
  | Division_by_zero
  | Unspecified

type_synonym 'a res = "c_fault + 'a"

definition bind_res :: "'a res \<Rightarrow> ('a \<Rightarrow> 'b res) \<Rightarrow> 'b res" where
  "bind_res r f = (case r of Inl e \<Rightarrow> Inl e | Inr x \<Rightarrow> f x)"

lemma bind_res_simps [simp]:
  "bind_res (Inl e) f = Inl e"
  "bind_res (Inr x) f = f x"
  by (simp_all add: bind_res_def)

lemma bind_res_Inr_iff: "bind_res r f = Inr y \<longleftrightarrow> (\<exists>x. r = Inr x \<and> f x = Inr y)"
  by (cases r) simp_all

text \<open>A sequence of fallible updates, stopped by the first fault.\<close>

fun fold_res :: "('m \<Rightarrow> 'r \<Rightarrow> 'r res) \<Rightarrow> 'm list \<Rightarrow> 'r \<Rightarrow> 'r res" where
  "fold_res f [] r = Inr r"
| "fold_res f (m # ms) r = bind_res (f m r) (fold_res f ms)"

text \<open>Array reads and writes, with the out-of-range access as a fault.\<close>

definition aget :: "'a list \<Rightarrow> int \<Rightarrow> 'a res" where
  "aget xs i = (if 0 \<le> i \<and> i < int (length xs) then Inr (xs ! nat i) else Inl Out_of_bounds)"

definition aset :: "'a list \<Rightarrow> int \<Rightarrow> 'a \<Rightarrow> ('a list) res" where
  "aset xs i x =
     (if 0 \<le> i \<and> i < int (length xs) then Inr (xs[nat i := x]) else Inl Out_of_bounds)"

lemma aget_in_range [simp]: "n < length xs \<Longrightarrow> aget xs (int n) = Inr (xs ! n)"
  by (simp add: aget_def)

lemma aset_in_range [simp]: "n < length xs \<Longrightarrow> aset xs (int n) x = Inr (xs[n := x])"
  by (simp add: aset_def)

lemma aget_Inr_iff:
  "aget xs i = Inr x \<longleftrightarrow> 0 \<le> i \<and> i < int (length xs) \<and> x = xs ! nat i"
  by (auto simp: aget_def)

section \<open>Integer conversions\<close>

definition to_int :: "int \<Rightarrow> int" where
  "to_int v = signed_take_bit 31 v"

definition to_short :: "int \<Rightarrow> int" where
  "to_short v = signed_take_bit 15 v"

definition long_max :: int where "long_max = 2 ^ 63 - 1"
definition long_min :: int where "long_min = - (2 ^ 63)"
definition ulong_max :: int where "ulong_max = 2 ^ 64 - 1"

lemma to_int_id: "- (2 ^ 31) \<le> v \<Longrightarrow> v < 2 ^ 31 \<Longrightarrow> to_int v = v"
  unfolding to_int_def by (rule signed_take_bit_int_eq_self) simp_all

lemma to_int_range: "- (2 ^ 31) \<le> to_int v \<and> to_int v < 2 ^ 31"
  unfolding to_int_def
  using signed_take_bit_int_greater_eq_minus_exp [of 31 v] signed_take_bit_int_less_exp [of 31 v]
  by simp

lemma to_short_id: "- (2 ^ 15) \<le> v \<Longrightarrow> v < 2 ^ 15 \<Longrightarrow> to_short v = v"
  unfolding to_short_def by (rule signed_take_bit_int_eq_self) simp_all

text \<open>Division of C: truncation towards zero, and the remainder with the dividend's sign.\<close>

definition c_div :: "int \<Rightarrow> int \<Rightarrow> int" where
  "c_div a b = sgn a * sgn b * (\<bar>a\<bar> div \<bar>b\<bar>)"

definition c_mod :: "int \<Rightarrow> int \<Rightarrow> int" where
  "c_mod a b = a - c_div a b * b"

lemma c_div_nonneg [simp]: "0 \<le> a \<Longrightarrow> 0 < b \<Longrightarrow> c_div a b = a div b"
  by (cases "a = 0") (simp_all add: c_div_def)

lemma c_mod_nonneg [simp]: "0 \<le> a \<Longrightarrow> 0 < b \<Longrightarrow> c_mod a b = a mod b"
  by (simp add: c_mod_def minus_div_mult_eq_mod)

section \<open>C strings\<close>

definition is_space :: "char \<Rightarrow> bool" where
  "is_space c \<longleftrightarrow> c \<in> {CHR '' '', CHR 0x09, CHR 0x0A, CHR 0x0B, CHR 0x0C, CHR 0x0D}"

definition is_digit :: "char \<Rightarrow> bool" where
  "is_digit c \<longleftrightarrow> 48 \<le> (of_char c :: nat) \<and> (of_char c :: nat) \<le> 57"

definition digit_val :: "char \<Rightarrow> int" where
  "digit_val c = of_char c - 48"

definition digit_chr :: "int \<Rightarrow> char" where
  "digit_chr n = char_of (nat n + 48)"

lemma digit_chr_simps [simp]:
  "digit_chr 0 = CHR ''0''"
  "digit_chr 1 = CHR ''1''"
  "digit_chr 2 = CHR ''2''"
  "digit_chr 3 = CHR ''3''"
  "digit_chr 4 = CHR ''4''"
  "digit_chr 5 = CHR ''5''"
  "digit_chr 6 = CHR ''6''"
  "digit_chr 7 = CHR ''7''"
  "digit_chr 8 = CHR ''8''"
  "digit_chr 9 = CHR ''9''"
  by (simp_all add: digit_chr_def char_of_def bit_iff_odd)

definition digits_val :: "string \<Rightarrow> int" where
  "digits_val ds = foldl (\<lambda>a d. 10 * a + digit_val d) 0 ds"

text \<open>
  The common prefix of \<open>strtol\<close> and \<open>strtoul\<close> in base 10: white space, a sign, digits. The
  result is the sign, the value of the digits and the rest of the string; without a digit
  nothing is consumed.
\<close>

definition scan_sign :: "string \<Rightarrow> bool \<times> string" where
  "scan_sign s =
     (case s of c # r \<Rightarrow> if c = CHR ''-'' then (True, r) else if c = CHR ''+'' then (False, r)
                       else (False, s)
      | [] \<Rightarrow> (False, s))"

definition scan_dec :: "string \<Rightarrow> (bool \<times> int \<times> string) option" where
  "scan_dec s =
     (let (neg, s2) = scan_sign (dropWhile is_space s); ds = takeWhile is_digit s2
      in if ds = [] then None else Some (neg, digits_val ds, dropWhile is_digit s2))"

text \<open>
  \<open>strtol(s, &p, 10)\<close>: the clamped value and the string \<^verbatim>\<open>p\<close> points to. \<^verbatim>\<open>p == s\<close> in the
  sources is \<open>snd (strtol s) = s\<close> here: a proper suffix is shorter, so it is never \<open>s\<close>.
\<close>

definition strtol :: "string \<Rightarrow> int \<times> string" where
  "strtol s = (case scan_dec s of None \<Rightarrow> (0, s)
     | Some (neg, v, r) \<Rightarrow> (max long_min (min long_max (if neg then - v else v)), r))"

definition strtoul :: "string \<Rightarrow> int" where
  "strtoul s = (case scan_dec s of None \<Rightarrow> 0
     | Some (neg, v, r) \<Rightarrow>
         if ulong_max < v then ulong_max else if neg then (- v) mod 2 ^ 64 else v)"

text \<open>\<open>strncmp(a, b, n) == 0\<close> and the sign of \<open>strcmp(a, b)\<close>.\<close>

definition strncmp_eq :: "string \<Rightarrow> string \<Rightarrow> nat \<Rightarrow> bool" where
  "strncmp_eq a b n \<longleftrightarrow> take n a = take n b"

fun strcmp :: "string \<Rightarrow> string \<Rightarrow> int" where
  "strcmp [] [] = 0"
| "strcmp [] (y # ys) = -1"
| "strcmp (x # xs) [] = 1"
| "strcmp (x # xs) (y # ys) =
     (if x = y then strcmp xs ys
      else if (of_char x :: nat) < of_char y then -1 else 1)"

lemma strcmp_eq_0 [simp]: "strcmp a b = 0 \<longleftrightarrow> a = b"
  by (induction a b rule: strcmp.induct) auto

lemma strcmp_refl [simp]: "strcmp a a = 0"
  by simp

definition strspn :: "string \<Rightarrow> string \<Rightarrow> nat" where
  "strspn s set1 = length (takeWhile (\<lambda>c. c \<in> set set1) s)"

definition strcspn :: "string \<Rightarrow> string \<Rightarrow> nat" where
  "strcspn s set1 = length (takeWhile (\<lambda>c. c \<notin> set set1) s)"

text \<open>
  One call of \<open>strtok_r\<close>: leading delimiters are skipped; \<open>None\<close> is the NULL token. The second
  component is what the save pointer points to afterwards.
\<close>

definition strtok_r :: "string \<Rightarrow> string \<Rightarrow> string option \<times> string" where
  "strtok_r s delim =
     (let s1 = dropWhile (\<lambda>c. c \<in> set delim) s
      in if s1 = [] then (None, [])
         else (Some (takeWhile (\<lambda>c. c \<notin> set delim) s1),
               drop 1 (dropWhile (\<lambda>c. c \<notin> set delim) s1)))"

lemma strtok_r_rest_shorter:
  "strtok_r s d = (Some t, r) \<Longrightarrow> length r < length s"
proof -
  assume a: "strtok_r s d = (Some t, r)"
  let ?s1 = "dropWhile (\<lambda>c. c \<in> set d) s"
  let ?s2 = "dropWhile (\<lambda>c. c \<notin> set d) ?s1"
  from a have ne: "?s1 \<noteq> []" and r: "r = drop 1 ?s2"
    by (auto simp: strtok_r_def Let_def split: if_splits)
  have l: "length ?s2 \<le> length ?s1" "length ?s1 \<le> length s"
    by (simp_all add: length_dropWhile_le)
  show ?thesis
  proof (cases "?s2 = []")
    case True
    with ne l r show ?thesis by (metis drop_Nil le_less_trans length_greater_0_conv list.size(3) not_less)
  next
    case False
    then have "length r < length ?s2" using r by simp
    with l show ?thesis by linarith
  qed
qed

section \<open>Decimal printing\<close>

fun dec_nat :: "nat \<Rightarrow> string" where
  "dec_nat n =
     (if n < 10 then [digit_chr (int n)] else dec_nat (n div 10) @ [digit_chr (int (n mod 10))])"

declare dec_nat.simps [simp del]

definition dec_int :: "int \<Rightarrow> string" where
  "dec_int v = (if v < 0 then CHR ''-'' # dec_nat (nat (- v)) else dec_nat (nat v))"

lemma of_char_digit_chr: "0 \<le> n \<Longrightarrow> n < 10 \<Longrightarrow> (of_char (digit_chr n) :: nat) = nat n + 48"
  by (simp add: digit_chr_def)

lemma is_digit_digit_chr [simp]: "0 \<le> n \<Longrightarrow> n < 10 \<Longrightarrow> is_digit (digit_chr n)"
  by (simp add: is_digit_def of_char_digit_chr)

lemma digit_val_digit_chr [simp]: "0 \<le> n \<Longrightarrow> n < 10 \<Longrightarrow> digit_val (digit_chr n) = n"
proof -
  assume a: "0 \<le> n" "n < 10"
  have "(of_char (digit_chr n) :: int) = int (of_char (digit_chr n))"
    by (simp only: of_nat_of_char)
  also have "\<dots> = n + 48" by (subst of_char_digit_chr) (use a in auto)
  finally show ?thesis by (simp add: digit_val_def)
qed

lemma digits_val_snoc [simp]: "digits_val (ds @ [d]) = 10 * digits_val ds + digit_val d"
  by (simp add: digits_val_def)

lemma dec_nat_digits: "\<forall>c \<in> set (dec_nat n). is_digit c"
proof (induction n rule: dec_nat.induct)
  case (1 n)
  then show ?case by (subst dec_nat.simps) auto
qed

lemma dec_nat_nonempty [simp]: "dec_nat n \<noteq> []"
  by (subst dec_nat.simps) simp

lemma dec_nat_length: "n < 10 ^ Suc k \<Longrightarrow> length (dec_nat n) \<le> Suc k"
proof (induction k arbitrary: n)
  case (Suc k)
  show ?case
  proof (cases "n < 10")
    case False
    have "n div 10 < 10 ^ Suc k" using Suc.prems by (simp add: less_mult_imp_div_less)
    with Suc.IH False show ?thesis by (subst dec_nat.simps) simp
  qed (simp add: dec_nat.simps)
qed (simp add: dec_nat.simps)

lemma digits_val_dec_nat [simp]: "digits_val (dec_nat n) = int n"
proof (induction n rule: dec_nat.induct)
  case (1 n)
  show ?case
  proof (cases "n < 10")
    case True
    then show ?thesis by (subst dec_nat.simps) (simp add: digits_val_def)
  next
    case False
    with 1 have "digits_val (dec_nat n) = 10 * int (n div 10) + int (n mod 10)"
      by (subst dec_nat.simps) simp
    also have "\<dots> = int n" by presburger
    finally show ?thesis .
  qed
qed

lemma is_digit_not_special: "is_digit c \<Longrightarrow> \<not> is_space c \<and> c \<noteq> CHR ''-'' \<and> c \<noteq> CHR ''+''"
  by (auto simp: is_digit_def is_space_def)

lemma takeWhile_digits: "\<forall>c \<in> set ds. is_digit c \<Longrightarrow> r = [] \<or> \<not> is_digit (hd r) \<Longrightarrow>
    takeWhile is_digit (ds @ r) = ds \<and> dropWhile is_digit (ds @ r) = r"
  by (cases r) auto

lemma scan_dec_dec_nat:
  assumes "r = [] \<or> \<not> is_digit (hd r)"
  shows "scan_dec (dec_nat n @ r) = Some (False, int n, r)"
proof -
  obtain c cs where cs: "dec_nat n = c # cs" by (cases "dec_nat n") auto
  then have "is_digit c" using dec_nat_digits [of n] by simp
  then have sp: "dropWhile is_space (dec_nat n @ r) = dec_nat n @ r"
    and sg: "scan_sign (dec_nat n @ r) = (False, dec_nat n @ r)"
    using cs by (auto simp: scan_sign_def dest: is_digit_not_special)
  from takeWhile_digits [OF dec_nat_digits assms]
  show ?thesis by (simp add: scan_dec_def sp sg)
qed

lemma strtol_dec_nat:
  assumes "r = [] \<or> \<not> is_digit (hd r)" and "int n \<le> long_max"
  shows "strtol (dec_nat n @ r) = (int n, r)"
  using assms by (simp add: strtol_def scan_dec_dec_nat long_min_def min_def max_def)

lemma scan_dec_None: "dropWhile is_space s = c # t \<Longrightarrow>
    \<not> is_digit c \<Longrightarrow> c \<noteq> CHR ''-'' \<Longrightarrow> c \<noteq> CHR ''+'' \<Longrightarrow> scan_dec s = None"
  by (simp add: scan_dec_def scan_sign_def)

lemma strtol_no_digits: "\<not> is_digit c \<Longrightarrow> \<not> is_space c \<Longrightarrow> c \<noteq> CHR ''-'' \<Longrightarrow> c \<noteq> CHR ''+'' \<Longrightarrow>
    strtol (c # t) = (0, c # t)"
  by (simp add: strtol_def scan_dec_None)

lemma strtol_range: "long_min \<le> fst (strtol s) \<and> fst (strtol s) \<le> long_max"
  by (auto simp: strtol_def long_min_def long_max_def split: option.splits)

end
