(* ===== verification/Pingpong.thy ===== *)
theory Pingpong
  imports Prelude
begin

text \<open>
  The ping and the pong loop. Every transport of the program has the shape of
  \<^verbatim>\<open>comm_ping_generic\<close> and \<^verbatim>\<open>comm_pong_generic\<close> (\<^verbatim>\<open>comms.c\<close>): ping counts, repeats one
  operation until it succeeds, then a second one; pong repeats two operations of its own. The four
  operations are \<open>A1\<close>, \<open>A2\<close> (ping) and \<open>B1\<close>, \<open>B2\<close> (pong); one attempt of an operation
  is one step, and which thread moves next, and what the kernel answers, is the schedule's choice.
  Memory is sequentially consistent, and \<^verbatim>\<open>ping_count ++\<close> is one step since only ping writes
  the counter (the modes where both threads write it are in the theory of the shared variables).
\<close>

section \<open>The machine\<close>

datatype tid = Ping | Pong

datatype stage = A1 | A2 | B1 | B2

datatype ping_pc = At_count | At_a1 | At_a2
datatype pong_pc = At_b1 | At_b2

record 'c pp =
  ping_pc :: ping_pc
  pong_pc :: pong_pc
  ping_count :: "64 word"
  chan :: 'c

text \<open>An attempt of an operation: whether its retry loop ends, and the new channel state.\<close>

type_synonym ('o, 'c) pp_ops = "stage \<Rightarrow> 'o \<Rightarrow> 'c \<Rightarrow> bool \<times> 'c"

definition ping_step :: "('o, 'c) pp_ops \<Rightarrow> 'o \<Rightarrow> 'c pp \<Rightarrow> stage option \<times> 'c pp" where
  "ping_step ops oc s =
     (case ping_pc s of
        At_count \<Rightarrow> (None, s\<lparr>ping_count := ping_count s + 1, ping_pc := At_a1\<rparr>)
      | At_a1 \<Rightarrow>
          (case ops A1 oc (chan s) of (ok, c) \<Rightarrow>
             if ok then (Some A1, s\<lparr>chan := c, ping_pc := At_a2\<rparr>) else (None, s\<lparr>chan := c\<rparr>))
      | At_a2 \<Rightarrow>
          (case ops A2 oc (chan s) of (ok, c) \<Rightarrow>
             if ok then (Some A2, s\<lparr>chan := c, ping_pc := At_count\<rparr>) else (None, s\<lparr>chan := c\<rparr>)))"

definition pong_step :: "('o, 'c) pp_ops \<Rightarrow> 'o \<Rightarrow> 'c pp \<Rightarrow> stage option \<times> 'c pp" where
  "pong_step ops oc s =
     (case pong_pc s of
        At_b1 \<Rightarrow>
          (case ops B1 oc (chan s) of (ok, c) \<Rightarrow>
             if ok then (Some B1, s\<lparr>chan := c, pong_pc := At_b2\<rparr>) else (None, s\<lparr>chan := c\<rparr>))
      | At_b2 \<Rightarrow>
          (case ops B2 oc (chan s) of (ok, c) \<Rightarrow>
             if ok then (Some B2, s\<lparr>chan := c, pong_pc := At_b1\<rparr>) else (None, s\<lparr>chan := c\<rparr>)))"

definition pp_step :: "('o, 'c) pp_ops \<Rightarrow> tid \<times> 'o \<Rightarrow> 'c pp \<Rightarrow> stage option \<times> 'c pp" where
  "pp_step ops x s =
     (case fst x of Ping \<Rightarrow> ping_step ops (snd x) s | Pong \<Rightarrow> pong_step ops (snd x) s)"

text \<open>A run under a schedule: the operations completed, in order, and the final state.\<close>

fun pp_run :: "('o, 'c) pp_ops \<Rightarrow> (tid \<times> 'o) list \<Rightarrow> 'c pp \<Rightarrow> stage list \<times> 'c pp" where
  "pp_run ops [] s = ([], s)"
| "pp_run ops (x # xs) s =
     (case pp_step ops x s of (e, s1) \<Rightarrow>
      case pp_run ops xs s1 of (es, s2) \<Rightarrow>
        ((case e of None \<Rightarrow> es | Some t \<Rightarrow> t # es), s2))"

lemma pp_run_append:
  "pp_run ops (xs @ ys) s =
     (case pp_run ops xs s of (es, s1) \<Rightarrow> case pp_run ops ys s1 of (es2, s2) \<Rightarrow> (es @ es2, s2))"
  by (induction xs arbitrary: s) (auto split: prod.splits option.splits)

definition pp_init :: "'c \<Rightarrow> 'c pp" where
  "pp_init c = \<lparr>ping_pc = At_count, pong_pc = At_b1, ping_count = 0, chan = c\<rparr>"

section \<open>The specification: strict alternation\<close>

text \<open>
  In a transport that sends first the operations complete in the order ping-send, pong-receive,
  pong-send, ping-receive; where ping waits first (semaphores) in the order ping-wait, ping-post,
  pong-wait, pong-post. \<open>parked\<close> is the operation the other thread retries meanwhile.
\<close>

datatype pp_order = Send_first | Wait_first

fun nxt :: "pp_order \<Rightarrow> stage \<Rightarrow> stage" where
  "nxt Send_first A1 = B1"
| "nxt Send_first B1 = B2"
| "nxt Send_first B2 = A2"
| "nxt Send_first A2 = A1"
| "nxt Wait_first A1 = A2"
| "nxt Wait_first A2 = B1"
| "nxt Wait_first B1 = B2"
| "nxt Wait_first B2 = A1"

fun parked :: "pp_order \<Rightarrow> stage \<Rightarrow> stage" where
  "parked Send_first A1 = B1"
| "parked Send_first B1 = A2"
| "parked Send_first B2 = A2"
| "parked Send_first A2 = B1"
| "parked Wait_first A1 = B1"
| "parked Wait_first A2 = B1"
| "parked Wait_first B1 = A1"
| "parked Wait_first B2 = A1"

fun at_stage :: "'c pp \<Rightarrow> stage \<Rightarrow> bool" where
  "at_stage s A1 \<longleftrightarrow> ping_pc s = At_count \<or> ping_pc s = At_a1"
| "at_stage s A2 \<longleftrightarrow> ping_pc s = At_a2"
| "at_stage s B1 \<longleftrightarrow> pong_pc s = At_b1"
| "at_stage s B2 \<longleftrightarrow> pong_pc s = At_b2"

definition cyc :: "pp_order \<Rightarrow> nat \<Rightarrow> stage" where
  "cyc ord n = (nxt ord ^^ n) A1"

lemma cyc_0 [simp]: "cyc ord 0 = A1"
  by (simp add: cyc_def)

lemma cyc_Suc: "cyc ord (Suc n) = nxt ord (cyc ord n)"
  by (simp add: cyc_def)

lemma nxt_4: "nxt ord (nxt ord (nxt ord (nxt ord t))) = t"
  by (cases ord; cases t) simp_all

lemma cyc_add4: "cyc ord (n + 4) = cyc ord n"
proof -
  have "n + 4 = Suc (Suc (Suc (Suc n)))" by simp
  then show ?thesis by (simp only: cyc_Suc nxt_4)
qed

lemma cyc_mod4: "cyc ord n = cyc ord (n mod 4)"
proof (induction n rule: less_induct)
  case (less n)
  show ?case
  proof (cases "n < 4")
    case False
    then have "cyc ord (n - 4) = cyc ord ((n - 4) mod 4)" by (intro less) simp
    moreover have "cyc ord n = cyc ord (n - 4)" using cyc_add4 [of ord "n - 4"] False by simp
    moreover have "(n - 4) mod 4 = n mod 4" using False by (simp add: le_mod_geq)
    ultimately show ?thesis by simp
  qed simp
qed

lemma cyc_A1_iff: "cyc ord n = A1 \<longleftrightarrow> n mod 4 = 0"
proof -
  have "n mod 4 = 0 \<or> n mod 4 = 1 \<or> n mod 4 = 2 \<or> n mod 4 = 3" by linarith
  then show ?thesis
    by (subst cyc_mod4) (cases ord; auto simp: cyc_Suc numeral_2_eq_2 numeral_3_eq_3)
qed

lemma count_A1: "count_list (map (cyc ord) [0..<n]) A1 = (n + 3) div 4"
proof (induction n)
  case 0
  then show ?case by simp
next
  case (Suc n)
  have "count_list (map (cyc ord) [0..<Suc n]) A1 = (n + 3) div 4 + (if n mod 4 = 0 then 1 else 0)"
    using Suc by (simp add: cyc_A1_iff)
  also have "\<dots> = (Suc n + 3) div 4" by presburger
  finally show ?case .
qed

text \<open>
  The shape of a reachable state: it is \<open>t\<close>'s turn, its thread is there and the other thread is
  parked; and the counter counts the rounds begun.
\<close>

definition turn :: "pp_order \<Rightarrow> (stage \<Rightarrow> 'c \<Rightarrow> bool) \<Rightarrow> stage \<Rightarrow> 'c pp \<Rightarrow> bool" where
  "turn ord rep t s \<longleftrightarrow> rep t (chan s) \<and> at_stage s t \<and> at_stage s (parked ord t)"

definition counted :: "nat \<Rightarrow> 'c pp \<Rightarrow> bool" where
  "counted n s \<longleftrightarrow> ping_count s = of_nat (n + (if ping_pc s = At_a1 then 1 else 0))"

lemma cyc_range_Suc:
  "map (cyc ord) [k..<k + Suc m] = cyc ord k # map (cyc ord) [Suc k..<Suc k + m]"
  by (simp add: upt_conv_Cons del: upt_Suc)

lemma turn_init: "rep A1 c \<Longrightarrow> turn ord rep (cyc ord 0) (pp_init c)"
  by (cases ord) (simp_all add: turn_def pp_init_def)

lemma counted_init: "counted 0 (pp_init c)"
  by (simp add: pp_init_def counted_def)

text \<open>
  What a transport promises from channel state \<open>c\<close>: under every schedule the operations complete
  in the order \<open>ord\<close> and the counter is the number of rounds begun (\<open>alternates\<close>); and whatever
  has happened, \<open>m\<close> more operations can be completed in \<open>2 * m\<close> steps (\<open>progresses\<close>).
\<close>

definition alternates :: "pp_order \<Rightarrow> ('o, 'c) pp_ops \<Rightarrow> 'c \<Rightarrow> bool" where
  "alternates ord ops c \<longleftrightarrow>
     (\<forall>xs tr s. pp_run ops xs (pp_init c) = (tr, s) \<longrightarrow>
        tr = map (cyc ord) [0..<length tr]
        \<and> ping_count s = of_nat ((length tr + 3) div 4 + (if ping_pc s = At_a1 then 1 else 0)))"

definition progresses :: "pp_order \<Rightarrow> ('o, 'c) pp_ops \<Rightarrow> 'c \<Rightarrow> bool" where
  "progresses ord ops c \<longleftrightarrow>
     (\<forall>xs tr s m. pp_run ops xs (pp_init c) = (tr, s) \<longrightarrow>
        (\<exists>ys s'. length ys \<le> 2 * m
           \<and> pp_run ops ys s = (map (cyc ord) [length tr..<length tr + m], s')))"

definition correct :: "pp_order \<Rightarrow> ('o, 'c) pp_ops \<Rightarrow> 'c \<Rightarrow> bool" where
  "correct ord ops c \<longleftrightarrow> alternates ord ops c \<and> progresses ord ops c"

section \<open>The interface of a transport\<close>

text \<open>
  \<open>rep t c\<close>: channel state \<open>c\<close> is one in which \<open>t\<close> is the next operation to complete. A
  transport promises that completing \<open>t\<close> passes the turn on, that a failed attempt keeps it,
  and that the other thread's attempts meanwhile fail without disturbing it.
\<close>

locale handshake =
  fixes ops :: "('o, 'c) pp_ops"
    and ord :: pp_order
    and rep :: "stage \<Rightarrow> 'c \<Rightarrow> bool"
  assumes advance: "rep t c \<Longrightarrow> ops t oc c = (True, c') \<Longrightarrow> rep (nxt ord t) c'"
    and stay: "rep t c \<Longrightarrow> ops t oc c = (False, c') \<Longrightarrow> rep t c'"
    and blocked: "rep t c \<Longrightarrow> ops (parked ord t) oc c = (ok, c') \<Longrightarrow> \<not> ok \<and> rep t c'"
begin

lemma turn_owner:
  assumes "turn ord rep t s"
  shows "ping_pc s = At_a1 \<longrightarrow> t = A1 \<or> parked ord t = A1"
    and "ping_pc s = At_a2 \<longrightarrow> t = A2 \<or> parked ord t = A2"
    and "pong_pc s = At_b1 \<longrightarrow> t = B1 \<or> parked ord t = B1"
    and "pong_pc s = At_b2 \<longrightarrow> t = B2"
  using assms unfolding turn_def by (cases ord; cases t; auto)+

lemma parked_cases: "parked ord t = A1 \<or> parked ord t = A2 \<or> parked ord t = B1"
  by (cases ord; cases t) simp_all

text \<open>One attempt of one operation, whichever thread makes it.\<close>

lemma attempt_turn:
  assumes "rep t c" "u = t \<or> u = parked ord t" "ops u oc c = (ok, c')"
  shows "if ok then u = t \<and> rep (nxt ord t) c' else rep t c'"
proof (cases "u = t")
  case True
  then show ?thesis using advance [OF assms(1)] stay [OF assms(1)] assms(3) by (cases ok) auto
next
  case False
  then show ?thesis using blocked [OF assms(1)] assms(2,3) by auto
qed

lemma step_turn:
  assumes t: "turn ord rep t s" and st: "pp_step ops x s = (e, s')" and cnt: "counted n s"
  shows "case e of
      None \<Rightarrow> turn ord rep t s' \<and> counted n s'
    | Some u \<Rightarrow> u = t \<and> turn ord rep (nxt ord t) s' \<and> counted (n + (if u = A1 then 1 else 0)) s'"
proof -
  have rep: "rep t (chan s)" and own: "at_stage s t" "at_stage s (parked ord t)"
    using t by (auto simp: turn_def)
  obtain th oc where x: "x = (th, oc)" by (cases x)
  note ow = turn_owner [OF t]
  show ?thesis
  proof (cases th)
    case Ping
    show ?thesis
    proof (cases "ping_pc s")
      case At_count
      then show ?thesis using st x Ping rep own cnt
        by (cases ord; cases t) (auto simp: pp_step_def ping_step_def turn_def counted_def)
    next
      case At_a1
      obtain ok c' where o: "ops A1 oc (chan s) = (ok, c')" by fastforce
      have "A1 = t \<or> A1 = parked ord t" using ow(1) At_a1 by auto
      note a = attempt_turn [OF rep this o]
      show ?thesis using st x Ping At_a1 o a own cnt
        by (cases ok; cases ord; cases t)
          (auto simp: pp_step_def ping_step_def turn_def counted_def)
    next
      case At_a2
      obtain ok c' where o: "ops A2 oc (chan s) = (ok, c')" by fastforce
      have "A2 = t \<or> A2 = parked ord t" using ow(2) At_a2 by auto
      note a = attempt_turn [OF rep this o]
      show ?thesis using st x Ping At_a2 o a own cnt
        by (cases ok; cases ord; cases t)
          (auto simp: pp_step_def ping_step_def turn_def counted_def)
    qed
  next
    case Pong
    show ?thesis
    proof (cases "pong_pc s")
      case At_b1
      obtain ok c' where o: "ops B1 oc (chan s) = (ok, c')" by fastforce
      have "B1 = t \<or> B1 = parked ord t" using ow(3) At_b1 by auto
      note a = attempt_turn [OF rep this o]
      show ?thesis using st x Pong At_b1 o a own cnt
        by (cases ok; cases ord; cases t)
          (auto simp: pp_step_def pong_step_def turn_def counted_def)
    next
      case At_b2
      obtain ok c' where o: "ops B2 oc (chan s) = (ok, c')" by fastforce
      have "B2 = t \<or> B2 = parked ord t" using ow(4) At_b2 by auto
      note a = attempt_turn [OF rep this o]
      show ?thesis using st x Pong At_b2 o a own cnt
        by (cases ok; cases ord; cases t)
          (auto simp: pp_step_def pong_step_def turn_def counted_def)
    qed
  qed
qed

lemma run_turn:
  assumes "turn ord rep (cyc ord k) s" "pp_run ops xs s = (tr, s')" "counted n s"
  shows "tr = map (cyc ord) [k..<k + length tr] \<and> turn ord rep (cyc ord (k + length tr)) s'
       \<and> counted (n + count_list tr A1) s'"
  using assms
proof (induction xs arbitrary: k s n tr)
  case Nil
  then show ?case by simp
next
  case (Cons x xs)
  obtain e s1 where e: "pp_step ops x s = (e, s1)" by fastforce
  obtain es where es: "pp_run ops xs s1 = (es, s')"
    "tr = (case e of None \<Rightarrow> es | Some t \<Rightarrow> t # es)"
    using Cons.prems(2) e by (auto split: prod.splits)
  note st = step_turn [OF Cons.prems(1) e Cons.prems(3)]
  show ?case
  proof (cases e)
    case None
    then show ?thesis using st Cons.IH [OF _ es(1), of k n] es(2) by simp
  next
    case (Some u)
    then have u: "u = cyc ord k" "turn ord rep (cyc ord (Suc k)) s1"
      "counted (n + (if u = A1 then 1 else 0)) s1"
      using st by (auto simp: cyc_Suc)
    from Cons.IH [OF u(2) es(1) u(3)] show ?thesis
      using Some es(2) u(1) cyc_range_Suc [of ord k "length es"]
      by (auto simp del: upt_Suc)
  qed
qed

text \<open>
  From a channel in which ping may move, every run completes the operations in the cyclic order,
  and the counter is the number of rounds begun.
\<close>

lemma alternation:
  assumes "rep A1 c" "pp_run ops xs (pp_init c) = (tr, s)"
  shows "tr = map (cyc ord) [0..<length tr]"
    and "ping_count s = of_nat ((length tr + 3) div 4 + (if ping_pc s = At_a1 then 1 else 0))"
    and "turn ord rep (cyc ord (length tr)) s"
proof -
  note r = run_turn [OF turn_init [where rep = rep and ord = ord, OF assms(1)] assms(2) counted_init]
  from r show tr: "tr = map (cyc ord) [0..<length tr]" and "turn ord rep (cyc ord (length tr)) s" by simp_all
  have "count_list tr A1 = (length tr + 3) div 4" by (subst tr) (rule count_A1)
  with r show "ping_count s = of_nat ((length tr + 3) div 4 + (if ping_pc s = At_a1 then 1 else 0))"
    by (simp add: counted_def)
qed

lemma alternates_from: "rep A1 c \<Longrightarrow> alternates ord ops c"
  unfolding alternates_def using alternation(1,2) by blast

text \<open>At any time at most one thread is past its receiving operation: the token is exclusive.\<close>

lemma exclusive:
  assumes "rep A1 c" "pp_run ops xs (pp_init c) = (tr, s)" "ord = Wait_first"
  shows "\<not> (ping_pc s = At_a2 \<and> pong_pc s = At_b2)"
  using alternation(3) [OF assms(1,2)] unfolding turn_def assms(3)
  by (cases "cyc Wait_first (length tr)") auto

end

text \<open>A transport whose operation can always complete when it has the turn.\<close>

locale live_handshake = handshake +
  assumes enabled: "rep t c \<Longrightarrow> \<exists>oc. fst (ops t oc c)"
begin

lemma turn_completes:
  assumes "turn ord rep t s" "counted n s"
  shows "\<exists>xs s'. length xs \<le> 2 \<and> pp_run ops xs s = ([t], s')"
proof -
  have rep: "rep t (chan s)" and own: "at_stage s t" using assms(1) by (auto simp: turn_def)
  obtain oc c' where oc: "ops t oc (chan s) = (True, c')"
    using enabled [OF rep] by (metis prod.collapse)
  show ?thesis
  proof (cases t)
    case A1
    show ?thesis
    proof (cases "ping_pc s = At_a1")
      case True
      then show ?thesis using oc A1
        by (intro exI [of _ "[(Ping, oc)]"]) (simp add: pp_step_def ping_step_def)
    next
      case False
      then have "ping_pc s = At_count" using own A1 by simp
      then show ?thesis using oc A1
        by (intro exI [of _ "[(Ping, oc), (Ping, oc)]"]) (simp add: pp_step_def ping_step_def)
    qed
  next
    case A2
    then show ?thesis using oc own
      by (intro exI [of _ "[(Ping, oc)]"]) (simp add: pp_step_def ping_step_def)
  next
    case B1
    then show ?thesis using oc own
      by (intro exI [of _ "[(Pong, oc)]"]) (simp add: pp_step_def pong_step_def)
  next
    case B2
    then show ?thesis using oc own
      by (intro exI [of _ "[(Pong, oc)]"]) (simp add: pp_step_def pong_step_def)
  qed
qed

lemma progress_from:
  assumes "turn ord rep (cyc ord k) s" "counted n s"
  shows "\<exists>xs s'. length xs \<le> 2 * m \<and> pp_run ops xs s = (map (cyc ord) [k..<k + m], s')"
  using assms
proof (induction m arbitrary: k s n)
  case 0
  then show ?case by (intro exI [of _ "[]"]) simp
next
  case (Suc m)
  obtain xs s1 where xs: "length xs \<le> 2" "pp_run ops xs s = ([cyc ord k], s1)"
    using turn_completes [OF Suc.prems] by blast
  have "turn ord rep (cyc ord (Suc k)) s1" "counted (n + count_list [cyc ord k] A1) s1"
    using run_turn [OF Suc.prems(1) xs(2) Suc.prems(2)] by simp_all
  from Suc.IH [OF this] obtain ys s2 where
    ys: "length ys \<le> 2 * m" "pp_run ops ys s1 = (map (cyc ord) [Suc k..<Suc k + m], s2)" by blast
  show ?case
    using xs ys cyc_range_Suc [of ord k m]
    by (intro exI [of _ "xs @ ys"] exI [of _ s2]) (simp add: pp_run_append del: upt_Suc)
qed

text \<open>No reachable state is a deadlock: any number of further rounds can be completed.\<close>

lemma no_deadlock:
  assumes "rep A1 c" "pp_run ops xs (pp_init c) = (tr, s)"
  shows "\<exists>ys s'. length ys \<le> 2 * m
    \<and> pp_run ops ys s = (map (cyc ord) [length tr..<length tr + m], s')"
proof -
  note r = run_turn [OF turn_init [where rep = rep and ord = ord, OF assms(1)] assms(2) counted_init]
  then show ?thesis using progress_from [of "0 + length tr" s "0 + count_list tr A1" m] by simp
qed

lemma progresses_from: "rep A1 c \<Longrightarrow> progresses ord ops c"
  unfolding progresses_def using no_deadlock by blast

end

end
