(* ===== verification/Shared_Modes.thy ===== *)
theory Shared_Modes
  imports Pingpong
begin

text \<open>
  The transports over one shared \<open>int\<close>: \<^verbatim>\<open>comms/spin.c\<close>, \<^verbatim>\<open>comms/yield.c\<close> and
  \<^verbatim>\<open>comms/spin_unrolled.c\<close> (busy waiting), and the modes that only write it, \<^verbatim>\<open>comms/race.c\<close>.
  The barriers, \<^verbatim>\<open>msync\<close> and \<^verbatim>\<open>sched_yield\<close> calls do not change the memory and are no steps of
  their own (\<open>Store_Buffers\<close> has the loops with them). Each mode's \<^verbatim>\<open>make_*_pair\<close> is called twice by the setup; the first call maps and
  clears the variable.
\<close>

section \<open>Making the pair\<close>

text \<open>
  The static state of a shared-variable mode: how often the pair function ran, and the variable
  (\<open>None\<close> before it is mapped; a fresh anonymous mapping is zero).
\<close>

record shared_state =
  pair_num :: int
  shared_var :: "int option"

definition shared_initial :: shared_state where
  "shared_initial = \<lparr>pair_num = 0, shared_var = None\<rparr>"

definition make_race_pair :: "shared_state \<Rightarrow> (int \<times> int) \<times> shared_state" where
  "make_race_pair s =
     (let s1 = (if pair_num s = 0 then s\<lparr>shared_var := Some 0\<rparr> else s)
      in ((pair_num s, pair_num s), s1\<lparr>pair_num := pair_num s + 1\<rparr>))"

definition make_spin_unrolled_pair ::
    "shared_state \<Rightarrow> int \<Rightarrow> (int \<times> int) \<times> shared_state \<times> int" where
  "make_spin_unrolled_pair s mem_sync_method =
     (let (s1, m) = (if pair_num s = 0 then (s\<lparr>shared_var := Some 0\<rparr>, 1) else (s, mem_sync_method))
      in ((pair_num s, pair_num s), s1\<lparr>pair_num := pair_num s + 1\<rparr>, m))"

text \<open>In \<^verbatim>\<open>yield_nop\<close> mode no variable is mapped: the flag is \<^verbatim>\<open>strncmp(name, "yield_nop", 9) == 0\<close>.\<close>

definition make_yield_pair :: "string \<Rightarrow> shared_state \<Rightarrow> (int \<times> int) \<times> shared_state" where
  "make_yield_pair mode_name s =
     (let s1 = (if pair_num s = 0 \<and> \<not> strncmp_eq mode_name ''yield_nop'' 9
                then s\<lparr>shared_var := Some 0\<rparr> else s)
      in ((pair_num s, pair_num s), s1\<lparr>pair_num := pair_num s + 1\<rparr>))"

section \<open>Busy waiting: spin and yield\<close>

text \<open>
  The channel is the value of the shared variable. Ping stores 1 and waits for 0; pong waits
  for 1 and stores 0.
\<close>

definition spin_ops :: "(unit, int) pp_ops" where
  "spin_ops st oc v =
     (case st of
        A1 \<Rightarrow> (True, 1)
      | A2 \<Rightarrow> (\<not> v \<noteq> 0, v)
      | B1 \<Rightarrow> (\<not> v \<noteq> 1, v)
      | B2 \<Rightarrow> (True, 0))"

definition yield_ops :: "(unit, int) pp_ops" where
  "yield_ops st oc v =
     (case st of
        A1 \<Rightarrow> (True, 1)
      | A2 \<Rightarrow> (\<not> v \<noteq> 0, v)
      | B1 \<Rightarrow> (\<not> v \<noteq> 1, v)
      | B2 \<Rightarrow> (True, 0))"

definition spin_rep :: "stage \<Rightarrow> int \<Rightarrow> bool" where
  "spin_rep t v \<longleftrightarrow> v = (if t = B1 \<or> t = B2 then 1 else 0)"

interpretation spin: live_handshake spin_ops Send_first spin_rep
proof
  fix t oc c c'
  assume "spin_rep t c" "spin_ops t oc c = (True, c')"
  then show "spin_rep (nxt Send_first t) c'"
    by (cases t) (auto simp: spin_rep_def spin_ops_def)
next
  fix t oc c c'
  assume "spin_rep t c" "spin_ops t oc c = (False, c')"
  then show "spin_rep t c'" by (cases t) (auto simp: spin_rep_def spin_ops_def)
next
  fix t oc c ok c'
  assume "spin_rep t c" "spin_ops (parked Send_first t) oc c = (ok, c')"
  then show "\<not> ok \<and> spin_rep t c'" by (cases t) (auto simp: spin_rep_def spin_ops_def)
next
  fix t c
  assume "spin_rep t c"
  then show "\<exists>oc. fst (spin_ops t oc c)" by (cases t) (auto simp: spin_rep_def spin_ops_def)
qed

lemma yield_ops_eq: "yield_ops = spin_ops"
  by (intro ext) (simp add: yield_ops_def spin_ops_def)

interpretation yield: live_handshake yield_ops Send_first spin_rep
  unfolding yield_ops_eq by unfold_locales

section \<open>The unrolled loop\<close>

text \<open>
  \<^verbatim>\<open>PING_LOOP_METHOD\<close> and \<^verbatim>\<open>PONG_LOOP_METHOD\<close> repeat \<^verbatim>\<open>ONE_PING\<close> and \<^verbatim>\<open>ONE_PONG\<close> ten times in the
  loop body: a program counter is the copy (0 to 9) and the place in it.
\<close>

record unrolled =
  u_ping :: "nat \<times> ping_pc"
  u_pong :: "nat \<times> pong_pc"
  u_count :: "64 word"
  u_var :: int

definition unroll :: nat where "unroll = 10"

definition next_copy :: "nat \<Rightarrow> nat" where
  "next_copy i = (if Suc i = unroll then 0 else Suc i)"

definition unrolled_ping :: "unrolled \<Rightarrow> unrolled" where
  "unrolled_ping s =
     (case u_ping s of (i, pc) \<Rightarrow>
        (case pc of
           At_count \<Rightarrow> s\<lparr>u_count := u_count s + 1, u_ping := (i, At_a1)\<rparr>
         | At_a1 \<Rightarrow> s\<lparr>u_var := 1, u_ping := (i, At_a2)\<rparr>
         | At_a2 \<Rightarrow> if u_var s \<noteq> 0 then s else s\<lparr>u_ping := (next_copy i, At_count)\<rparr>))"

definition unrolled_pong :: "unrolled \<Rightarrow> unrolled" where
  "unrolled_pong s =
     (case u_pong s of (i, pc) \<Rightarrow>
        (case pc of
           At_b1 \<Rightarrow> if u_var s \<noteq> 1 then s else s\<lparr>u_pong := (i, At_b2)\<rparr>
         | At_b2 \<Rightarrow> s\<lparr>u_var := 0, u_pong := (next_copy i, At_b1)\<rparr>))"

fun unrolled_run :: "tid list \<Rightarrow> unrolled \<Rightarrow> unrolled" where
  "unrolled_run [] s = s"
| "unrolled_run (t # ts) s =
     unrolled_run ts (case t of Ping \<Rightarrow> unrolled_ping s | Pong \<Rightarrow> unrolled_pong s)"

text \<open>The loops are entered by a computed jump, one copy of the code for each of five methods.\<close>

definition sync_mem_method_table :: "string list" where
  "sync_mem_method_table =
     [''no memory sync'', ''mb()'', ''msync( MS_SYNC )'', ''msync( MS_INVALIDATE )'', ''msync( MS_ASYNC )'']"

definition enter_unrolled :: "int \<Rightarrow> string res" where
  "enter_unrolled mem_sync_method = aget sync_mem_method_table mem_sync_method"

definition unrolled_init :: unrolled where
  "unrolled_init = \<lparr>u_ping = (0, At_count), u_pong = (0, At_b1), u_count = 0, u_var = 0\<rparr>"

definition roll :: "unrolled \<Rightarrow> int pp" where
  "roll s = \<lparr>ping_pc = snd (u_ping s), pong_pc = snd (u_pong s), ping_count = u_count s,
             chan = u_var s\<rparr>"

definition copies_ok :: "unrolled \<Rightarrow> bool" where
  "copies_ok s \<longleftrightarrow> fst (u_ping s) < unroll \<and> fst (u_pong s) < unroll"

lemma roll_step:
  "roll (case t of Ping \<Rightarrow> unrolled_ping s | Pong \<Rightarrow> unrolled_pong s)
     = snd (pp_step spin_ops (t, ()) (roll s))"
  by (cases t) (auto simp: roll_def pp_step_def ping_step_def pong_step_def spin_ops_def
      unrolled_ping_def unrolled_pong_def split: ping_pc.splits pong_pc.splits prod.splits)

lemma copies_step:
  "copies_ok s \<Longrightarrow> copies_ok (case t of Ping \<Rightarrow> unrolled_ping s | Pong \<Rightarrow> unrolled_pong s)"
  by (cases t) (auto simp: copies_ok_def unrolled_ping_def unrolled_pong_def next_copy_def unroll_def
      split: ping_pc.splits pong_pc.splits prod.splits)

lemma snd_pp_run_Cons: "snd (pp_run ops (x # xs) s) = snd (pp_run ops xs (snd (pp_step ops x s)))"
  by (auto split: prod.splits)

lemma roll_run: "roll (unrolled_run ts s) = snd (pp_run spin_ops (map (\<lambda>t. (t, ())) ts) (roll s))"
proof (induction ts arbitrary: s)
  case (Cons t ts)
  show ?case unfolding list.map snd_pp_run_Cons unrolled_run.simps Cons.IH roll_step ..
qed simp

lemma copies_run: "copies_ok s \<Longrightarrow> copies_ok (unrolled_run ts s)"
  by (induction ts arbitrary: s) (auto simp: copies_step)

lemma roll_init: "roll unrolled_init = pp_init 0"
  by (simp add: roll_def unrolled_init_def pp_init_def)

section \<open>Yielding only\<close>

text \<open>In \<^verbatim>\<open>yield_nop\<close> mode ping counts its calls of \<^verbatim>\<open>sched_yield\<close> and pong sleeps.\<close>

definition comm_ping_yield_nop :: "64 word \<Rightarrow> 64 word" where
  "comm_ping_yield_nop cnt = cnt + 1"

definition comm_pong_yield_nop :: "64 word \<Rightarrow> 64 word" where
  "comm_pong_yield_nop cnt = cnt"

definition yield_nop_run :: "tid list \<Rightarrow> 64 word \<Rightarrow> 64 word" where
  "yield_nop_run ts cnt = fold (\<lambda>t. case t of Ping \<Rightarrow> comm_ping_yield_nop | Pong \<Rightarrow> comm_pong_yield_nop) ts cnt"

lemma yield_nop_count: "yield_nop_run ts cnt = cnt + of_nat (count_list ts Ping)"
proof (induction ts arbitrary: cnt)
  case (Cons t ts)
  then show ?case by (cases t) (simp_all add: yield_nop_run_def comm_ping_yield_nop_def comm_pong_yield_nop_def)
qed (simp add: yield_nop_run_def)

section \<open>Races\<close>

text \<open>
  In \<^verbatim>\<open>race1\<close> only ping counts; in \<^verbatim>\<open>race2\<close> both threads run \<^verbatim>\<open>run_data->ping_count ++\<close> on the same
  volatile counter, a load and a store with no synchronisation. A thread is about to load
  (\<open>R_load\<close>), holds the loaded value (\<open>R_store v\<close>) or is about to write the variable.
\<close>

datatype race_pc = R_load | R_store "64 word" | R_write

record race_state =
  r_ping :: race_pc
  r_pong :: race_pc
  r_count :: "64 word"
  r_var :: int

definition race_init :: "race_pc \<Rightarrow> race_state" where
  "race_init pong_start = \<lparr>r_ping = R_load, r_pong = pong_start, r_count = 0, r_var = 0\<rparr>"

definition comm_ping_race :: "race_state \<Rightarrow> race_state" where
  "comm_ping_race s =
     (case r_ping s of
        R_load \<Rightarrow> s\<lparr>r_ping := R_store (r_count s)\<rparr>
      | R_store v \<Rightarrow> s\<lparr>r_count := v + 1, r_ping := R_write\<rparr>
      | R_write \<Rightarrow> s\<lparr>r_var := 1, r_ping := R_load\<rparr>)"

definition comm_pong_race1 :: "race_state \<Rightarrow> race_state" where
  "comm_pong_race1 s = s\<lparr>r_var := 0\<rparr>"

definition comm_pong_race2 :: "race_state \<Rightarrow> race_state" where
  "comm_pong_race2 s =
     (case r_pong s of
        R_load \<Rightarrow> s\<lparr>r_pong := R_store (r_count s)\<rparr>
      | R_store v \<Rightarrow> s\<lparr>r_count := v + 1, r_pong := R_write\<rparr>
      | R_write \<Rightarrow> s\<lparr>r_var := 0, r_pong := R_load\<rparr>)"

fun race_run :: "(race_state \<Rightarrow> race_state) \<Rightarrow> tid list \<Rightarrow> race_state \<Rightarrow> race_state" where
  "race_run pong [] s = s"
| "race_run pong (t # ts) s = race_run pong ts (case t of Ping \<Rightarrow> comm_ping_race s | Pong \<Rightarrow> pong s)"

definition race_phase :: "race_pc \<Rightarrow> nat" where
  "race_phase pc = (case pc of R_load \<Rightarrow> 0 | R_store _ \<Rightarrow> 1 | R_write \<Rightarrow> 2)"

text \<open>With one writer the counter is exactly the number of increments its thread completed.\<close>

definition race1_ok :: "nat \<Rightarrow> race_state \<Rightarrow> bool" where
  "race1_ok n s \<longleftrightarrow>
     race_phase (r_ping s) = n mod 3 \<and> r_count s = of_nat ((n + 1) div 3)
     \<and> (\<forall>v. r_ping s = R_store v \<longrightarrow> v = r_count s)"

lemma race1_ping_step:
  assumes "race1_ok n s"
  shows "race1_ok (Suc n) (comm_ping_race s)"
proof (cases "r_ping s")
  case R_load
  then have "n mod 3 = 0" using assms by (simp add: race1_ok_def race_phase_def)
  then have "Suc n mod 3 = 1" "(Suc n + 1) div 3 = (n + 1) div 3" by presburger+
  then show ?thesis using assms R_load
    by (simp add: race1_ok_def race_phase_def comm_ping_race_def)
next
  case (R_store v)
  then have "n mod 3 = 1" using assms by (simp add: race1_ok_def race_phase_def)
  then have e: "(Suc n + 1) div 3 = Suc ((n + 1) div 3)" "Suc n mod 3 = 2" by presburger+
  define k where "k = (n + 1) div 3"
  note k = k_def [symmetric] e(1) [folded k_def] e(2)
  have "v = of_nat k" using assms R_store unfolding race1_ok_def k(1) by auto
  then show ?thesis unfolding race1_ok_def k(2,3)
    using R_store by (simp add: race_phase_def comm_ping_race_def)
next
  case R_write
  then have "n mod 3 = 2" using assms by (simp add: race1_ok_def race_phase_def)
  then have "Suc n mod 3 = 0" "(Suc n + 1) div 3 = (n + 1) div 3" by presburger+
  then show ?thesis using assms R_write
    by (simp add: race1_ok_def race_phase_def comm_ping_race_def)
qed

lemma race1_run_ok:
  "race1_ok n s \<Longrightarrow> race1_ok (n + count_list ts Ping) (race_run comm_pong_race1 ts s)"
proof (induction ts arbitrary: n s)
  case (Cons t ts)
  show ?case
  proof (cases t)
    case Ping
    then show ?thesis using Cons.IH [OF race1_ping_step [OF Cons.prems]] by simp
  next
    case Pong
    have "race1_ok n (comm_pong_race1 s)" using Cons.prems by (auto simp: race1_ok_def comm_pong_race1_def)
    then show ?thesis using Cons.IH Pong by simp
  qed
qed simp

section \<open>Properties\<close>

text \<open>
  The busy-wait modes, spin and yield, on the shared variable as their setup leaves it: every
  schedule completes the operations in strict alternation (ping stores, pong sees it, pong stores,
  ping sees it, and so on), the counter that the monitor reads is the number of rounds begun,
  modulo the 64-bit width, and after any schedule \<open>m\<close> further operations can be completed in
  \<open>2 * m\<close> steps, so there is no deadlock.
\<close>

lemma spin_modes_correct:
  "alternates Send_first spin_ops 0 \<and> progresses Send_first spin_ops 0
   \<and> (\<exists>v. shared_var (snd (make_yield_pair ''yield'' shared_initial)) = Some v
        \<and> alternates Send_first yield_ops v \<and> progresses Send_first yield_ops v)"
proof -
  have i: "spin_rep A1 0" by (simp add: spin_rep_def)
  have "shared_var (snd (make_yield_pair ''yield'' shared_initial)) = Some 0"
    by (simp add: make_yield_pair_def shared_initial_def strncmp_eq_def Let_def)
  then show ?thesis
    using spin.alternates_from [OF i] spin.progresses_from [OF i]
      yield.alternates_from [OF i] yield.progresses_from [OF i] by simp
qed

text \<open>
  C33: unrolling the busy-wait loops ten times changes nothing observable: under every schedule the
  unrolled program's counter, shared variable and places are those of the simple loops, and its
  copy indices stay in range. Both loops are entered at the method that the pair function has set,
  one of the table.
\<close>

theorem unrolled_equals_spin:
  "roll (unrolled_run ts unrolled_init) = snd (pp_run spin_ops (map (\<lambda>t. (t, ())) ts) (pp_init 0))
   \<and> copies_ok (unrolled_run ts unrolled_init)
   \<and> (let (fd1, s1, m1) = make_spin_unrolled_pair shared_initial m0; (fd2, s2, m2) = make_spin_unrolled_pair s1 m1
      in shared_var s2 = Some (u_var unrolled_init) \<and> enter_unrolled m2 = Inr ''mb()'')"
  using roll_run [of ts unrolled_init] roll_init copies_run [of unrolled_init ts]
  by (simp add: copies_ok_def unrolled_init_def unroll_def make_spin_unrolled_pair_def shared_initial_def
      enter_unrolled_def sync_mem_method_table_def aget_def)

text \<open>
  In \<^verbatim>\<open>race1\<close> the counter is exact under every schedule (ping's three steps are one
  iteration and pong never writes it), while in \<^verbatim>\<open>race2\<close> there is a schedule in which both threads
  complete an increment and the counter shows one. In \<^verbatim>\<open>yield_nop\<close> the counter is the number of calls.
\<close>

lemma race_counters:
  "r_count (race_run comm_pong_race1 ts (race_init R_write)) = of_nat ((count_list ts Ping + 1) div 3)
   \<and> (\<exists>ts2. r_count (race_run comm_pong_race2 ts2 (race_init R_load)) = 1
        \<and> r_ping (race_run comm_pong_race2 ts2 (race_init R_load)) = R_write
        \<and> r_pong (race_run comm_pong_race2 ts2 (race_init R_load)) = R_write)
   \<and> yield_nop_run ts 0 = of_nat (count_list ts Ping)"
proof (intro conjI)
  have "race1_ok 0 (race_init R_write)" by (simp add: race1_ok_def race_init_def race_phase_def)
  from race1_run_ok [OF this, of ts]
  show "r_count (race_run comm_pong_race1 ts (race_init R_write)) = of_nat ((count_list ts Ping + 1) div 3)"
    by (simp add: race1_ok_def)
  show "\<exists>ts2. r_count (race_run comm_pong_race2 ts2 (race_init R_load)) = 1
        \<and> r_ping (race_run comm_pong_race2 ts2 (race_init R_load)) = R_write
        \<and> r_pong (race_run comm_pong_race2 ts2 (race_init R_load)) = R_write"
    by (rule exI [of _ "[Ping, Pong, Ping, Pong]"])
      (simp add: race_init_def comm_ping_race_def comm_pong_race2_def)
  show "yield_nop_run ts 0 = of_nat (count_list ts Ping)" by (simp add: yield_nop_count)
qed

end
