(* ===== verification/Mode_Options.thy ===== *)
theory Mode_Options
  imports Shared_Modes "HOL-Library.Multiset"
begin

text \<open>
  The modes that take options: the table of memory-synchronisation methods of \<^verbatim>\<open>comms/spin.c\<close>, its
  sorting, its option string and its default; and the varieties of \<^verbatim>\<open>comms/nop.c\<close>.
\<close>

section \<open>The method table of the spin mode\<close>

text \<open>The code a method runs after each store (the theory \<open>Store_Buffers\<close> says what it does there); \<^verbatim>\<open>mb\<close> is an \<^verbatim>\<open>mfence\<close>, \<^verbatim>\<open>mb2\<close> binds the compiler only.\<close>

datatype sync_code =
    Asm_empty
  | Mb
  | Mb2
  | Msync string
  | Sync_synchronize
  | No_code

record spin_memsync =
  ms_sequence :: int
  ms_fn_name :: string
  ms_description :: string
  ms_code :: sync_code

text \<open>An entry of the table; its two functions are the ping and the pong loop with that code.\<close>

definition spin_define_function :: "int \<Rightarrow> string \<Rightarrow> string \<Rightarrow> sync_code \<Rightarrow> spin_memsync" where
  "spin_define_function sequence name desc code =
     \<lparr>ms_sequence = sequence, ms_fn_name = name, ms_description = desc, ms_code = code\<rparr>"

definition spin_methods :: "spin_memsync list" where
  "spin_methods =
     [spin_define_function 3 ''none'' ''no memory sync'' Asm_empty,
      spin_define_function 4 ''mem_barrier'' ''mb()'' Mb,
      spin_define_function 5 ''mem_barrier2'' ''mb2()/memory clobber'' Mb2,
      spin_define_function 6 ''msync_sync'' ''msync( MS_SYNC )'' (Msync ''MS_SYNC''),
      spin_define_function 7 ''msync_inval'' ''msync( MS_INVALIDATE )'' (Msync ''MS_INVALIDATE''),
      spin_define_function 8 ''msync_async'' ''msync( MS_ASYNC )'' (Msync ''MS_ASYNC''),
      spin_define_function 9 ''sync_sync'' ''__sync_synchronize()'' Sync_synchronize,
      spin_define_function 10 ''asm_clobber'' ''asm memory clobber'' No_code]"

lemmas spin_methods_defs = spin_methods_def spin_define_function_def

text \<open>The comparison function; \<open>below\<close> is the comparison of the two pointers in the last resort.\<close>

definition compare_memsync_structs :: "bool \<Rightarrow> spin_memsync \<Rightarrow> spin_memsync \<Rightarrow> int" where
  "compare_memsync_structs below s1 s2 =
     (if ms_sequence s1 < ms_sequence s2 then -1
      else if ms_sequence s2 < ms_sequence s1 then 1
      else if strcmp (ms_fn_name s1) (ms_fn_name s2) \<noteq> 0 then strcmp (ms_fn_name s1) (ms_fn_name s2)
      else if strcmp (ms_description s1) (ms_description s2) \<noteq> 0
      then strcmp (ms_description s1) (ms_description s2)
      else if below then 1 else 0)"

text \<open>\<^verbatim>\<open>qsort\<close> of the C library with a comparison function, as an insertion sort.\<close>

fun qsort_insert :: "('a \<Rightarrow> 'a \<Rightarrow> int) \<Rightarrow> 'a \<Rightarrow> 'a list \<Rightarrow> 'a list" where
  "qsort_insert cmp x [] = [x]"
| "qsort_insert cmp x (y # ys) = (if cmp x y \<le> 0 then x # y # ys else y # qsort_insert cmp x ys)"

fun qsort :: "('a \<Rightarrow> 'a \<Rightarrow> int) \<Rightarrow> 'a list \<Rightarrow> 'a list" where
  "qsort cmp [] = []"
| "qsort cmp (x # xs) = qsort_insert cmp x (qsort cmp xs)"

text \<open>The linker lays the table out in an order of its own (\<open>table\<close>); the setup sorts it.\<close>

definition setup_memsync_info :: "spin_memsync list \<Rightarrow> spin_memsync list" where
  "setup_memsync_info table = qsort (compare_memsync_structs False) table"

lemma mset_qsort_insert [simp]: "mset (qsort_insert cmp x ys) = add_mset x (mset ys)"
  by (induction ys) auto

lemma mset_qsort [simp]: "mset (qsort cmp xs) = mset xs"
  by (induction xs) auto

lemma set_qsort_insert [simp]: "set (qsort_insert cmp x ys) = insert x (set ys)"
  by (induction ys) auto

lemma compare_sequence:
  "compare_memsync_structs b s1 s2 \<le> 0 \<Longrightarrow> ms_sequence s1 \<le> ms_sequence s2"
  "\<not> compare_memsync_structs b s1 s2 \<le> 0 \<Longrightarrow> ms_sequence s2 \<le> ms_sequence s1"
  by (auto simp: compare_memsync_structs_def split: if_splits)

lemma sorted_qsort_insert:
  "sorted (map ms_sequence ys) \<Longrightarrow>
     sorted (map ms_sequence (qsort_insert (compare_memsync_structs b) x ys))"
proof (induction ys)
  case (Cons y ys)
  then show ?case using compare_sequence [of b x y] by fastforce
qed simp

lemma sorted_qsort: "sorted (map ms_sequence (qsort (compare_memsync_structs b) xs))"
  by (induction xs) (simp_all add: sorted_qsort_insert)

text \<open>Whatever the link order, the method with option number \<open>n\<close> is the same.\<close>

lemma setup_any_order:
  assumes "mset table = mset spin_methods"
  shows "setup_memsync_info table = spin_methods"
proof (rule map_sorted_distinct_set_unique)
  have m: "mset (setup_memsync_info table) = mset spin_methods"
    using assms by (simp add: setup_memsync_info_def)
  then show s: "set (setup_memsync_info table) = set spin_methods" by (rule mset_eq_setD)
  show "inj_on ms_sequence (set (setup_memsync_info table) \<union> set spin_methods)"
    unfolding s by (simp add: spin_methods_defs)
  show "sorted (map ms_sequence (setup_memsync_info table))"
    by (simp add: setup_memsync_info_def sorted_qsort)
  have "mset (map ms_sequence (setup_memsync_info table)) = mset (map ms_sequence spin_methods)"
    using m by simp
  moreover have "distinct (map ms_sequence spin_methods)" by (simp add: spin_methods_defs)
  ultimately show "distinct (map ms_sequence (setup_memsync_info table))"
    by (metis mset_eq_imp_distinct_iff)
qed (simp_all add: spin_methods_defs)

section \<open>The option string and the pair function of the spin mode\<close>

record spin_state =
  mem_sync_method_ping :: int
  mem_sync_method_pong :: int
  mem_sync_method_ping_info :: "spin_memsync option"
  mem_sync_method_pong_info :: "spin_memsync option"
  spin_shared :: shared_state

definition spin_initial :: spin_state where
  "spin_initial = \<lparr>mem_sync_method_ping = -1, mem_sync_method_pong = -1,
     mem_sync_method_ping_info = None, mem_sync_method_pong_info = None,
     spin_shared = shared_initial\<rparr>"

definition select_methods :: "spin_memsync list \<Rightarrow> spin_state \<Rightarrow> spin_state res" where
  "select_methods info st =
     bind_res (aget info (mem_sync_method_ping st)) (\<lambda>p.
       bind_res (aget info (mem_sync_method_pong st)) (\<lambda>q.
         Inr (st\<lparr>mem_sync_method_ping_info := Some p, mem_sync_method_pong_info := Some q\<rparr>)))"

text \<open>The second part of the option, after the first number: what \<^verbatim>\<open>mem_sync_method_pong\<close> becomes.\<close>

definition spin_pong_option :: "int \<Rightarrow> int \<Rightarrow> string \<Rightarrow> int \<Rightarrow> int res" where
  "spin_pong_option max_value value p_remainder old =
     (if p_remainder = [] then Inr value
      else if hd p_remainder = CHR '',''
      then (let v = fst (strtol (tl p_remainder))
            in if v < 0 \<or> max_value < v
               then Inl (Exit_fail ''Option value %ld is outside the appropriate range (0-%d)'')
               else Inr v)
      else Inr old)"

text \<open>
  The option string. (The code goes on to test whether the first number is \<open>-1\<close>, which it is not
  after its range check.)
\<close>

definition comm_spin_parse_options ::
    "spin_memsync list \<Rightarrow> string \<Rightarrow> spin_state \<Rightarrow> spin_state res" where
  "comm_spin_parse_options table option_string st =
     (let info = setup_memsync_info table;
          max_value = int (length info) - 1;
          (value, p_remainder) = strtol option_string
      in if value < 0 \<or> max_value < value \<or> option_string = p_remainder
         then Inl (Exit_fail ''Unable to correctly parse '%s'...  expected an integer from 0-%d'')
         else bind_res (spin_pong_option max_value value p_remainder (mem_sync_method_pong st)) (\<lambda>pong.
                select_methods info
                  (st\<lparr>mem_sync_method_ping := value, mem_sync_method_pong := pong\<rparr>)))"

definition spin_default :: "spin_memsync list \<Rightarrow> spin_state \<Rightarrow> spin_state res" where
  "spin_default table st =
     (if mem_sync_method_ping st = -1
      then select_methods (setup_memsync_info table)
             (st\<lparr>mem_sync_method_ping := 0, mem_sync_method_pong := 0\<rparr>)
      else Inr st)"

definition make_spin_pair ::
    "spin_memsync list \<Rightarrow> spin_state \<Rightarrow> ((int \<times> int) \<times> spin_state) res" where
  "make_spin_pair table st =
     (let n = pair_num (spin_shared st) in
      bind_res (if n = 0 then spin_default table st else Inr st) (\<lambda>st1.
        let sh = spin_shared st1; sh1 = (if n = 0 then sh\<lparr>shared_var := Some 0\<rparr> else sh)
        in Inr ((n, n), st1\<lparr>spin_shared := sh1\<lparr>pair_num := n + 1\<rparr>\<rparr>)))"

text \<open>The loops call the methods of the two entries.\<close>

definition comm_ping_spin :: "spin_state \<Rightarrow> spin_memsync res" where
  "comm_ping_spin st = (case mem_sync_method_ping_info st of None \<Rightarrow> Inl Null_pointer | Some m \<Rightarrow> Inr m)"

definition comm_pong_spin :: "spin_state \<Rightarrow> spin_memsync res" where
  "comm_pong_spin st = (case mem_sync_method_pong_info st of None \<Rightarrow> Inl Null_pointer | Some m \<Rightarrow> Inr m)"

text \<open>
  The list of options in the usage text: two columns, each entry with its number and its description
  padded on the right (\<^verbatim>\<open>%-23s\<close>); \<open>i\<close> is the loop variable.
\<close>

definition pad_right :: "nat \<Rightarrow> string \<Rightarrow> string" where
  "pad_right w s = s @ replicate (w - length s) (CHR '' '')"

definition show_entry :: "nat \<Rightarrow> nat \<Rightarrow> string \<Rightarrow> string" where
  "show_entry w i d = '' '' @ dec_nat i @ '' - '' @ pad_right w d"

fun show_columns :: "string \<Rightarrow> nat \<Rightarrow> nat \<Rightarrow> string list \<Rightarrow> string" where
  "show_columns indent w i [] = (if i mod 2 \<noteq> 0 then [CHR 0x0A] else [])"
| "show_columns indent w i (d # ds) =
     (if \<not> i mod 2 \<noteq> 0 then indent else []) @ show_entry w i d
       @ (if i mod 2 \<noteq> 0 then [CHR 0x0A] else []) @ show_columns indent w (i + 1) ds"

definition comm_spin_show_options :: "spin_memsync list \<Rightarrow> string \<Rightarrow> string" where
  "comm_spin_show_options table indent_string =
     indent_string @ '' options which may be specified for both ping/pong (use '##') or each (use '##,##'):'' @ [CHR 0x0A]
       @ show_columns indent_string 23 0 (map ms_description (setup_memsync_info table))"

lemma show_columns_entry:
  "n < length ds \<Longrightarrow> \<exists>a b. show_columns indent w i ds = a @ show_entry w (i + n) (ds ! n) @ b"
proof (induction ds arbitrary: i n)
  case (Cons d ds)
  show ?case
  proof (cases n)
    case 0
    then show ?thesis
      by (intro exI [of _ "if \<not> i mod 2 \<noteq> 0 then indent else []"]
          exI [of _ "(if i mod 2 \<noteq> 0 then [CHR 0x0A] else []) @ show_columns indent w (i + 1) ds"]) simp
  next
    case (Suc k)
    with Cons.prems Cons.IH [of k "i + 1"] obtain a b where
      "show_columns indent w (i + 1) ds = a @ show_entry w (i + n) ((d # ds) ! n) @ b" by auto
    then show ?thesis unfolding show_columns.simps by (metis append.assoc)
  qed
qed simp

lemma spin_methods_length [simp]: "length spin_methods = 8"
  by (simp add: spin_methods_defs)

lemma aget_nat: "n < length xs \<Longrightarrow> aget xs (int n) = Inr (xs ! n)"
  by simp

lemma is_digit_comma [simp]: "\<not> is_digit (CHR '','')"
  by (simp add: is_digit_def)

lemma strtol_dec_comma: "n < 8 \<Longrightarrow> strtol (dec_nat n @ CHR '','' # r) = (int n, CHR '','' # r)"
  by (rule strtol_dec_nat) (simp_all add: long_max_def)

lemma strtol_dec_end: "n < 8 \<Longrightarrow> strtol (dec_nat n) = (int n, [])"
  using strtol_dec_nat [of "[]" n] by (simp add: long_max_def)

lemma parse_two:
  assumes t: "mset table = mset spin_methods" and p: "p < 8" and q: "q < 8"
  shows "comm_spin_parse_options table (dec_nat p @ CHR '','' # dec_nat q) st =
     Inr (st\<lparr>mem_sync_method_ping := int p, mem_sync_method_pong := int q,
            mem_sync_method_ping_info := Some (spin_methods ! p),
            mem_sync_method_pong_info := Some (spin_methods ! q)\<rparr>)"
  using p q by (simp add: comm_spin_parse_options_def setup_any_order [OF t] strtol_dec_comma
      strtol_dec_end spin_pong_option_def select_methods_def Let_def)

lemma parse_one:
  assumes t: "mset table = mset spin_methods" and p: "p < 8"
  shows "comm_spin_parse_options table (dec_nat p) st =
     Inr (st\<lparr>mem_sync_method_ping := int p, mem_sync_method_pong := int p,
            mem_sync_method_ping_info := Some (spin_methods ! p),
            mem_sync_method_pong_info := Some (spin_methods ! p)\<rparr>)"
  using p by (simp add: comm_spin_parse_options_def setup_any_order [OF t]
      strtol_dec_end spin_pong_option_def select_methods_def Let_def)

text \<open>
  A rest that does not start with a comma leaves \<^verbatim>\<open>mem_sync_method_pong\<close> as it was, which is -1
  when the option is given the first time.
\<close>

lemma parse_unrecognised:
  assumes t: "mset table = mset spin_methods" and p: "p < 8"
    and c: "\<not> is_digit c" "c \<noteq> CHR '',''" and o: "mem_sync_method_pong st = -1"
  shows "comm_spin_parse_options table (dec_nat p @ c # r) st = Inl Out_of_bounds"
proof -
  have "strtol (dec_nat p @ c # r) = (int p, c # r)"
    using c p by (intro strtol_dec_nat) (simp_all add: long_max_def)
  then show ?thesis using p c o
    by (simp add: comm_spin_parse_options_def setup_any_order [OF t] spin_pong_option_def
        select_methods_def aget_def Let_def)
qed

section \<open>The nop mode\<close>

definition nop_variety_string :: "string list" where
  "nop_variety_string =
     [''set, then test variable'', ''only set variable'', ''only test variable'',
      ''only increments counter'', ''loop-unrolled increment'']"

definition nop_variety_count :: int where
  "nop_variety_count = int (length nop_variety_string)"

definition comm_nop_show_options :: "string \<Rightarrow> string" where
  "comm_nop_show_options indent_string =
     indent_string @ ''The following options specify the laziness of the ping process (pong only sleeps)'' @ [CHR 0x0A]
       @ show_columns indent_string 25 0 nop_variety_string"

definition comm_nop_parse_options :: "string \<Rightarrow> int res" where
  "comm_nop_parse_options option_string =
     (let max_value = nop_variety_count - 1; (value, p_remainder) = strtol option_string
      in if value < 0 \<or> max_value < value \<or> option_string = p_remainder
         then Inl (Exit_fail ''Unable to parse '%s' -- expected an integer from 0-%d'')
         else Inr value)"

text \<open>
  The pair function sets the default variety and the pause of pong; the state is the number of
  calls, the variety and the variable.
\<close>

record nop_state =
  nop_num :: int
  nop_variety :: int
  nop_var :: "int option"

definition make_nop_pair :: "nop_state \<Rightarrow> (int \<times> int) \<times> nop_state" where
  "make_nop_pair s =
     (let s1 = (if nop_num s = 0
                then s\<lparr>nop_var := Some 0,
                       nop_variety := (if nop_variety s = -1 then 0 else nop_variety s)\<rparr>
                else s)
      in ((nop_num s, nop_num s), s1\<lparr>nop_num := nop_num s + 1\<rparr>))"

text \<open>
  One iteration of the loop of \<^verbatim>\<open>comm_ping_nop\<close>, on the counter and the variable: \<open>None\<close> is a test
  that never passes. Variety 4 continues in assembly on registers the source does not set.
\<close>

definition nop_iteration :: "int \<Rightarrow> 64 word \<times> int \<Rightarrow> ((64 word \<times> int) option) res" where
  "nop_iteration variety s =
     (case s of (cnt, var) \<Rightarrow>
        if variety = 0 then Inr (Some (cnt + 1, var))
        else if variety = 1 then Inr (if var \<noteq> 1 then None else Some (cnt + 1, var))
        else if variety = 2 then Inr (Some (cnt + 1, 1))
        else if variety = 3 then Inr (Some (cnt + 1, var))
        else if variety = 4 then Inl Unspecified
        else Inl (Exit_fail ''Unable to determine which nop() to run''))"

text \<open>\<open>n\<close> iterations of \<^verbatim>\<open>comm_ping_nop\<close>, which first sets the variable.\<close>

fun nop_iterations :: "nat \<Rightarrow> int \<Rightarrow> 64 word \<times> int \<Rightarrow> ((64 word \<times> int) option) res" where
  "nop_iterations 0 variety s = Inr (Some s)"
| "nop_iterations (Suc n) variety s =
     bind_res (nop_iteration variety s) (\<lambda>r.
       case r of None \<Rightarrow> Inr None | Some s1 \<Rightarrow> nop_iterations n variety s1)"

definition comm_ping_nop :: "nat \<Rightarrow> int \<Rightarrow> 64 word \<Rightarrow> ((64 word \<times> int) option) res" where
  "comm_ping_nop n variety cnt = nop_iterations n variety (cnt, 1)"

lemma nop_iterations_count:
  "0 \<le> variety \<Longrightarrow> variety < 4 \<Longrightarrow>
     nop_iterations n variety (cnt, 1) = Inr (Some (cnt + of_nat n, 1))"
  by (induction n arbitrary: cnt) (auto simp: nop_iteration_def)

lemma parse_nop:
  assumes "n \<le> 4" "r = [] \<or> \<not> is_digit (hd r)"
  shows "comm_nop_parse_options (dec_nat n @ r) = Inr (int n)"
proof -
  have "strtol (dec_nat n @ r) = (int n, r)"
    using assms by (intro strtol_dec_nat) (simp_all add: long_max_def)
  then show ?thesis using assms(1)
    by (simp add: comm_nop_parse_options_def nop_variety_count_def nop_variety_string_def)
qed

section \<open>Properties\<close>

text \<open>
  C40: the option \<open>p,q\<close> of the spin mode selects method \<open>p\<close> for ping and \<open>q\<close> for pong, and the
  option \<open>p\<close> selects it for both, and the loops then run these methods; the numbers refer to the
  table in its source order whatever order the linker gave it. But after a first number any other
  character than a comma leaves pong with the initial -1, with which the table is then read out of
  its bounds, although the message announces pong's fallback to ping's method.
\<close>

theorem spin_options_select:
  assumes "mset table = mset spin_methods" "p < 8" "q < 8"
  shows "(\<exists>st'. comm_spin_parse_options table (dec_nat p @ CHR '','' # dec_nat q) st = Inr st'
        \<and> comm_ping_spin st' = Inr (spin_methods ! p) \<and> comm_pong_spin st' = Inr (spin_methods ! q))
    \<and> (\<exists>st'. comm_spin_parse_options table (dec_nat p) st = Inr st'
        \<and> comm_ping_spin st' = Inr (spin_methods ! p) \<and> comm_pong_spin st' = Inr (spin_methods ! p))
    \<and> (is_digit c \<or> c = CHR '','' \<or>
        comm_spin_parse_options table (dec_nat p @ c # r) spin_initial = Inl Out_of_bounds)"
  using parse_two [OF assms] parse_one [OF assms(1,2)] parse_unrecognised [OF assms(1,2), of c spin_initial r]
  by (auto simp: comm_ping_spin_def comm_pong_spin_def spin_initial_def)

theorem spin_options_select_witness:
  "(\<exists>st'. comm_spin_parse_options (rev spin_methods) ''6,1'' spin_initial = Inr st'
      \<and> comm_ping_spin st' = Inr (spin_methods ! 6) \<and> comm_pong_spin st' = Inr (spin_methods ! 1))
   \<and> comm_spin_parse_options (rev spin_methods) ''6 1'' spin_initial = Inl Out_of_bounds"
  using spin_options_select [of "rev spin_methods" 6 1 spin_initial "CHR '' ''" "''1''"]
  by (simp add: dec_nat.simps is_digit_def)

text \<open>
  The usage text and the option parser agree: for every method of the spin mode and every variety of
  the nop mode, the number that the list shows next to its description selects it, whatever order
  the linker gave the table and whatever the indentation is.
\<close>

lemma help_lists_options:
  assumes "mset table = mset spin_methods" "p < 8" "n < 5"
  shows "(\<exists>a b st'. comm_spin_show_options table indent = a @ show_entry 23 p (ms_description (spin_methods ! p)) @ b
       \<and> comm_spin_parse_options table (dec_nat p) st = Inr st' \<and> comm_ping_spin st' = Inr (spin_methods ! p))
    \<and> (\<exists>a b. comm_nop_show_options indent = a @ show_entry 25 n (nop_variety_string ! n) @ b
       \<and> comm_nop_parse_options (dec_nat n) = Inr (int n))"
proof -
  obtain a b where "show_columns indent 23 0 (map ms_description (setup_memsync_info table))
      = a @ show_entry 23 p (ms_description (spin_methods ! p)) @ b"
    using show_columns_entry [of p "map ms_description spin_methods" indent 23 0] assms(2)
    by (auto simp: setup_any_order [OF assms(1)])
  then have s: "\<exists>a b. comm_spin_show_options table indent = a @ show_entry 23 p (ms_description (spin_methods ! p)) @ b"
    unfolding comm_spin_show_options_def by (metis append.assoc)
  obtain a b where "show_columns indent 25 0 nop_variety_string = a @ show_entry 25 n (nop_variety_string ! n) @ b"
    using show_columns_entry [of n nop_variety_string indent 25 0] assms(3) by (auto simp: nop_variety_string_def)
  then have "\<exists>a b. comm_nop_show_options indent = a @ show_entry 25 n (nop_variety_string ! n) @ b"
    unfolding comm_nop_show_options_def by (metis append.assoc)
  moreover have "comm_nop_parse_options (dec_nat n) = Inr (int n)" using parse_nop [of n "[]"] assms(3) by simp
  ultimately show ?thesis using s parse_one [OF assms(1,2), of st] by (auto simp: comm_ping_spin_def)
qed

text \<open>
  The nop option is a number from 0 to 4, whatever follows it; with varieties 0 to 3 every
  iteration adds one to the counter. The descriptions of 1 and 2 are swapped: variety 1 only
  tests the variable and variety 2 only sets it.
\<close>

lemma nop_options_and_count:
  assumes "n < 4" "r = [] \<or> \<not> is_digit (hd r)"
  shows "comm_nop_parse_options (dec_nat n @ r) = Inr (int n)
    \<and> comm_ping_nop k (int n) cnt = Inr (Some (cnt + of_nat k, 1))
    \<and> nop_variety_string ! 1 = ''only set variable''
    \<and> nop_iteration 1 (cnt, v) = Inr (if v = 1 then Some (cnt + 1, v) else None)
    \<and> nop_variety_string ! 2 = ''only test variable''
    \<and> nop_iteration 2 (cnt, v) = Inr (Some (cnt + 1, 1))"
  using parse_nop [of n r] nop_iterations_count [of "int n" k cnt] assms
  by (auto simp: comm_ping_nop_def nop_variety_string_def nop_iteration_def)

end
