(* ===== verification/Kernel.thy ===== *)
theory Kernel
  imports Pingpong
begin

text \<open>
  The kernel objects the transports use, as POSIX documents them: byte streams behind file
  descriptors (pipes, connected sockets), eventfd counters, semaphores and message queues. Each
  call takes an outcome of the environment: \<open>Done\<close> lets it proceed if the object permits,
  \<open>Interrupted\<close> makes it return its error (a signal, or a full or empty non-blocking object). A
  blocking call that would block is an attempt that fails and leaves everything as it was.
\<close>

datatype outcome = Done | Interrupted

section \<open>Descriptors, byte streams and event counters\<close>

text \<open>
  An open descriptor reads from one stream and writes to another (either end may be missing), or
  stands for an event counter.
\<close>

datatype kfile = Stream "nat option" "nat option" | Event nat

record kernel =
  k_fds :: "nat \<Rightarrow> kfile option"
  k_next_fd :: nat
  k_queue :: "nat \<Rightarrow> char list"
  k_next_queue :: nat
  k_event :: "nat \<Rightarrow> nat"
  k_cap :: nat

definition lookup_fd :: "kernel \<Rightarrow> int \<Rightarrow> kfile option" where
  "lookup_fd k fd = (if fd < 0 then None else k_fds k (nat fd))"

definition sys_write :: "outcome \<Rightarrow> int \<Rightarrow> char list \<Rightarrow> kernel \<Rightarrow> int \<times> kernel" where
  "sys_write oc fd bs k =
     (case lookup_fd k fd of
        Some (Stream r (Some w)) \<Rightarrow>
          if oc = Done \<and> length (k_queue k w) + length bs \<le> k_cap k
          then (int (length bs), k\<lparr>k_queue := (k_queue k)(w := k_queue k w @ bs)\<rparr>)
          else (-1, k)
      | _ \<Rightarrow> (-1, k))"

text \<open>A read of one byte: the return value, the byte stored in the buffer, if any.\<close>

definition sys_read1 :: "outcome \<Rightarrow> int \<Rightarrow> kernel \<Rightarrow> int \<times> char option \<times> kernel" where
  "sys_read1 oc fd k =
     (case lookup_fd k fd of
        Some (Stream (Some r) w) \<Rightarrow>
          (case k_queue k r of
             b # bs \<Rightarrow>
               if oc = Done then (1, Some b, k\<lparr>k_queue := (k_queue k)(r := bs)\<rparr>)
               else (-1, None, k)
           | [] \<Rightarrow> (-1, None, k))
      | _ \<Rightarrow> (-1, None, k))"

text \<open>\<open>eventfd_write(fd, 1)\<close> and \<open>eventfd_read\<close>: the counter blocks at \<open>2 ^ 64 - 1\<close> and at zero.\<close>

definition eventfd_write1 :: "outcome \<Rightarrow> int \<Rightarrow> kernel \<Rightarrow> int \<times> kernel" where
  "eventfd_write1 oc fd k =
     (case lookup_fd k fd of
        Some (Event e) \<Rightarrow>
          if oc = Done \<and> k_event k e + 1 < 2 ^ 64 - 1
          then (0, k\<lparr>k_event := (k_event k)(e := k_event k e + 1)\<rparr>) else (-1, k)
      | _ \<Rightarrow> (-1, k))"

definition eventfd_read :: "outcome \<Rightarrow> int \<Rightarrow> kernel \<Rightarrow> int \<times> nat option \<times> kernel" where
  "eventfd_read oc fd k =
     (case lookup_fd k fd of
        Some (Event e) \<Rightarrow>
          if oc = Done \<and> k_event k e \<noteq> 0
          then (0, Some (k_event k e), k\<lparr>k_event := (k_event k)(e := 0)\<rparr>) else (-1, None, k)
      | _ \<Rightarrow> (-1, None, k))"

text \<open>The calls that create descriptors, where they succeed; new streams and counters are empty.\<close>

definition open_fd :: "kfile \<Rightarrow> kernel \<Rightarrow> int \<times> kernel" where
  "open_fd f k =
     (int (k_next_fd k), k\<lparr>k_fds := (k_fds k)(k_next_fd k := Some f), k_next_fd := Suc (k_next_fd k)\<rparr>)"

definition new_queue :: "kernel \<Rightarrow> nat \<times> kernel" where
  "new_queue k =
     (k_next_queue k, k\<lparr>k_queue := (k_queue k)(k_next_queue k := []),
                         k_event := (k_event k)(k_next_queue k := 0),
                         k_next_queue := Suc (k_next_queue k)\<rparr>)"

definition sys_pipe :: "kernel \<Rightarrow> (int \<times> int) \<times> kernel" where
  "sys_pipe k =
     (let (q, k1) = new_queue k; (r, k2) = open_fd (Stream (Some q) None) k1;
          (w, k3) = open_fd (Stream None (Some q)) k2 in ((r, w), k3))"

definition sys_socketpair :: "kernel \<Rightarrow> (int \<times> int) \<times> kernel" where
  "sys_socketpair k =
     (let (q1, k1) = new_queue k; (q2, k2) = new_queue k1;
          (a, k3) = open_fd (Stream (Some q1) (Some q2)) k2;
          (b, k4) = open_fd (Stream (Some q2) (Some q1)) k3 in ((a, b), k4))"

definition sys_open_fifo :: "kernel \<Rightarrow> int \<times> kernel" where
  "sys_open_fifo k = (let (q, k1) = new_queue k in open_fd (Stream (Some q) (Some q)) k1)"

definition sys_eventfd :: "kernel \<Rightarrow> int \<times> kernel" where
  "sys_eventfd k = (let (e, k1) = new_queue k in open_fd (Event e) k1)"

definition sys_dup :: "int \<Rightarrow> kernel \<Rightarrow> int \<times> kernel" where
  "sys_dup fd k = (case lookup_fd k fd of None \<Rightarrow> (-1, k) | Some f \<Rightarrow> open_fd f k)"

definition empty_kernel :: "nat \<Rightarrow> kernel" where
  "empty_kernel cap = \<lparr>k_fds = (\<lambda>_. None), k_next_fd = 3, k_queue = (\<lambda>_. []), k_next_queue = 0,
     k_event = (\<lambda>_. 0), k_cap = cap\<rparr>"

lemmas kernel_defs = sys_write_def sys_read1_def eventfd_write1_def eventfd_read_def lookup_fd_def

lemmas open_defs = open_fd_def new_queue_def sys_pipe_def sys_socketpair_def sys_open_fifo_def
  sys_eventfd_def sys_dup_def empty_kernel_def lookup_fd_def

section \<open>Semaphores and message queues\<close>

text \<open>Semaphore values by index, and the three calls with their return values.\<close>

definition sem_wait :: "outcome \<Rightarrow> nat \<Rightarrow> (nat \<Rightarrow> nat) \<Rightarrow> int \<times> (nat \<Rightarrow> nat)" where
  "sem_wait oc i v = (if oc = Done \<and> v i \<noteq> 0 then (0, v(i := v i - 1)) else (-1, v))"

definition sem_trywait :: "outcome \<Rightarrow> nat \<Rightarrow> (nat \<Rightarrow> nat) \<Rightarrow> int \<times> (nat \<Rightarrow> nat)" where
  "sem_trywait oc i v = (if oc = Done \<and> v i \<noteq> 0 then (0, v(i := v i - 1)) else (-1, v))"

definition SEM_VALUE_MAX :: nat where "SEM_VALUE_MAX = 2147483647"

definition sem_post :: "outcome \<Rightarrow> nat \<Rightarrow> (nat \<Rightarrow> nat) \<Rightarrow> int \<times> (nat \<Rightarrow> nat)" where
  "sem_post oc i v =
     (if oc = Done \<and> v i < SEM_VALUE_MAX then (0, v(i := v i + 1)) else (-1, v))"

text \<open>
  Message queues opened with \<^verbatim>\<open>mq_maxmsg\<close> 1: each holds one message at most, with its priority.
\<close>

definition mq_send :: "outcome \<Rightarrow> nat \<Rightarrow> char \<Rightarrow> 32 word \<Rightarrow> (nat \<Rightarrow> (char \<times> 32 word) option)
    \<Rightarrow> int \<times> (nat \<Rightarrow> (char \<times> 32 word) option)" where
  "mq_send oc i m prio q = (if oc = Done \<and> q i = None then (0, q(i := Some (m, prio))) else (-1, q))"

definition mq_receive :: "outcome \<Rightarrow> nat \<Rightarrow> (nat \<Rightarrow> (char \<times> 32 word) option)
    \<Rightarrow> int \<times> (char \<times> 32 word) option \<times> (nat \<Rightarrow> (char \<times> 32 word) option)" where
  "mq_receive oc i q =
     (if oc = Done \<and> q i \<noteq> None then (1, q i, q(i := None)) else (-1, None, q))"

section \<open>Transports made of system calls\<close>

text \<open>
  In a transport whose operations are system calls the call of the thread that has the turn
  completes exactly when it is not interrupted, and an interrupted call changes nothing. That is
  the whole contract: the laws of the live handshake follow from it.
\<close>

locale call_handshake =
  fixes ops :: "(outcome, 'c) pp_ops"
    and ord :: pp_order
    and rep :: "stage \<Rightarrow> 'c \<Rightarrow> bool"
  assumes attempt: "rep t c \<Longrightarrow> ops t oc c = (ok, c') \<Longrightarrow>
      if oc = Done then ok \<and> rep (nxt ord t) c' else \<not> ok \<and> c' = c"
    and parked_fails: "rep t c \<Longrightarrow> ops (parked ord t) oc c = (ok, c') \<Longrightarrow> \<not> ok \<and> rep t c'"

sublocale call_handshake \<subseteq> live_handshake
proof
  fix t oc c c' assume "rep t c" "ops t oc c = (True, c')"
  from attempt [OF this] show "rep (nxt ord t) c'" by (simp split: if_splits)
next
  fix t oc c c' assume r: "rep t c" and "ops t oc c = (False, c')"
  from attempt [OF this] r show "rep t c'" by (simp split: if_splits)
next
  fix t oc c ok c' assume "rep t c" "ops (parked ord t) oc c = (ok, c')"
  then show "\<not> ok \<and> rep t c'" by (rule parked_fails)
next
  fix t c assume r: "rep t c"
  obtain ok c' where o: "ops t Done c = (ok, c')" by fastforce
  from attempt [OF r o] o show "\<exists>oc. fst (ops t oc c)" by (intro exI [of _ Done]) simp
qed

end
