(* ===== verification/Fd_Modes.thy ===== *)
theory Fd_Modes
  imports Kernel
begin

text \<open>
  The transports over file descriptors: \<^verbatim>\<open>comm_do_send_generic\<close> and \<^verbatim>\<open>comm_do_recv_generic\<close> of
  \<^verbatim>\<open>comms.c\<close> with the wiring of \<^verbatim>\<open>make_pairs\<close> (\<^verbatim>\<open>setup.c\<close>), used by \<^verbatim>\<open>comms/socket_pair.c\<close> and
  \<^verbatim>\<open>comms/udp.c\<close>, and the modes with loops of their own: \<^verbatim>\<open>comms/pipe.c\<close>, \<^verbatim>\<open>comms/tcp.c\<close>,
  \<^verbatim>\<open>comms/namedpipe.c\<close>, \<^verbatim>\<open>comms/eventfd.c\<close>. The channel of a mode is the kernel together with the
  one-byte buffers \<^verbatim>\<open>dummy\<close> of the two threads.
\<close>

section \<open>The pairs and the wiring\<close>

text \<open>\<^verbatim>\<open>config.mouth\<close> and \<^verbatim>\<open>config.ear\<close>, by thread number.\<close>

record wiring =
  mouth :: "tid \<Rightarrow> int"
  ear :: "tid \<Rightarrow> int"

definition wire_pairs :: "int \<times> int \<Rightarrow> int \<times> int \<Rightarrow> wiring" where
  "wire_pairs pair1 pair2 =
     \<lparr>mouth = (\<lambda>t. case t of Ping \<Rightarrow> snd pair1 | Pong \<Rightarrow> snd pair2),
      ear = (\<lambda>t. case t of Ping \<Rightarrow> fst pair2 | Pong \<Rightarrow> fst pair1)\<rparr>"

definition make_pairs :: "('w \<Rightarrow> ((int \<times> int) \<times> 'w) res) \<Rightarrow> 'w \<Rightarrow> (wiring \<times> 'w) res" where
  "make_pairs comm_make_pair w =
     bind_res (comm_make_pair w) (\<lambda>(pair1, w1).
       bind_res (comm_make_pair w1) (\<lambda>(pair2, w2). Inr (wire_pairs pair1 pair2, w2)))"

text \<open>
  The pair functions that are, or hold, a single library call: \<^verbatim>\<open>pipe\<close> itself in the pipe mode, a
  socket pair, an event counter and its duplicate. What the call returns is ignored.
\<close>

definition make_pipe_pair :: "kernel \<Rightarrow> ((int \<times> int) \<times> kernel) res" where
  "make_pipe_pair k = Inr (sys_pipe k)"

definition make_socket_pair :: "kernel \<Rightarrow> ((int \<times> int) \<times> kernel) res" where
  "make_socket_pair k = Inr (sys_socketpair k)"

definition make_eventfd_pair :: "kernel \<Rightarrow> ((int \<times> int) \<times> kernel) res" where
  "make_eventfd_pair k =
     (let (fd0, k1) = sys_eventfd k; (fd1, k2) = sys_dup fd0 k1 in Inr ((fd0, fd1), k2))"

text \<open>
  TCP: the first call makes the connection; each of its library calls ends the program if it
  fails. \<open>tcp_env\<close> says which of them fail. The listening socket, the connecting socket
  (\<^verbatim>\<open>tcp_fds[1]\<close>) and the accepted one (\<^verbatim>\<open>tcp_fds[0]\<close>) are created in this order; each call of the
  function hands the two ends out, swapped the second time.
\<close>

record tcp_env =
  fails_getaddrinfo :: bool
  fails_listen_socket :: bool
  fails_reuseaddr :: bool
  fails_bind :: bool
  fails_listen :: bool
  fails_socket :: bool
  fails_connect :: bool
  fails_accept :: bool
  fails_nodelay :: bool
  fails_quickack :: bool

record fds_state =
  fs_num :: nat
  fs_fds :: "int \<times> int"
  fs_kernel :: kernel

fun first_failure :: "(bool \<times> string) list \<Rightarrow> unit res" where
  "first_failure [] = Inr ()"
| "first_failure ((failed, msg) # cs) = (if failed then Inl (Exit_fail msg) else first_failure cs)"

definition tcp_calls :: "tcp_env \<Rightarrow> int \<Rightarrow> (bool \<times> string) list" where
  "tcp_calls env uid =
     [(fails_getaddrinfo env, ''error with getaddrinfo(): %s''),
      (fails_listen_socket env, ''Error creating socket: %s''),
      (fails_reuseaddr env, ''Error with setsockopt: %s''),
      (fails_bind env, ''Error with bind: %s''),
      (fails_listen env, ''Error with listen: %s''),
      (fails_socket env, ''Error creating socket: %s''),
      (fails_connect env, ''Error with connect: %s''),
      (fails_accept env, ''Error with accept: %s'')]
     @ (if uid = 0
        then [(fails_nodelay env, ''Error with setsockopt(TCP_NODELAY): %s''),
              (fails_quickack env, ''Error with setsockopt (TCP_QUICKACK): %s'')]
        else [])"

definition tcp_connect :: "fds_state \<Rightarrow> fds_state" where
  "tcp_connect s =
     (let (l, k1) = open_fd (Stream None None) (fs_kernel s); ((b, a), k2) = sys_socketpair k1
      in s\<lparr>fs_fds := (a, b), fs_kernel := k2\<rparr>)"

definition make_tcp_pair :: "tcp_env \<Rightarrow> int \<Rightarrow> fds_state \<Rightarrow> ((int \<times> int) \<times> fds_state) res" where
  "make_tcp_pair env uid s =
     bind_res (if fs_num s = 0 then first_failure (tcp_calls env uid) else Inr ()) (\<lambda>_.
       let s1 = (if fs_num s = 0 then tcp_connect s else s);
           tcp_fds = (\<lambda>i. if i = 0 then fst (fs_fds s1) else snd (fs_fds s1));
           i = fs_num s
       in Inr ((tcp_fds i, tcp_fds (if i = 0 then 1 else 0)), s1\<lparr>fs_num := fs_num s + 1\<rparr>))"

text \<open>
  Named pipes: the first call makes both fifos (failing ends the program) and opens them for
  reading and writing (a failure is only reported), and the pair is always \<open>(0, 0)\<close>.
\<close>

definition comm_makepair_namedpipe ::
    "bool \<times> bool \<Rightarrow> bool \<times> bool \<Rightarrow> fds_state \<Rightarrow> ((int \<times> int) \<times> fds_state) res" where
  "comm_makepair_namedpipe fails_mkfifo fails_open s =
     bind_res (if fs_num s = 0
               then first_failure [(fst fails_mkfifo, ''Unable to create a fifo: %s''),
                                   (snd fails_mkfifo, ''Unable to create a fifo: %s'')]
               else Inr ()) (\<lambda>_.
       let s1 = (if fs_num s = 0
                 then (let (f0, k1) = (if fst fails_open then (-1, fs_kernel s) else sys_open_fifo (fs_kernel s));
                           (f1, k2) = (if snd fails_open then (-1, k1) else sys_open_fifo k1)
                       in s\<lparr>fs_fds := (f0, f1), fs_kernel := k2\<rparr>)
                 else s)
       in Inr ((0, 0), s1\<lparr>fs_num := fs_num s + 1\<rparr>))"

section \<open>The loops\<close>

record fdchan =
  kern :: kernel
  dummy :: "tid \<Rightarrow> char"

text \<open>One \<^verbatim>\<open>write\<close> of a byte and one \<^verbatim>\<open>read\<close> into a thread's buffer, as attempts of the loops.\<close>

definition try_write :: "outcome \<Rightarrow> int \<Rightarrow> char \<Rightarrow> fdchan \<Rightarrow> bool \<times> fdchan" where
  "try_write oc fd b c =
     (let (r, k) = sys_write oc fd [b] (kern c) in (\<not> r \<noteq> 1, c\<lparr>kern := k\<rparr>))"

definition try_read :: "outcome \<Rightarrow> int \<Rightarrow> tid \<Rightarrow> fdchan \<Rightarrow> bool \<times> fdchan" where
  "try_read oc fd t c =
     (let (r, b, k) = sys_read1 oc fd (kern c)
      in (\<not> r \<noteq> 1, c\<lparr>kern := k, dummy := (case b of None \<Rightarrow> dummy c | Some x \<Rightarrow> (dummy c)(t := x))\<rparr>))"

text \<open>The generic operations: a literal byte out, a byte into a local that is dropped.\<close>

definition comm_do_send_generic :: "outcome \<Rightarrow> int \<Rightarrow> kernel \<Rightarrow> int \<times> kernel" where
  "comm_do_send_generic oc fd k = sys_write oc fd [CHR ''X''] k"

definition comm_do_recv_generic :: "outcome \<Rightarrow> int \<Rightarrow> kernel \<Rightarrow> int \<times> kernel" where
  "comm_do_recv_generic oc fd k = (let (r, b, k') = sys_read1 oc fd k in (r, k'))"

text \<open>
  \<^verbatim>\<open>comm_ping_generic\<close> and \<^verbatim>\<open>comm_pong_generic\<close>: the loops call the configured operations on the
  thread's mouth and ear until they return 1.
\<close>

definition generic_ops ::
    "('o \<Rightarrow> int \<Rightarrow> 'c \<Rightarrow> int \<times> 'c) \<Rightarrow> ('o \<Rightarrow> int \<Rightarrow> 'c \<Rightarrow> int \<times> 'c) \<Rightarrow> wiring \<Rightarrow> ('o, 'c) pp_ops" where
  "generic_ops do_send do_recv w st oc c =
     (case st of
        A1 \<Rightarrow> (case do_send oc (mouth w Ping) c of (r, c') \<Rightarrow> (\<not> r \<noteq> 1, c'))
      | A2 \<Rightarrow> (case do_recv oc (ear w Ping) c of (r, c') \<Rightarrow> (\<not> r \<noteq> 1, c'))
      | B1 \<Rightarrow> (case do_recv oc (ear w Pong) c of (r, c') \<Rightarrow> (\<not> r \<noteq> 1, c'))
      | B2 \<Rightarrow> (case do_send oc (mouth w Pong) c of (r, c') \<Rightarrow> (\<not> r \<noteq> 1, c')))"

definition pipe_ops :: "wiring \<Rightarrow> (outcome, fdchan) pp_ops" where
  "pipe_ops w st oc c =
     (case st of
        A1 \<Rightarrow> try_write oc (mouth w Ping) (dummy c Ping) c
      | A2 \<Rightarrow> try_read oc (ear w Ping) Ping c
      | B1 \<Rightarrow> try_read oc (ear w Pong) Pong c
      | B2 \<Rightarrow> try_write oc (mouth w Pong) (dummy c Pong) c)"

text \<open>TCP uses \<^verbatim>\<open>tcp_fds[0]\<close> in ping and \<^verbatim>\<open>tcp_fds[1]\<close> in pong.\<close>

definition tcp_ops :: "int \<times> int \<Rightarrow> (outcome, fdchan) pp_ops" where
  "tcp_ops tcp_fds st oc c =
     (case st of
        A1 \<Rightarrow> try_write oc (fst tcp_fds) (dummy c Ping) c
      | A2 \<Rightarrow> try_read oc (fst tcp_fds) Ping c
      | B1 \<Rightarrow> try_read oc (snd tcp_fds) Pong c
      | B2 \<Rightarrow> try_write oc (snd tcp_fds) (dummy c Pong) c)"

definition namedpipe_ops :: "int \<times> int \<Rightarrow> (outcome, fdchan) pp_ops" where
  "namedpipe_ops fds st oc c =
     (case st of
        A1 \<Rightarrow> try_write oc (fst fds) (dummy c Ping) c
      | A2 \<Rightarrow> try_read oc (snd fds) Ping c
      | B1 \<Rightarrow> try_read oc (fst fds) Pong c
      | B2 \<Rightarrow> try_write oc (snd fds) (CHR ''X'') c)"

definition eventfd_ops :: "wiring \<Rightarrow> (outcome, kernel) pp_ops" where
  "eventfd_ops w st oc k =
     (case st of
        A1 \<Rightarrow> (case eventfd_write1 oc (mouth w Ping) k of (r, k') \<Rightarrow> (\<not> r \<noteq> 0, k'))
      | A2 \<Rightarrow> (case eventfd_read oc (ear w Ping) k of (r, v, k') \<Rightarrow> (\<not> r \<noteq> 0, k'))
      | B1 \<Rightarrow> (case eventfd_read oc (ear w Pong) k of (r, v, k') \<Rightarrow> (\<not> r \<noteq> 0, k'))
      | B2 \<Rightarrow> (case eventfd_write1 oc (mouth w Pong) k of (r, k') \<Rightarrow> (\<not> r \<noteq> 0, k')))"

section \<open>The streams keep the turn\<close>

text \<open>
  Ping writes \<open>w0\<close>, which pong reads from \<open>r1\<close>; pong writes \<open>w1\<close>, which ping reads from
  \<open>r0\<close>. At most one byte is under way, and only on the stream of the thread that has the turn.
\<close>

definition stream_rep :: "int \<Rightarrow> int \<Rightarrow> int \<Rightarrow> int \<Rightarrow> stage \<Rightarrow> kernel \<Rightarrow> bool" where
  "stream_rep w0 r1 w1 r0 t k \<longleftrightarrow>
     (\<exists>q01 q10 a b c d. q01 \<noteq> q10 \<and> 1 \<le> k_cap k
        \<and> lookup_fd k w0 = Some (Stream a (Some q01)) \<and> lookup_fd k r1 = Some (Stream (Some q01) b)
        \<and> lookup_fd k w1 = Some (Stream c (Some q10)) \<and> lookup_fd k r0 = Some (Stream (Some q10) d)
        \<and> k_queue k q01 = (if t = B1 then [CHR ''X''] else [])
        \<and> k_queue k q10 = (if t = A2 then [CHR ''X''] else []))"

lemma stream_sends:
  "stream_rep w0 r1 w1 r0 A1 k \<Longrightarrow> sys_write oc w0 [CHR ''X''] k = (r, k') \<Longrightarrow>
     (if oc = Done then r = 1 \<and> stream_rep w0 r1 w1 r0 B1 k' else r = -1 \<and> k' = k)"
  "stream_rep w0 r1 w1 r0 B2 k \<Longrightarrow> sys_write oc w1 [CHR ''X''] k = (r, k') \<Longrightarrow>
     (if oc = Done then r = 1 \<and> stream_rep w0 r1 w1 r0 A2 k' else r = -1 \<and> k' = k)"
  unfolding stream_rep_def sys_write_def
  by (auto simp: lookup_fd_def split: if_splits)

lemma stream_receives:
  "stream_rep w0 r1 w1 r0 B1 k \<Longrightarrow> sys_read1 oc r1 k = (r, b, k') \<Longrightarrow>
     (if oc = Done then r = 1 \<and> b = Some (CHR ''X'') \<and> stream_rep w0 r1 w1 r0 B2 k'
      else r = -1 \<and> b = None \<and> k' = k)"
  "stream_rep w0 r1 w1 r0 A2 k \<Longrightarrow> sys_read1 oc r0 k = (r, b, k') \<Longrightarrow>
     (if oc = Done then r = 1 \<and> b = Some (CHR ''X'') \<and> stream_rep w0 r1 w1 r0 A1 k'
      else r = -1 \<and> b = None \<and> k' = k)"
  unfolding stream_rep_def sys_read1_def
  by (auto simp: lookup_fd_def split: if_splits)

lemma stream_blocked:
  "stream_rep w0 r1 w1 r0 t k \<Longrightarrow> t \<noteq> B1 \<Longrightarrow> sys_read1 oc r1 k = (-1, None, k)"
  "stream_rep w0 r1 w1 r0 t k \<Longrightarrow> t \<noteq> A2 \<Longrightarrow> sys_read1 oc r0 k = (-1, None, k)"
  unfolding stream_rep_def sys_read1_def by auto

text \<open>
  The same for the attempts with buffers: those of the threads \<open>T\<close> only ever hold the byte sent.
\<close>

definition fd_rep :: "tid set \<Rightarrow> int \<Rightarrow> int \<Rightarrow> int \<Rightarrow> int \<Rightarrow> stage \<Rightarrow> fdchan \<Rightarrow> bool" where
  "fd_rep T w0 r1 w1 r0 t c \<longleftrightarrow> stream_rep w0 r1 w1 r0 t (kern c) \<and> (\<forall>th\<in>T. dummy c th = CHR ''X'')"

lemma fd_dummy: "fd_rep T w0 r1 w1 r0 t c \<Longrightarrow> th \<in> T \<Longrightarrow> dummy c th = CHR ''X''"
  by (simp add: fd_rep_def)

lemma fd_sends:
  "fd_rep T w0 r1 w1 r0 A1 c \<Longrightarrow> try_write oc w0 (CHR ''X'') c = (ok, c') \<Longrightarrow>
     (if oc = Done then ok \<and> fd_rep T w0 r1 w1 r0 B1 c' else \<not> ok \<and> c' = c)"
  "fd_rep T w0 r1 w1 r0 B2 c \<Longrightarrow> try_write oc w1 (CHR ''X'') c = (ok, c') \<Longrightarrow>
     (if oc = Done then ok \<and> fd_rep T w0 r1 w1 r0 A2 c' else \<not> ok \<and> c' = c)"
  using stream_sends(1) [of w0 r1 w1 r0 "kern c" oc] stream_sends(2) [of w0 r1 w1 r0 "kern c" oc]
  by (auto simp: fd_rep_def try_write_def Let_def split: prod.splits if_splits)

lemma fd_receives:
  "fd_rep T w0 r1 w1 r0 B1 c \<Longrightarrow> try_read oc r1 th c = (ok, c') \<Longrightarrow>
     (if oc = Done then ok \<and> fd_rep T w0 r1 w1 r0 B2 c' else \<not> ok \<and> c' = c)"
  "fd_rep T w0 r1 w1 r0 A2 c \<Longrightarrow> try_read oc r0 th c = (ok, c') \<Longrightarrow>
     (if oc = Done then ok \<and> fd_rep T w0 r1 w1 r0 A1 c' else \<not> ok \<and> c' = c)"
  using stream_receives(1) [of w0 r1 w1 r0 "kern c" oc] stream_receives(2) [of w0 r1 w1 r0 "kern c" oc]
  by (auto simp: fd_rep_def try_read_def Let_def split: prod.splits if_splits)

lemma fd_blocked:
  "fd_rep T w0 r1 w1 r0 t c \<Longrightarrow> t \<noteq> B1 \<Longrightarrow> try_read oc r1 th c = (False, c)"
  "fd_rep T w0 r1 w1 r0 t c \<Longrightarrow> t \<noteq> A2 \<Longrightarrow> try_read oc r0 th c = (False, c)"
  by (auto simp: fd_rep_def try_read_def stream_blocked)

text \<open>A mode is a live handshake as soon as its loops write and read the wired descriptors.\<close>

lemma fd_call_handshake:
  assumes a1: "\<And>oc c. fd_rep T w0 r1 w1 r0 A1 c \<Longrightarrow> ops A1 oc c = try_write oc w0 (CHR ''X'') c"
    and b2: "\<And>oc c. fd_rep T w0 r1 w1 r0 B2 c \<Longrightarrow> ops B2 oc c = try_write oc w1 (CHR ''X'') c"
    and a2: "\<And>oc c. ops A2 oc c = try_read oc r0 Ping c"
    and b1: "\<And>oc c. ops B1 oc c = try_read oc r1 Pong c"
  shows "call_handshake ops Send_first (fd_rep T w0 r1 w1 r0)"
proof
  fix t oc c ok c'
  assume r: "fd_rep T w0 r1 w1 r0 t c" and o: "ops t oc c = (ok, c')"
  show "if oc = Done then ok \<and> fd_rep T w0 r1 w1 r0 (nxt Send_first t) c' else \<not> ok \<and> c' = c"
  proof (cases t)
    case A1
    show ?thesis using fd_sends(1) [of T w0 r1 w1 r0 c oc ok c'] r o A1 by (simp add: a1)
  next
    case A2
    show ?thesis using fd_receives(2) [of T w0 r1 w1 r0 c oc Ping ok c'] r o A2 by (simp add: a2)
  next
    case B1
    show ?thesis using fd_receives(1) [of T w0 r1 w1 r0 c oc Pong ok c'] r o B1 by (simp add: b1)
  next
    case B2
    show ?thesis using fd_sends(2) [of T w0 r1 w1 r0 c oc ok c'] r o B2 by (simp add: b2)
  qed
next
  fix t oc c ok c'
  assume r: "fd_rep T w0 r1 w1 r0 t c" and o: "ops (parked Send_first t) oc c = (ok, c')"
  show "\<not> ok \<and> fd_rep T w0 r1 w1 r0 t c'"
    using r o fd_blocked [OF r] by (cases t) (auto simp: a2 b1)
qed

interpretation pipe: call_handshake "pipe_ops w" Send_first
  "fd_rep UNIV (mouth w Ping) (ear w Pong) (mouth w Pong) (ear w Ping)" for w
  by (rule fd_call_handshake) (simp_all add: pipe_ops_def fd_dummy)

interpretation tcp: call_handshake "tcp_ops fds" Send_first
  "fd_rep UNIV (fst fds) (snd fds) (snd fds) (fst fds)" for fds
  by (rule fd_call_handshake) (simp_all add: tcp_ops_def fd_dummy)

interpretation namedpipe: call_handshake "namedpipe_ops fds" Send_first
  "fd_rep {Ping} (fst fds) (fst fds) (snd fds) (snd fds)" for fds
  by (rule fd_call_handshake) (simp_all add: namedpipe_ops_def fd_dummy)

text \<open>The generic loops with the generic operations, over the kernel alone.\<close>

definition generic_fd_ops :: "wiring \<Rightarrow> (outcome, kernel) pp_ops" where
  "generic_fd_ops = generic_ops comm_do_send_generic comm_do_recv_generic"

lemma generic_fd_ops_simps [pp_ops]:
  "generic_fd_ops w A1 oc k = (let (r, k') = sys_write oc (mouth w Ping) [CHR ''X''] k in (r = 1, k'))"
  "generic_fd_ops w A2 oc k = (let (r, b, k') = sys_read1 oc (ear w Ping) k in (r = 1, k'))"
  "generic_fd_ops w B1 oc k = (let (r, b, k') = sys_read1 oc (ear w Pong) k in (r = 1, k'))"
  "generic_fd_ops w B2 oc k = (let (r, k') = sys_write oc (mouth w Pong) [CHR ''X''] k in (r = 1, k'))"
  by (simp_all add: generic_fd_ops_def generic_ops_def comm_do_send_generic_def
      comm_do_recv_generic_def Let_def split: prod.splits)

definition generic_rep :: "wiring \<Rightarrow> stage \<Rightarrow> kernel \<Rightarrow> bool" where
  "generic_rep w = stream_rep (mouth w Ping) (ear w Pong) (mouth w Pong) (ear w Ping)"

interpretation generic: call_handshake "generic_fd_ops w" Send_first "generic_rep w" for w
proof
  fix t oc k ok k'
  assume r: "generic_rep w t k" and o: "generic_fd_ops w t oc k = (ok, k')"
  note s = stream_sends [of "mouth w Ping" "ear w Pong" "mouth w Pong" "ear w Ping" k oc]
  note v = stream_receives [of "mouth w Ping" "ear w Pong" "mouth w Pong" "ear w Ping" k oc]
  show "if oc = Done then ok \<and> generic_rep w (nxt Send_first t) k' else \<not> ok \<and> k' = k"
  proof (cases t)
    case A1
    then show ?thesis using s(1) r o by (auto simp: generic_rep_def pp_ops split: prod.splits if_splits)
  next
    case A2
    then show ?thesis using v(2) r o by (auto simp: generic_rep_def pp_ops split: prod.splits if_splits)
  next
    case B1
    then show ?thesis using v(1) r o by (auto simp: generic_rep_def pp_ops split: prod.splits if_splits)
  next
    case B2
    then show ?thesis using s(2) r o by (auto simp: generic_rep_def pp_ops split: prod.splits if_splits)
  qed
next
  fix t oc k ok k'
  assume r: "generic_rep w t k" and o: "generic_fd_ops w (parked Send_first t) oc k = (ok, k')"
  show "\<not> ok \<and> generic_rep w t k'"
    using o r stream_blocked [OF r [unfolded generic_rep_def]] by (cases t) (auto simp: pp_ops)
qed

section \<open>Event counters\<close>

definition event_rep :: "wiring \<Rightarrow> stage \<Rightarrow> kernel \<Rightarrow> bool" where
  "event_rep w t k \<longleftrightarrow>
     (\<exists>e0 e1. e0 \<noteq> e1
        \<and> lookup_fd k (mouth w Ping) = Some (Event e0) \<and> lookup_fd k (ear w Pong) = Some (Event e0)
        \<and> lookup_fd k (mouth w Pong) = Some (Event e1) \<and> lookup_fd k (ear w Ping) = Some (Event e1)
        \<and> k_event k e0 = (if t = B1 then 1 else 0) \<and> k_event k e1 = (if t = A2 then 1 else 0))"

lemma event_attempt:
  assumes "event_rep w t k" "eventfd_ops w t oc k = (ok, k')"
  shows "if oc = Done then ok \<and> event_rep w (nxt Send_first t) k' else \<not> ok \<and> k' = k"
  using assms unfolding event_rep_def
  by (cases t) (auto simp: eventfd_ops_def eventfd_write1_def eventfd_read_def lookup_fd_def
      split: if_splits)

interpretation eventfd: call_handshake "eventfd_ops w" Send_first "event_rep w" for w
proof
  fix t oc k ok k'
  assume "event_rep w t k" "eventfd_ops w t oc k = (ok, k')"
  then show "if oc = Done then ok \<and> event_rep w (nxt Send_first t) k' else \<not> ok \<and> k' = k"
    by (rule event_attempt)
next
  fix t oc k ok k'
  assume "event_rep w t k" "eventfd_ops w (parked Send_first t) oc k = (ok, k')"
  then show "\<not> ok \<and> event_rep w t k'"
    unfolding event_rep_def by (cases t) (auto simp: eventfd_ops_def eventfd_read_def)
qed

section \<open>What the setup wires\<close>

lemma pipe_wired:
  assumes "make_pairs make_pipe_pair k = Inr (w, k')" "1 \<le> k_cap k"
  shows "stream_rep (mouth w Ping) (ear w Pong) (mouth w Pong) (ear w Ping) A1 k'"
  using assms unfolding make_pairs_def wire_pairs_def stream_rep_def make_pipe_pair_def
  by (auto simp: open_defs Let_def)

lemma socketpair_wired:
  assumes "make_pairs make_socket_pair k = Inr (w, k')" "1 \<le> k_cap k"
  shows "generic_rep w A1 k'"
  using assms unfolding make_pairs_def wire_pairs_def stream_rep_def generic_rep_def make_socket_pair_def
  by (auto simp: open_defs Let_def)

lemma eventfd_wired:
  assumes "make_pairs make_eventfd_pair k = Inr (w, k')"
  shows "event_rep w A1 k'"
  using assms unfolding make_pairs_def wire_pairs_def event_rep_def make_eventfd_pair_def
  by (auto simp: open_defs Let_def)

lemma tcp_wired:
  assumes "make_tcp_pair env uid s = Inr (p, s1)" "fs_num s = 0" "1 \<le> k_cap (fs_kernel s)"
  shows "stream_rep (fst (fs_fds s1)) (snd (fs_fds s1)) (snd (fs_fds s1)) (fst (fs_fds s1)) A1 (fs_kernel s1)"
  using assms unfolding make_tcp_pair_def stream_rep_def tcp_connect_def
  by (auto simp: open_defs Let_def bind_res_Inr_iff split: if_splits)

lemma namedpipe_wired:
  assumes "comm_makepair_namedpipe fm (False, False) s = Inr (p, s1)" "fs_num s = 0"
    "1 \<le> k_cap (fs_kernel s)"
  shows "stream_rep (fst (fs_fds s1)) (fst (fs_fds s1)) (snd (fs_fds s1)) (snd (fs_fds s1)) A1 (fs_kernel s1)"
  using assms unfolding comm_makepair_namedpipe_def stream_rep_def
  by (auto simp: open_defs Let_def bind_res_Inr_iff split: if_splits)

text \<open>Another call for a pair leaves the descriptors alone.\<close>

lemma tcp_second:
  assumes "make_tcp_pair env uid s = Inr (p, s1)" "fs_num s \<noteq> 0"
  shows "fs_fds s1 = fs_fds s \<and> fs_kernel s1 = fs_kernel s \<and> fs_num s1 = Suc (fs_num s)"
  using assms by (auto simp: make_tcp_pair_def Let_def)

lemma first_failure_find:
  "first_failure cs = (case find fst cs of None \<Rightarrow> Inr () | Some (_, msg) \<Rightarrow> Inl (Exit_fail msg))"
  by (induction cs rule: first_failure.induct) auto

lemma tcp_pairs:
  assumes "fs_num s = 0"
  shows "make_pairs (make_tcp_pair env uid) s =
     (case find fst (tcp_calls env uid) of
        Some (_, msg) \<Rightarrow> Inl (Exit_fail msg)
      | None \<Rightarrow> (let s1 = tcp_connect s; (a, b) = fs_fds s1
                 in Inr (wire_pairs (a, b) (b, a), s1\<lparr>fs_num := 2\<rparr>)))"
proof -
  have n: "fs_num (tcp_connect s) = 0" using assms by (simp add: tcp_connect_def Let_def split: prod.splits)
  show ?thesis
    using n assms by (auto simp: make_pairs_def make_tcp_pair_def first_failure_find Let_def
        bind_res_def split: option.splits prod.splits)
qed

text \<open>The modes over kernel objects that their pair functions make.\<close>

lemma pipe_runs:
  assumes "make_pairs make_pipe_pair k = Inr (w, k')" "1 \<le> k_cap k"
  shows "alternates Send_first (pipe_ops w) \<lparr>kern = k', dummy = (\<lambda>_. CHR ''X'')\<rparr>
       \<and> progresses Send_first (pipe_ops w) \<lparr>kern = k', dummy = (\<lambda>_. CHR ''X'')\<rparr>"
proof -
  have "fd_rep UNIV (mouth w Ping) (ear w Pong) (mouth w Pong) (ear w Ping) A1
      \<lparr>kern = k', dummy = (\<lambda>_. CHR ''X'')\<rparr>"
    using pipe_wired [OF assms] by (simp add: fd_rep_def)
  then show ?thesis by (simp add: pipe.alternates_from pipe.progresses_from)
qed

lemma socketpair_runs:
  assumes "make_pairs make_socket_pair k = Inr (w, k')" "1 \<le> k_cap k"
  shows "alternates Send_first (generic_ops comm_do_send_generic comm_do_recv_generic w) k'
       \<and> progresses Send_first (generic_ops comm_do_send_generic comm_do_recv_generic w) k'"
  using generic.alternates_from [OF socketpair_wired [OF assms]]
    generic.progresses_from [OF socketpair_wired [OF assms]]
  unfolding generic_fd_ops_def by simp

lemma eventfd_runs:
  assumes "make_pairs make_eventfd_pair k = Inr (w, k')"
  shows "alternates Send_first (eventfd_ops w) k' \<and> progresses Send_first (eventfd_ops w) k'"
  using eventfd.alternates_from [OF eventfd_wired [OF assms]]
    eventfd.progresses_from [OF eventfd_wired [OF assms]] by simp

text \<open>The modes as their setup leaves them.\<close>

lemma tcp_runs:
  assumes "fs_num s = 0" "1 \<le> k_cap (fs_kernel s)"
  shows "case make_pairs (make_tcp_pair env uid) s of
      Inl e \<Rightarrow> (\<exists>msg. find fst (tcp_calls env uid) = Some (True, msg) \<and> e = Exit_fail msg)
    | Inr (w, s1) \<Rightarrow> find fst (tcp_calls env uid) = None
        \<and> mouth w Ping = ear w Ping \<and> mouth w Pong = ear w Pong
        \<and> alternates Send_first (tcp_ops (fs_fds s1)) \<lparr>kern = fs_kernel s1, dummy = (\<lambda>_. CHR ''X'')\<rparr>
        \<and> progresses Send_first (tcp_ops (fs_fds s1)) \<lparr>kern = fs_kernel s1, dummy = (\<lambda>_. CHR ''X'')\<rparr>"
proof (cases "find fst (tcp_calls env uid)")
  case None
  obtain a b where ab: "fs_fds (tcp_connect s) = (a, b)" by fastforce
  have pr: "make_pairs (make_tcp_pair env uid) s = Inr (wire_pairs (a, b) (b, a), (tcp_connect s)\<lparr>fs_num := 2\<rparr>)"
    using tcp_pairs [OF assms(1), of env uid] None ab by (simp add: Let_def)
  have "make_tcp_pair env uid s = Inr ((a, b), (tcp_connect s)\<lparr>fs_num := 1\<rparr>)"
    using None assms(1) ab
    by (simp add: make_tcp_pair_def first_failure_find Let_def tcp_connect_def split: prod.splits)
  from tcp_wired [OF this assms] ab
  have "fd_rep UNIV (fst (a, b)) (snd (a, b)) (snd (a, b)) (fst (a, b)) A1
      \<lparr>kern = fs_kernel (tcp_connect s), dummy = (\<lambda>_. CHR ''X'')\<rparr>"
    by (simp add: fd_rep_def)
  then show ?thesis
    using pr None ab tcp.alternates_from [of "(a, b)"] tcp.progresses_from [of "(a, b)"]
    by (simp add: wire_pairs_def)
next
  case (Some p)
  then have "fst p" by (auto simp: find_Some_iff)
  with Some show ?thesis using tcp_pairs [OF assms(1), of env uid] by (cases p) simp
qed

lemma namedpipe_runs:
  assumes "make_pairs (comm_makepair_namedpipe (False, False) (False, False)) s = Inr (w, s1)"
    and "fs_num s = 0" "1 \<le> k_cap (fs_kernel s)"
  shows "alternates Send_first (namedpipe_ops (fs_fds s1))
           \<lparr>kern = fs_kernel s1, dummy = (\<lambda>t. if t = Ping then CHR ''X'' else x)\<rparr>
       \<and> progresses Send_first (namedpipe_ops (fs_fds s1))
           \<lparr>kern = fs_kernel s1, dummy = (\<lambda>t. if t = Ping then CHR ''X'' else x)\<rparr>"
proof -
  obtain p s2 where s2: "comm_makepair_namedpipe (False, False) (False, False) s = Inr (p, s2)"
    using assms(1) by (auto simp: make_pairs_def bind_res_Inr_iff)
  have "fs_fds s1 = fs_fds s2 \<and> fs_kernel s1 = fs_kernel s2"
    using assms(1,2) s2
    by (auto simp: make_pairs_def comm_makepair_namedpipe_def bind_res_Inr_iff Let_def split: prod.splits)
  with namedpipe_wired [OF s2 assms(2,3)]
  have "fd_rep {Ping} (fst (fs_fds s1)) (fst (fs_fds s1)) (snd (fs_fds s1)) (snd (fs_fds s1)) A1
      \<lparr>kern = fs_kernel s1, dummy = (\<lambda>t. if t = Ping then CHR ''X'' else x)\<rparr>"
    by (simp add: fd_rep_def)
  then show ?thesis by (simp add: namedpipe.alternates_from namedpipe.progresses_from)
qed

section \<open>Properties\<close>

text \<open>
  C2: the pipe mode is correct as set up by \<^verbatim>\<open>make_pairs\<close>: with the descriptors it wires from two
  pipes, every schedule, with any interruptions of the system calls, completes the writes and
  reads in strict alternation, the counter is the number of rounds begun, and it never gets stuck.
\<close>

theorem pipe_mode_correct:
  assumes "make_pairs make_pipe_pair k = Inr (w, k')" "1 \<le> k_cap k"
  shows "alternates Send_first (pipe_ops w) \<lparr>kern = k', dummy = (\<lambda>_. CHR ''X'')\<rparr>
       \<and> progresses Send_first (pipe_ops w) \<lparr>kern = k', dummy = (\<lambda>_. CHR ''X'')\<rparr>"
  using assms by (rule pipe_runs)

lemma pipe_pairs_example:
  "make_pairs make_pipe_pair (empty_kernel 4096) = Inr (wire_pairs (3, 4) (5, 6),
     snd (sys_pipe (snd (sys_pipe (empty_kernel 4096)))))"
  by (simp add: make_pairs_def make_pipe_pair_def open_defs Let_def)

theorem pipe_mode_correct_witness:
  "alternates Send_first (pipe_ops (wire_pairs (3, 4) (5, 6)))
     \<lparr>kern = snd (sys_pipe (snd (sys_pipe (empty_kernel 4096)))), dummy = (\<lambda>_. CHR ''X'')\<rparr>"
  using pipe_mode_correct [OF pipe_pairs_example] by (simp add: empty_kernel_def)

text \<open>
  The generic loops and operations of \<^verbatim>\<open>comms.c\<close> are correct over socket pairs, the mode that
  defines nothing but its pair function: alternation, the counter and progress.
\<close>

lemma socketpair_mode_correct:
  assumes "make_pairs make_socket_pair k = Inr (w, k')" "1 \<le> k_cap k"
  shows "alternates Send_first (generic_ops comm_do_send_generic comm_do_recv_generic w) k'
       \<and> progresses Send_first (generic_ops comm_do_send_generic comm_do_recv_generic w) k'"
  using assms by (rule socketpair_runs)

lemma socket_pairs_example:
  "make_pairs make_socket_pair (empty_kernel 4096) = Inr (wire_pairs (3, 4) (5, 6),
     snd (sys_socketpair (snd (sys_socketpair (empty_kernel 4096)))))"
  by (simp add: make_pairs_def make_socket_pair_def open_defs Let_def)

text \<open>
  The event counter mode is correct on the counters its pair function makes, each shared by a
  mouth and an ear through a duplicated descriptor.
\<close>

lemma eventfd_mode_correct:
  assumes "make_pairs make_eventfd_pair k = Inr (w, k')"
  shows "alternates Send_first (eventfd_ops w) k' \<and> progresses Send_first (eventfd_ops w) k'"
  using assms by (rule eventfd_runs)

text \<open>
  C13: the TCP mode: if a library call of the connection fails, the program ends with the message
  of the first one that does (the two socket options counting for root only); otherwise one
  connection serves both directions, and the loops over its two ends are correct.
\<close>

theorem tcp_mode_correct:
  assumes "fs_num s = 0" "1 \<le> k_cap (fs_kernel s)"
  shows "case make_pairs (make_tcp_pair env uid) s of
      Inl e \<Rightarrow> (\<exists>msg. find fst (tcp_calls env uid) = Some (True, msg) \<and> e = Exit_fail msg)
    | Inr (w, s1) \<Rightarrow> find fst (tcp_calls env uid) = None
        \<and> mouth w Ping = ear w Ping \<and> mouth w Pong = ear w Pong
        \<and> alternates Send_first (tcp_ops (fs_fds s1)) \<lparr>kern = fs_kernel s1, dummy = (\<lambda>_. CHR ''X'')\<rparr>
        \<and> progresses Send_first (tcp_ops (fs_fds s1)) \<lparr>kern = fs_kernel s1, dummy = (\<lambda>_. CHR ''X'')\<rparr>"
  using assms by (rule tcp_runs)

theorem tcp_mode_correct_witness:
  "case make_pairs (make_tcp_pair \<lparr>fails_getaddrinfo = False, fails_listen_socket = False,
       fails_reuseaddr = False, fails_bind = True, fails_listen = True, fails_socket = False,
       fails_connect = False, fails_accept = False, fails_nodelay = False, fails_quickack = False\<rparr> 0)
       \<lparr>fs_num = 0, fs_fds = (0, 0), fs_kernel = empty_kernel 16\<rparr> of
     Inl e \<Rightarrow> e = Exit_fail ''Error with bind: %s'' | Inr _ \<Rightarrow> False"
proof -
  let ?env = "\<lparr>fails_getaddrinfo = False, fails_listen_socket = False,
       fails_reuseaddr = False, fails_bind = True, fails_listen = True, fails_socket = False,
       fails_connect = False, fails_accept = False, fails_nodelay = False, fails_quickack = False\<rparr>"
  have f: "find fst (tcp_calls ?env 0) = Some (True, ''Error with bind: %s'')"
    by (simp add: tcp_calls_def)
  show ?thesis
    using tcp_mode_correct [of "\<lparr>fs_num = 0, fs_fds = (0, 0), fs_kernel = empty_kernel 16\<rparr>" ?env 0]
    unfolding f by (auto simp: empty_kernel_def split: sum.splits)
qed

text \<open>
  The named pipe mode is correct once its fifos exist and open, whatever pong's uninitialised
  buffer holds: alternation, the counter and progress. A fifo that cannot be opened is reported
  and not refused.
\<close>

lemma namedpipe_mode_correct:
  assumes "make_pairs (comm_makepair_namedpipe (False, False) (False, False)) s = Inr (w, s1)"
    and "fs_num s = 0" "1 \<le> k_cap (fs_kernel s)"
  shows "alternates Send_first (namedpipe_ops (fs_fds s1))
           \<lparr>kern = fs_kernel s1, dummy = (\<lambda>t. if t = Ping then CHR ''X'' else x)\<rparr>
       \<and> progresses Send_first (namedpipe_ops (fs_fds s1))
           \<lparr>kern = fs_kernel s1, dummy = (\<lambda>t. if t = Ping then CHR ''X'' else x)\<rparr>"
  using assms by (rule namedpipe_runs)

end
