(* ===== verification/Udp_Mode.thy ===== *)
theory Udp_Mode
  imports Fd_Modes
begin

text \<open>
  \<^verbatim>\<open>comms/udp.c\<close>: datagram sockets on the loopback interface, with the generic loops of \<^verbatim>\<open>comms.c\<close>. The
  pair function binds its first socket (twice), connects the second to it and the first to the
  address the second was given; it ignores what the calls return. The sockets are modelled as the
  Linux manual pages udp(7), bind(2) and connect(2) document them: a socket that is bound cannot
  be bound again, connecting binds a socket that is not, and a connected socket takes datagrams
  from its peer only.
\<close>

section \<open>Datagram sockets\<close>

datatype host = Any_host | Loopback

type_synonym addr = "host \<times> nat"

text \<open>A socket has a local port once it is bound (0 before), a peer once connected, and a queue.\<close>

record usock =
  us_port :: nat
  us_peer :: "nat option"
  us_queue :: "char list list"

text \<open>The sockets by descriptor, the owner of each port, and the space of a receive queue.\<close>

record net =
  n_sock :: "nat \<Rightarrow> usock option"
  n_next_fd :: nat
  n_owner :: "nat \<Rightarrow> nat option"
  n_next_port :: nat
  n_rcvbuf :: nat

definition lookup_sock :: "net \<Rightarrow> int \<Rightarrow> usock option" where
  "lookup_sock n fd = (if fd < 0 then None else n_sock n (nat fd))"

definition set_sock :: "nat \<Rightarrow> usock \<Rightarrow> net \<Rightarrow> net" where
  "set_sock i s n = n\<lparr>n_sock := (n_sock n)(i := Some s)\<rparr>"

definition sys_socket :: "net \<Rightarrow> int \<times> net" where
  "sys_socket n =
     (int (n_next_fd n),
      (set_sock (n_next_fd n) \<lparr>us_port = 0, us_peer = None, us_queue = []\<rparr> n)\<lparr>n_next_fd := Suc (n_next_fd n)\<rparr>)"

text \<open>Giving a socket a port: the one asked for, or the next free one for port 0.\<close>

definition take_port :: "nat \<Rightarrow> usock \<Rightarrow> nat \<Rightarrow> net \<Rightarrow> net" where
  "take_port i s p n =
     (let q = (if p = 0 then n_next_port n else p)
      in (set_sock i (s\<lparr>us_port := q\<rparr>) n)\<lparr>n_owner := (n_owner n)(q := Some i),
            n_next_port := (if p = 0 then Suc (n_next_port n) else n_next_port n)\<rparr>)"

definition sys_bind :: "int \<Rightarrow> addr \<Rightarrow> net \<Rightarrow> int \<times> net" where
  "sys_bind fd a n =
     (case lookup_sock n fd of
        None \<Rightarrow> (-1, n)
      | Some s \<Rightarrow>
          if us_port s \<noteq> 0 then (-1, n)
          else if snd a \<noteq> 0 \<and> n_owner n (snd a) \<noteq> None then (-1, n)
          else (0, take_port (nat fd) s (snd a) n))"

text \<open>\<^verbatim>\<open>getsockname\<close>; the address of a bound socket that is not connected is the wildcard.\<close>

definition sys_getsockname :: "int \<Rightarrow> net \<Rightarrow> addr option" where
  "sys_getsockname fd n =
     (case lookup_sock n fd of
        None \<Rightarrow> None
      | Some s \<Rightarrow> Some (if us_peer s = None then Any_host else Loopback, us_port s))"

text \<open>\<^verbatim>\<open>connect\<close> to the wildcard address is to the loopback interface.\<close>

definition sys_connect :: "int \<Rightarrow> addr \<Rightarrow> net \<Rightarrow> int \<times> net" where
  "sys_connect fd a n =
     (case lookup_sock n fd of
        None \<Rightarrow> (-1, n)
      | Some s \<Rightarrow>
          (let s1 = s\<lparr>us_peer := Some (snd a)\<rparr>
           in (0, if us_port s = 0 then take_port (nat fd) s1 0 n else set_sock (nat fd) s1 n)))"

text \<open>
  \<^verbatim>\<open>write\<close> on a connected socket succeeds whether or not somebody takes the datagram: it is queued at
  the owner of the peer's port if that one accepts this sender and has space, and dropped otherwise.
\<close>

definition deliver_to :: "nat \<Rightarrow> nat \<Rightarrow> char list \<Rightarrow> net \<Rightarrow> net" where
  "deliver_to from p bs n =
     (case n_owner n p of
        None \<Rightarrow> n
      | Some i \<Rightarrow>
          (case n_sock n i of
             None \<Rightarrow> n
           | Some r \<Rightarrow>
               if (us_peer r = None \<or> us_peer r = Some from) \<and> length (us_queue r) < n_rcvbuf n
               then set_sock i (r\<lparr>us_queue := us_queue r @ [bs]\<rparr>) n else n))"

definition net_write :: "outcome \<Rightarrow> int \<Rightarrow> char list \<Rightarrow> net \<Rightarrow> int \<times> net" where
  "net_write oc fd bs n =
     (case lookup_sock n fd of
        Some s \<Rightarrow>
          (case us_peer s of
             Some p \<Rightarrow> if oc = Done then (int (length bs), deliver_to (us_port s) p bs n) else (-1, n)
           | None \<Rightarrow> (-1, n))
      | None \<Rightarrow> (-1, n))"

text \<open>A \<^verbatim>\<open>read\<close> of one byte takes a whole datagram and drops what does not fit.\<close>

definition net_read1 :: "outcome \<Rightarrow> int \<Rightarrow> net \<Rightarrow> int \<times> net" where
  "net_read1 oc fd n =
     (case lookup_sock n fd of
        Some s \<Rightarrow>
          (case us_queue s of
             d # ds \<Rightarrow>
               if oc = Done then (int (min 1 (length d)), set_sock (nat fd) (s\<lparr>us_queue := ds\<rparr>) n) else (-1, n)
           | [] \<Rightarrow> (-1, n))
      | None \<Rightarrow> (-1, n))"

definition empty_net :: "nat \<Rightarrow> net" where
  "empty_net cap = \<lparr>n_sock = (\<lambda>_. None), n_next_fd = 3, n_owner = (\<lambda>_. None), n_next_port = 32768, n_rcvbuf = cap\<rparr>"

section \<open>The mode\<close>

text \<open>
  \<^verbatim>\<open>make_udp_pair\<close>: the second \<^verbatim>\<open>bind\<close> is on the first socket again. An address that \<^verbatim>\<open>getsockname\<close>
  cannot give leaves the buffer as it was.
\<close>

definition make_udp_pair :: "net \<Rightarrow> ((int \<times> int) \<times> net) res" where
  "make_udp_pair n =
     (let (fds, n1) = sys_socket n;
          (r1, n2) = sys_bind fds (Any_host, 0) n1;
          (fdc, n3) = sys_socket n2;
          (r2, n4) = sys_bind fds (Any_host, 0) n3;
          a = (case sys_getsockname fds n4 of None \<Rightarrow> (Any_host, 0) | Some x \<Rightarrow> x);
          (r3, n5) = sys_connect fdc a n4;
          b = (case sys_getsockname fdc n5 of None \<Rightarrow> a | Some x \<Rightarrow> x);
          (r4, n6) = sys_connect fds b n5
      in Inr ((fds, fdc), n6))"

text \<open>\<^verbatim>\<open>comm_do_send_generic\<close> and \<^verbatim>\<open>comm_do_recv_generic\<close> on these descriptors.\<close>

definition udp_ops :: "wiring \<Rightarrow> (outcome, net) pp_ops" where
  "udp_ops = generic_ops (\<lambda>oc fd. net_write oc fd [CHR ''X'']) net_read1"

lemmas net_defs = lookup_sock_def set_sock_def sys_socket_def take_port_def sys_bind_def
  sys_getsockname_def sys_connect_def

section \<open>The sockets keep the turn\<close>

text \<open>
  One direction: the socket \<open>w\<close> and the socket \<open>r\<close> are each other's peers, and \<open>q\<close> is under way.
\<close>

definition linked :: "int \<Rightarrow> int \<Rightarrow> char list list \<Rightarrow> net \<Rightarrow> bool" where
  "linked w r q n \<longleftrightarrow>
     (\<exists>sw sr. lookup_sock n w = Some sw \<and> lookup_sock n r = Some sr
        \<and> us_peer sw = Some (us_port sr) \<and> us_peer sr = Some (us_port sw)
        \<and> n_owner n (us_port sr) = Some (nat r) \<and> us_queue sr = q)"

definition udp_rep :: "wiring \<Rightarrow> stage \<Rightarrow> net \<Rightarrow> bool" where
  "udp_rep w t n \<longleftrightarrow> 1 \<le> n_rcvbuf n
     \<and> distinct [mouth w Ping, ear w Pong, mouth w Pong, ear w Ping]
     \<and> linked (mouth w Ping) (ear w Pong) (if t = B1 then [''X''] else []) n
     \<and> linked (mouth w Pong) (ear w Ping) (if t = A2 then [''X''] else []) n"

lemma linked_send:
  assumes "linked w r [] n" "w \<noteq> r" "1 \<le> n_rcvbuf n"
  shows "net_write Done w bs n = (int (length bs), set_sock (nat r) ((the (lookup_sock n r))\<lparr>us_queue := [bs]\<rparr>) n)"
    and "linked w r [bs] (set_sock (nat r) ((the (lookup_sock n r))\<lparr>us_queue := [bs]\<rparr>) n)"
  using assms by (auto simp: linked_def net_write_def deliver_to_def lookup_sock_def set_sock_def
      nat_eq_iff split: if_splits)

lemma linked_receive:
  assumes "linked w r (d # ds) n" "w \<noteq> r"
  shows "net_read1 Done r n = (int (min 1 (length d)), set_sock (nat r) ((the (lookup_sock n r))\<lparr>us_queue := ds\<rparr>) n)"
    and "linked w r ds (set_sock (nat r) ((the (lookup_sock n r))\<lparr>us_queue := ds\<rparr>) n)"
  using assms by (auto simp: linked_def net_read1_def lookup_sock_def set_sock_def nat_eq_iff split: if_splits)

lemma linked_other:
  assumes "linked w r q n" "0 \<le> x" "x \<noteq> w" "x \<noteq> r"
  shows "linked w r q (set_sock (nat x) s n)"
  using assms by (auto simp: linked_def lookup_sock_def set_sock_def nat_eq_iff split: if_splits)

lemma linked_blocked: "linked w r [] n \<Longrightarrow> net_read1 oc r n = (-1, n)"
  by (auto simp: linked_def net_read1_def)

lemma linked_nonneg: "linked w r q n \<Longrightarrow> 0 \<le> w \<and> 0 \<le> r"
  by (auto simp: linked_def lookup_sock_def split: if_splits)

lemma net_interrupted: "oc \<noteq> Done \<Longrightarrow> net_write oc fd bs n = (-1, n) \<and> net_read1 oc fd n = (-1, n)"
  by (simp add: net_write_def net_read1_def split: option.splits list.splits)

lemma set_sock_rcvbuf [simp]: "n_rcvbuf (set_sock i s n) = n_rcvbuf n"
  by (simp add: set_sock_def)

lemma udp_attempt:
  assumes r: "udp_rep w t n" and o: "udp_ops w t oc n = (ok, n')"
  shows "if oc = Done then ok \<and> udp_rep w (nxt Send_first t) n' else \<not> ok \<and> n' = n"
proof (cases "oc = Done")
  case False
  then show ?thesis using o net_interrupted [OF False] by (cases t) (auto simp: udp_ops_def generic_ops_def)
next
  case True
  have n: "0 \<le> mouth w Ping" "0 \<le> ear w Pong" "0 \<le> mouth w Pong" "0 \<le> ear w Ping"
    using r linked_nonneg by (auto simp: udp_rep_def)
  show ?thesis
    using r o True n
    by (cases t) (auto simp: udp_rep_def udp_ops_def generic_ops_def linked_send linked_receive linked_other)
qed

interpretation udp: call_handshake "udp_ops w" Send_first "udp_rep w" for w
proof
  fix t oc n ok n'
  assume "udp_rep w t n" "udp_ops w t oc n = (ok, n')"
  then show "if oc = Done then ok \<and> udp_rep w (nxt Send_first t) n' else \<not> ok \<and> n' = n"
    by (rule udp_attempt)
next
  fix t oc n ok n'
  assume "udp_rep w t n" "udp_ops w (parked Send_first t) oc n = (ok, n')"
  then show "\<not> ok \<and> udp_rep w t n'"
    by (cases t) (auto simp: udp_rep_def udp_ops_def generic_ops_def linked_blocked)
qed

text \<open>What the pair function leaves: two sockets that are each other's peers.\<close>

lemma udp_pair:
  assumes "0 < n_next_port n"
  defines "k \<equiv> n_next_fd n" and "p \<equiv> n_next_port n"
  shows "make_udp_pair n = Inr ((int k, int (Suc k)),
     n\<lparr>n_sock := (n_sock n)(k \<mapsto> \<lparr>us_port = p, us_peer = Some (Suc p), us_queue = []\<rparr>,
                           Suc k \<mapsto> \<lparr>us_port = Suc p, us_peer = Some p, us_queue = []\<rparr>),
       n_next_fd := Suc (Suc k), n_owner := (n_owner n)(p \<mapsto> k, Suc p \<mapsto> Suc k),
       n_next_port := Suc (Suc p)\<rparr>)"
  using assms(1) unfolding make_udp_pair_def k_def p_def
  by (simp add: net_defs fun_upd_twist Let_def del: of_nat_Suc)

lemma udp_wired:
  assumes "make_pairs make_udp_pair n = Inr (w, n')" "1 \<le> n_rcvbuf n" "0 < n_next_port n"
  shows "udp_rep w A1 n'"
  using assms(1,2) unfolding make_pairs_def
  by (auto simp: udp_pair assms(3) wire_pairs_def udp_rep_def linked_def lookup_sock_def simp del: of_nat_Suc)

text \<open>The modes as their setup leaves them.\<close>

lemma udp_runs:
  assumes "make_pairs make_udp_pair n = Inr (w, n')" "1 \<le> n_rcvbuf n" "0 < n_next_port n"
  shows "alternates Send_first (udp_ops w) n' \<and> progresses Send_first (udp_ops w) n'"
  using udp.alternates_from [OF udp_wired [OF assms]] udp.progresses_from [OF udp_wired [OF assms]] by simp

section \<open>Properties\<close>

text \<open>
  C26: the UDP mode is correct on the sockets its pair function makes: although the second socket is
  never bound by it, connecting binds it, so that each pair is connected both ways; every schedule
  then completes the sends and receives in strict alternation, no datagram is dropped, the counter
  is the number of rounds begun, and it never gets stuck.
\<close>

theorem udp_mode_correct:
  assumes "make_pairs make_udp_pair n = Inr (w, n')" "1 \<le> n_rcvbuf n" "0 < n_next_port n"
  shows "alternates Send_first (udp_ops w) n' \<and> progresses Send_first (udp_ops w) n'"
  using assms by (rule udp_runs)

theorem udp_mode_correct_witness:
  "\<exists>w n'. make_pairs make_udp_pair (empty_net 1) = Inr (w, n') \<and> mouth w Ping = 4 \<and> ear w Pong = 3
     \<and> alternates Send_first (udp_ops w) n'"
proof -
  obtain w n' where p: "make_pairs make_udp_pair (empty_net 1) = Inr (w, n')" "mouth w Ping = 4" "ear w Pong = 3"
    by (simp add: make_pairs_def make_udp_pair_def wire_pairs_def net_defs empty_net_def Let_def)
  from udp_mode_correct [OF p(1)] p show ?thesis by (auto simp: empty_net_def)
qed

end
