(* ===== verification/Inotify_Mode.thy ===== *)
theory Inotify_Mode
  imports Fd_Modes
begin

text \<open>
  \<^verbatim>\<open>comms/inotify.c\<close>: each thread truncates a file of its own and waits for the events of the watch on
  the other thread's file. A watch has a queue of events; as inotify(7) documents it, an event that
  is identical to the last one not yet read is merged into it, and a read takes all that are there.
  A truncation of a watched file is one event, and the events of a watched file carry no name.
\<close>

section \<open>Setup\<close>

text \<open>The two entries of \<^verbatim>\<open>ino_info\<close>, and the results of the three calls for one of them.\<close>

record ino_info =
  ino_fd :: int
  file_fd :: int
  wd :: int

record ino_calls =
  res_init :: int
  res_open :: int
  res_watch :: int

record ino_state =
  ino_num :: nat
  ino_infos :: "nat \<Rightarrow> ino_info"

definition make_inotify_pair :: "(nat \<Rightarrow> ino_calls) \<Rightarrow> ino_state \<Rightarrow> ((int \<times> int) \<times> ino_state) res" where
  "make_inotify_pair calls s =
     (let i = ino_num s; r = calls i
      in if res_init r < 0 then Inl (Exit_fail ''inotify_init: error: %s'')
         else if res_open r < 0 then Inl (Exit_fail (''Error opening '%s'.  Error was '%s'' @ [CHR 0x27]))
         else Inr ((int i, int i),
                s\<lparr>ino_infos := (ino_infos s)(i := \<lparr>ino_fd = res_init r, file_fd = res_open r, wd = res_watch r\<rparr>),
                  ino_num := i + 1\<rparr>))"

section \<open>Events\<close>

text \<open>An event by the length of its name, and the layout of the buffer.\<close>

definition EVENT_SIZE :: int where "EVENT_SIZE = 16"
definition EVENT_BUF_SIZE :: int where "EVENT_BUF_SIZE = 1024 * (EVENT_SIZE + 16)"

definition buf_length :: "nat list \<Rightarrow> int" where
  "buf_length evs = (\<Sum>l\<leftarrow>evs. EVENT_SIZE + int l)"

definition queue_event :: "nat \<Rightarrow> nat list \<Rightarrow> nat list" where
  "queue_event l q = (if q \<noteq> [] \<and> last q = l then q else q @ [l])"

text \<open>
  The loop over the events read: \<open>evs\<close> are those from offset \<open>counter\<close> on. Reading an event where
  there is none would be an access behind what was read.
\<close>

fun scan_events :: "nat list \<Rightarrow> int \<Rightarrow> int \<Rightarrow> int res" where
  "scan_events [] counter len = (if counter < len then Inl Out_of_bounds else Inr counter)"
| "scan_events (l # evs) counter len =
     (if counter < len then scan_events evs (counter + (EVENT_SIZE + int l)) len else Inr counter)"

section \<open>The loops\<close>

text \<open>
  What a blocking \<^verbatim>\<open>read\<close> ends in once there are events: it returns them, is interrupted
  (\<^verbatim>\<open>EINTR\<close>), or fails with another error, which is only reported.
\<close>

datatype read_out = Got | Eintr | Efail

datatype ino_ping_pc = I_count | I_truncate | I_read
datatype ino_pong_pc = J_read | J_truncate

record ino =
  i_ping :: ino_ping_pc
  i_pong :: ino_pong_pc
  i_count :: "64 word"
  i_queue :: "tid \<Rightarrow> nat list"

definition truncate_file :: "tid \<Rightarrow> ino \<Rightarrow> ino" where
  "truncate_file t s = s\<lparr>i_queue := (i_queue s)(t := queue_event 0 (i_queue s t))\<rparr>"

text \<open>\<^verbatim>\<open>comm_ping_inotify\<close>: an interrupted read goes back to the top of the loop, to the counter.\<close>

definition ino_ping_step :: "read_out \<Rightarrow> ino \<Rightarrow> ino" where
  "ino_ping_step oc s =
     (case i_ping s of
        I_count \<Rightarrow> s\<lparr>i_count := i_count s + 1, i_ping := I_truncate\<rparr>
      | I_truncate \<Rightarrow> (truncate_file Ping s)\<lparr>i_ping := I_read\<rparr>
      | I_read \<Rightarrow>
          (case oc of
             Eintr \<Rightarrow> s\<lparr>i_ping := I_count\<rparr>
           | Efail \<Rightarrow> s\<lparr>i_ping := I_count\<rparr>
           | Got \<Rightarrow>
               if i_queue s Pong = [] then s
               else s\<lparr>i_queue := (i_queue s)(Pong := []), i_ping := I_count\<rparr>))"

definition ino_pong_step :: "read_out \<Rightarrow> ino \<Rightarrow> ino" where
  "ino_pong_step oc s =
     (case i_pong s of
        J_read \<Rightarrow>
          (case oc of
             Eintr \<Rightarrow> s
           | Efail \<Rightarrow> s\<lparr>i_pong := J_truncate\<rparr>
           | Got \<Rightarrow>
               if i_queue s Ping = [] then s
               else s\<lparr>i_queue := (i_queue s)(Ping := []), i_pong := J_truncate\<rparr>)
      | J_truncate \<Rightarrow> (truncate_file Pong s)\<lparr>i_pong := J_read\<rparr>)"

definition ino_step :: "tid \<times> read_out \<Rightarrow> ino \<Rightarrow> ino" where
  "ino_step x s = (case fst x of Ping \<Rightarrow> ino_ping_step (snd x) s | Pong \<Rightarrow> ino_pong_step (snd x) s)"

definition ino_run :: "(tid \<times> read_out) list \<Rightarrow> ino \<Rightarrow> ino" where
  "ino_run xs s = fold ino_step xs s"

definition ino_init :: ino where
  "ino_init = \<lparr>i_ping = I_count, i_pong = J_read, i_count = 0, i_queue = (\<lambda>_. [])\<rparr>"

section \<open>Without interruptions: a handshake\<close>

text \<open>The operations of the loops when no read is interrupted, over the two queues.\<close>

definition inotify_ops :: "(unit, tid \<Rightarrow> nat list) pp_ops" where
  "inotify_ops st oc q =
     (case st of
        A1 \<Rightarrow> (True, q(Ping := queue_event 0 (q Ping)))
      | A2 \<Rightarrow> if q Pong = [] then (False, q) else (True, q(Pong := []))
      | B1 \<Rightarrow> if q Ping = [] then (False, q) else (True, q(Ping := []))
      | B2 \<Rightarrow> (True, q(Pong := queue_event 0 (q Pong))))"

definition ino_rep :: "stage \<Rightarrow> (tid \<Rightarrow> nat list) \<Rightarrow> bool" where
  "ino_rep t q \<longleftrightarrow> q Ping = (if t = B1 then [0] else []) \<and> q Pong = (if t = A2 then [0] else [])"

interpretation inotify: live_handshake inotify_ops Send_first ino_rep
proof
  fix t oc q q' assume "ino_rep t q" "inotify_ops t oc q = (True, q')"
  then show "ino_rep (nxt Send_first t) q'"
    by (cases t) (auto simp: ino_rep_def inotify_ops_def queue_event_def split: if_splits)
next
  fix t oc q q' assume "ino_rep t q" "inotify_ops t oc q = (False, q')"
  then show "ino_rep t q'" by (cases t) (auto simp: ino_rep_def inotify_ops_def split: if_splits)
next
  fix t oc q ok q' assume "ino_rep t q" "inotify_ops (parked Send_first t) oc q = (ok, q')"
  then show "\<not> ok \<and> ino_rep t q'" by (cases t) (auto simp: ino_rep_def inotify_ops_def split: if_splits)
next
  fix t q assume "ino_rep t q"
  then show "\<exists>oc. fst (inotify_ops t oc q)" by (cases t) (auto simp: ino_rep_def inotify_ops_def)
qed

text \<open>The loops of the code are these operations as long as every read returns events.\<close>

fun of_ping_pc :: "ping_pc \<Rightarrow> ino_ping_pc" where
  "of_ping_pc At_count = I_count"
| "of_ping_pc At_a1 = I_truncate"
| "of_ping_pc At_a2 = I_read"

fun of_pong_pc :: "pong_pc \<Rightarrow> ino_pong_pc" where
  "of_pong_pc At_b1 = J_read"
| "of_pong_pc At_b2 = J_truncate"

definition as_ino :: "(tid \<Rightarrow> nat list) pp \<Rightarrow> ino" where
  "as_ino s = \<lparr>i_ping = of_ping_pc (ping_pc s), i_pong = of_pong_pc (pong_pc s), i_count = ping_count s,
     i_queue = chan s\<rparr>"

lemma ino_step_simulates: "ino_step (t, Got) (as_ino s) = as_ino (snd (pp_step inotify_ops (t, ()) s))"
proof (cases t)
  case Ping
  then show ?thesis
    by (cases "ping_pc s") (simp_all add: ino_step_def pp_step_def ino_ping_step_def ping_step_def as_ino_def
      inotify_ops_def truncate_file_def)
next
  case Pong
  then show ?thesis
    by (cases "pong_pc s") (simp_all add: ino_step_def pp_step_def ino_pong_step_def pong_step_def as_ino_def
      inotify_ops_def truncate_file_def)
qed

lemma ino_run_simulates:
  "ino_run (map (\<lambda>t. (t, Got)) ts) (as_ino s) = as_ino (snd (pp_run inotify_ops (map (\<lambda>t. (t, ())) ts) s))"
proof (induction ts arbitrary: s)
  case (Cons t ts)
  then show ?case by (simp add: ino_run_def ino_step_simulates split: prod.splits)
qed (simp add: ino_run_def)

lemma as_ino_init: "as_ino (pp_init (\<lambda>_. [])) = ino_init"
  by (simp add: as_ino_def pp_init_def ino_init_def)

section \<open>With interruptions\<close>

text \<open>Merging bounds the queues, whatever is interrupted.\<close>

definition merged :: "ino \<Rightarrow> bool" where
  "merged s \<longleftrightarrow> (\<forall>t. i_queue s t = [] \<or> i_queue s t = [0])"

lemma truncate_merged: "merged s \<Longrightarrow> merged (truncate_file t s)"
  by (auto simp: merged_def truncate_file_def queue_event_def)

lemma ino_step_merged: "merged s \<Longrightarrow> merged (ino_step x s)"
  using truncate_merged [of s Ping] truncate_merged [of s Pong]
  by (cases "fst x"; cases "snd x"; cases "i_ping s"; cases "i_pong s")
    (simp_all add: ino_step_def ino_ping_step_def ino_pong_step_def merged_def)

lemma ino_run_merged: "merged s \<Longrightarrow> merged (ino_run xs s)"
  unfolding ino_run_def by (induction xs arbitrary: s) (auto intro: ino_step_merged)

lemma scan_all: "scan_events evs counter (counter + buf_length evs) = Inr (counter + buf_length evs)"
proof (induction evs arbitrary: counter)
  case (Cons l evs)
  have "0 \<le> buf_length evs" unfolding buf_length_def EVENT_SIZE_def by (rule sum_list_nonneg) auto
  then show ?case using Cons [of "counter + (EVENT_SIZE + int l)"]
    by (simp add: buf_length_def EVENT_SIZE_def algebra_simps)
qed (simp add: buf_length_def)

lemma ino_round:
  assumes "i_ping s = I_count" "i_queue s Ping = [] \<or> i_queue s Ping = [0]"
  shows "ino_run [(Ping, Got), (Ping, Got), (Ping, Eintr)] s =
    s\<lparr>i_count := i_count s + 1, i_queue := (i_queue s)(Ping := [0])\<rparr>"
  using assms by (cases s) (auto simp: ino_run_def ino_step_def ino_ping_step_def truncate_file_def queue_event_def
      fun_upd_idem)

lemma ino_rounds:
  assumes "i_ping s = I_count" "i_queue s Ping = [] \<or> i_queue s Ping = [0]"
  shows "ino_run (concat (replicate (Suc n) [(Ping, Got), (Ping, Got), (Ping, Eintr)])) s =
    s\<lparr>i_count := i_count s + of_nat (Suc n), i_queue := (i_queue s)(Ping := [0])\<rparr>"
  using assms
proof (induction n arbitrary: s)
  case 0
  then show ?case using ino_round [of s] by (simp add: fun_upd_def)
next
  case (Suc n)
  have step: "ino_run (concat (replicate (Suc (Suc n)) [(Ping, Got), (Ping, Got), (Ping, Eintr)])) s =
    ino_run (concat (replicate (Suc n) [(Ping, Got), (Ping, Got), (Ping, Eintr)]))
      (ino_run [(Ping, Got), (Ping, Got), (Ping, Eintr)] s)"
    by (simp add: ino_run_def)
  show ?case unfolding step ino_round [OF Suc.prems]
    by (subst Suc.IH) (simp_all add: Suc.prems(1) algebra_simps)
qed

section \<open>Properties\<close>

text \<open>
  C27: the inotify mode is correct as long as no read is interrupted: the loops run exactly as a
  transport that completes truncations and reads in strict alternation, counts the rounds and
  never gets stuck. With any interruptions and errors each queue still holds at most one event, so
  that a read fits the buffer, and the loop over the events ends exactly at what was read.
\<close>

theorem inotify_mode_correct:
  "alternates Send_first inotify_ops (\<lambda>_. []) \<and> progresses Send_first inotify_ops (\<lambda>_. [])
   \<and> ino_run (map (\<lambda>t. (t, Got)) ts) ino_init
       = as_ino (snd (pp_run inotify_ops (map (\<lambda>t. (t, ())) ts) (pp_init (\<lambda>_. []))))
   \<and> buf_length (i_queue (ino_run xs ino_init) t) \<le> EVENT_BUF_SIZE
   \<and> scan_events evs 0 (buf_length evs) = Inr (buf_length evs)"
proof -
  have "ino_rep A1 (\<lambda>_. [])" by (simp add: ino_rep_def)
  moreover have "merged (ino_run xs ino_init)" by (rule ino_run_merged) (simp add: merged_def ino_init_def)
  then have "i_queue (ino_run xs ino_init) t = [] \<or> i_queue (ino_run xs ino_init) t = [0]" by (simp add: merged_def)
  ultimately show ?thesis
    using inotify.alternates_from inotify.progresses_from ino_run_simulates [of ts "pp_init (\<lambda>_. [])"]
      scan_all [of evs 0]
    by (auto simp: as_ino_init buf_length_def EVENT_BUF_SIZE_def EVENT_SIZE_def)
qed

text \<open>
  An interrupted read of ping goes back to the top of its loop, so each interruption counts as a
  round and truncates again: after \<open>n\<close> of them the counter is \<open>n\<close> although pong never moved.
\<close>

lemma inotify_interruptions_counted:
  "i_count (ino_run (concat (replicate n [(Ping, Got), (Ping, Got), (Ping, Eintr)])) ino_init) = of_nat n
   \<and> i_pong (ino_run (concat (replicate n [(Ping, Got), (Ping, Got), (Ping, Eintr)])) ino_init) = J_read
   \<and> i_queue (ino_run (concat (replicate n [(Ping, Got), (Ping, Got), (Ping, Eintr)])) ino_init) Pong = []"
proof (cases n)
  case 0
  then show ?thesis by (simp add: ino_run_def ino_init_def)
next
  case (Suc m)
  then show ?thesis using ino_rounds [of ino_init m] by (simp add: ino_init_def)
qed

end
