(* ===== verification/Sync_Modes.thy ===== *)
theory Sync_Modes
  imports Fd_Modes
begin

text \<open>
  The transports over synchronisation objects: semaphores, blocking and busy (\<^verbatim>\<open>comms/sem.c\<close>),
  message queues (\<^verbatim>\<open>comms/mq.c\<close>), signals (\<^verbatim>\<open>comms/signal.c\<close>) and futexes (\<^verbatim>\<open>comms/futex.c\<close>).
\<close>

section \<open>Semaphores\<close>

text \<open>
  \<^verbatim>\<open>make_sem_pair\<close>: \<open>opens i\<close> is what \<^verbatim>\<open>sem_open\<close> answers for the name \<open>i\<close>, with \<^verbatim>\<open>O_CREAT\<close> and no
  \<^verbatim>\<open>O_EXCL\<close>: nothing (a failure), or the value the semaphore has, which is the requested 0 only if
  it did not exist.
\<close>

record sem_state =
  sem_num :: nat
  sem_busy :: bool
  sem_value :: "nat \<Rightarrow> nat"

definition make_sem_pair ::
    "string \<Rightarrow> (nat \<Rightarrow> nat option) \<Rightarrow> sem_state \<Rightarrow> ((int \<times> int) \<times> sem_state) res" where
  "make_sem_pair mode_name opens s =
     (let s1 = (if strncmp_eq mode_name ''busysem'' 7 then s\<lparr>sem_busy := True\<rparr> else s);
          i = sem_num s1
      in case opens i of
           None \<Rightarrow> Inl (Exit_fail ''Error opening semaphore '%s': %s'')
         | Some v \<Rightarrow> Inr ((int i, int i),
             s1\<lparr>sem_value := (sem_value s1)(i := v), sem_num := sem_num s1 + 1\<rparr>))"

definition do_begin_sem :: "outcome \<Rightarrow> (nat \<Rightarrow> nat) \<Rightarrow> int \<times> (nat \<Rightarrow> nat)" where
  "do_begin_sem oc v = sem_post oc 0 v"

definition sem_ops :: "(outcome, nat \<Rightarrow> nat) pp_ops" where
  "sem_ops st oc v =
     (case st of
        A1 \<Rightarrow> (case sem_wait oc 0 v of (r, v') \<Rightarrow> (\<not> r \<noteq> 0, v'))
      | A2 \<Rightarrow> (case sem_post oc 1 v of (r, v') \<Rightarrow> (\<not> r \<noteq> 0, v'))
      | B1 \<Rightarrow> (case sem_wait oc 1 v of (r, v') \<Rightarrow> (\<not> r \<noteq> 0, v'))
      | B2 \<Rightarrow> (case sem_post oc 0 v of (r, v') \<Rightarrow> (\<not> r \<noteq> 0, v')))"

definition busysem_ops :: "(outcome, nat \<Rightarrow> nat) pp_ops" where
  "busysem_ops st oc v =
     (case st of
        A1 \<Rightarrow> (case sem_trywait oc 0 v of (r, v') \<Rightarrow> (\<not> r = -1, v'))
      | A2 \<Rightarrow> (case sem_post oc 1 v of (r, v') \<Rightarrow> (\<not> r \<noteq> 0, v'))
      | B1 \<Rightarrow> (case sem_trywait oc 1 v of (r, v') \<Rightarrow> (\<not> r = -1, v'))
      | B2 \<Rightarrow> (case sem_post oc 0 v of (r, v') \<Rightarrow> (\<not> r \<noteq> 0, v')))"

definition sem_rep :: "stage \<Rightarrow> (nat \<Rightarrow> nat) \<Rightarrow> bool" where
  "sem_rep t v \<longleftrightarrow> v 0 = (if t = A1 then 1 else 0) \<and> v 1 = (if t = B1 then 1 else 0)"

lemmas sem_defs = sem_ops_def busysem_ops_def sem_wait_def sem_trywait_def sem_post_def
  SEM_VALUE_MAX_def

interpretation sem: call_handshake sem_ops Wait_first sem_rep
proof
  fix t oc v ok v'
  assume "sem_rep t v" "sem_ops t oc v = (ok, v')"
  then show "if oc = Done then ok \<and> sem_rep (nxt Wait_first t) v' else \<not> ok \<and> v' = v"
    by (cases t) (auto simp: sem_defs sem_rep_def split: if_splits)
next
  fix t oc v ok v'
  assume "sem_rep t v" "sem_ops (parked Wait_first t) oc v = (ok, v')"
  then show "\<not> ok \<and> sem_rep t v'" by (cases t) (auto simp: sem_defs sem_rep_def split: if_splits)
qed

interpretation busysem: call_handshake busysem_ops Wait_first sem_rep
proof
  fix t oc v ok v'
  assume "sem_rep t v" "busysem_ops t oc v = (ok, v')"
  then show "if oc = Done then ok \<and> sem_rep (nxt Wait_first t) v' else \<not> ok \<and> v' = v"
    by (cases t) (auto simp: sem_defs sem_rep_def split: if_splits)
next
  fix t oc v ok v'
  assume "sem_rep t v" "busysem_ops (parked Wait_first t) oc v = (ok, v')"
  then show "\<not> ok \<and> sem_rep t v'" by (cases t) (auto simp: sem_defs sem_rep_def split: if_splits)
qed

text \<open>What the two calls for a pair leave, on names that did not exist.\<close>

definition sem_initial :: sem_state where
  "sem_initial = \<lparr>sem_num = 0, sem_busy = False, sem_value = (\<lambda>_. 0)\<rparr>"

lemma sem_pairs:
  assumes "make_pairs (make_sem_pair mode_name opens) sem_initial = Inr (w, s)"
  shows "opens 0 = Some (sem_value s 0) \<and> opens 1 = Some (sem_value s 1)"
  using assms by (cases "strncmp_eq mode_name ''busysem'' 7")
    (auto simp: make_pairs_def make_sem_pair_def sem_initial_def bind_res_Inr_iff
      Let_def split: option.splits)

section \<open>Message queues\<close>

record mq_state =
  mq_num :: nat
  mq_queue :: "nat \<Rightarrow> (char \<times> 32 word) option"
  mq_msg :: "nat \<Rightarrow> char"
  mq_prio :: "nat \<Rightarrow> 32 word"

text \<open>\<open>opened\<close> tells whether \<^verbatim>\<open>mq_open\<close> succeeds; \<open>prio_max\<close> is \<^verbatim>\<open>sysconf(_SC_MQ_PRIO_MAX)\<close>.\<close>

definition make_mq_pair ::
    "(nat \<Rightarrow> bool) \<Rightarrow> int \<Rightarrow> mq_state \<Rightarrow> ((int \<times> int) \<times> mq_state) res" where
  "make_mq_pair opened prio_max s =
     (let i = mq_num s in
      if \<not> opened i then Inl (Exit_fail ''Could not create mq '%s': %s'')
      else Inr ((int i, int i),
        s\<lparr>mq_prio := (mq_prio s)(i := word_of_int (prio_max - 1)), mq_msg := (mq_msg s)(i := CHR ''1''),
          mq_num := mq_num s + 1\<rparr>))"

text \<open>Send and receive return 1 when they succeed: a negated 0, or the length of the message.\<close>

definition do_send_mq :: "outcome \<Rightarrow> int \<Rightarrow> mq_state \<Rightarrow> int \<times> mq_state" where
  "do_send_mq oc fd s =
     (case mq_send oc (nat fd) (mq_msg s (nat fd)) (mq_prio s (nat fd)) (mq_queue s) of
        (r, q) \<Rightarrow> (if r = 0 then 1 else 0, s\<lparr>mq_queue := q\<rparr>))"

definition do_recv_mq :: "outcome \<Rightarrow> int \<Rightarrow> mq_state \<Rightarrow> int \<times> mq_state" where
  "do_recv_mq oc fd s =
     (case mq_receive oc (nat fd) (mq_queue s) of
        (r, None, q) \<Rightarrow> (r, s\<lparr>mq_queue := q\<rparr>)
      | (r, Some (m, p), q) \<Rightarrow>
          (r, s\<lparr>mq_queue := q, mq_msg := (mq_msg s)(nat fd := m), mq_prio := (mq_prio s)(nat fd := p)\<rparr>))"

definition mq_ops :: "wiring \<Rightarrow> (outcome, mq_state) pp_ops" where
  "mq_ops = generic_ops do_send_mq do_recv_mq"

definition mq_rep :: "stage \<Rightarrow> mq_state \<Rightarrow> bool" where
  "mq_rep t s \<longleftrightarrow> (mq_queue s 0 \<noteq> None \<longleftrightarrow> t = B1) \<and> (mq_queue s 1 \<noteq> None \<longleftrightarrow> t = A2)"

definition mq_wiring :: wiring where
  "mq_wiring = wire_pairs (0, 0) (1, 1)"

lemmas mq_defs = mq_ops_def generic_ops_def do_send_mq_def do_recv_mq_def mq_send_def mq_receive_def
  mq_wiring_def wire_pairs_def

interpretation mq: call_handshake "mq_ops mq_wiring" Send_first mq_rep
proof
  fix t oc s ok s'
  assume "mq_rep t s" "mq_ops mq_wiring t oc s = (ok, s')"
  then show "if oc = Done then ok \<and> mq_rep (nxt Send_first t) s' else \<not> ok \<and> s' = s"
    by (cases t) (auto simp: mq_defs mq_rep_def split: if_splits prod.splits option.splits)
next
  fix t oc s ok s'
  assume "mq_rep t s" "mq_ops mq_wiring (parked Send_first t) oc s = (ok, s')"
  then show "\<not> ok \<and> mq_rep t s'"
    by (cases t) (auto simp: mq_defs mq_rep_def split: if_splits)
qed

lemma mq_pairs:
  assumes "make_pairs (make_mq_pair opened pm) s = Inr (w, s')" "mq_num s = 0"
  shows "w = mq_wiring" "mq_queue s' = mq_queue s"
  using assms by (auto simp: make_pairs_def make_mq_pair_def bind_res_Inr_iff mq_wiring_def
      Let_def split: if_splits)

section \<open>Signals\<close>

text \<open>
  \<^verbatim>\<open>sigs\<close>, \<^verbatim>\<open>signal_received\<close>, and the signals that are pending, by process and number. A thread
  that takes a step may first have a pending signal of its process delivered (\<open>Deliver\<close>), which
  runs \<^verbatim>\<open>signal_catcher\<close>. Ping's process is \<open>fst\<close> and pong's is \<open>snd\<close> of the pids.
\<close>

record sig_state =
  sig_num :: nat
  sigs :: "nat \<Rightarrow> int"
  signal_received :: "nat \<Rightarrow> int"
  pending :: "int \<Rightarrow> int \<Rightarrow> bool"

datatype delivery = Deliver | Hold

definition signal_catcher :: "int \<Rightarrow> sig_state \<Rightarrow> sig_state" where
  "signal_catcher sig s =
     (if sigs s 0 = sig then s\<lparr>signal_received := (signal_received s)(0 := 1)\<rparr>
      else if sigs s 1 = sig then s\<lparr>signal_received := (signal_received s)(1 := 1)\<rparr>
      else s)"

definition make_signal_pair :: "int \<Rightarrow> sig_state \<Rightarrow> ((int \<times> int) \<times> sig_state) res" where
  "make_signal_pair SIGRTMAX s =
     (let i = sig_num s;
          s1 = (if i = 0 then s\<lparr>sigs := (sigs s)(0 := SIGRTMAX - 1, 1 := SIGRTMAX - 2)\<rparr> else s)
      in Inr ((int i, int i),
           s1\<lparr>signal_received := (signal_received s1)(i := 0), sig_num := sig_num s1 + 1\<rparr>))"

text \<open>\<^verbatim>\<open>send_sig\<close> (\<^verbatim>\<open>signals.c\<close>), over any \<^verbatim>\<open>kill\<close>, and the \<^verbatim>\<open>kill\<close> of this model.\<close>

definition send_sig :: "(int \<Rightarrow> int \<Rightarrow> 'k \<Rightarrow> int \<times> 'k) \<Rightarrow> int \<Rightarrow> int \<Rightarrow> 'k \<Rightarrow> int \<times> 'k" where
  "send_sig kill pid sig k = (if 0 < pid then kill pid sig k else (0, k))"

definition kill_pending :: "int \<Rightarrow> int \<Rightarrow> sig_state \<Rightarrow> int \<times> sig_state" where
  "kill_pending pid sig s = (0, s\<lparr>pending := (pending s)(pid := (pending s pid)(sig := True))\<rparr>)"

definition deliver1 :: "int \<Rightarrow> int \<Rightarrow> sig_state \<Rightarrow> sig_state" where
  "deliver1 pid sig s =
     (if pending s pid sig
      then signal_catcher sig (s\<lparr>pending := (pending s)(pid := (pending s pid)(sig := False))\<rparr>)
      else s)"

definition deliver :: "delivery \<Rightarrow> int \<Rightarrow> sig_state \<Rightarrow> sig_state" where
  "deliver oc pid s =
     (case oc of Hold \<Rightarrow> s | Deliver \<Rightarrow> deliver1 pid (sigs s 1) (deliver1 pid (sigs s 0) s))"

definition take_signal :: "nat \<Rightarrow> sig_state \<Rightarrow> bool \<times> sig_state" where
  "take_signal i s =
     (if signal_received s i = 0 then (False, s)
      else (True, s\<lparr>signal_received := (signal_received s)(i := 0)\<rparr>))"

definition signal_ops :: "int \<times> int \<Rightarrow> (delivery, sig_state) pp_ops" where
  "signal_ops pids st oc s =
     (case st of
        A1 \<Rightarrow> (let s1 = deliver oc (fst pids) s in (True, snd (send_sig kill_pending (snd pids) (sigs s1 1) s1)))
      | A2 \<Rightarrow> take_signal 0 (deliver oc (fst pids) s)
      | B1 \<Rightarrow> take_signal 1 (deliver oc (snd pids) s)
      | B2 \<Rightarrow> (let s1 = deliver oc (snd pids) s in (True, snd (send_sig kill_pending (fst pids) (sigs s1 0) s1))))"

text \<open>A signal under way is pending at its receiver or already noted, never both.\<close>

definition underway :: "int \<Rightarrow> nat \<Rightarrow> sig_state \<Rightarrow> bool" where
  "underway pid i s \<longleftrightarrow> (pending s pid (sigs s i) \<longleftrightarrow> signal_received s i = 0)"

definition quiet :: "int \<Rightarrow> nat \<Rightarrow> sig_state \<Rightarrow> bool" where
  "quiet pid i s \<longleftrightarrow> \<not> pending s pid (sigs s i) \<and> signal_received s i = 0"

definition signal_rep :: "int \<times> int \<Rightarrow> stage \<Rightarrow> sig_state \<Rightarrow> bool" where
  "signal_rep pids t s \<longleftrightarrow>
     0 < fst pids \<and> 0 < snd pids \<and> fst pids \<noteq> snd pids \<and> sigs s 0 \<noteq> sigs s 1
     \<and> \<not> pending s (fst pids) (sigs s 1) \<and> \<not> pending s (snd pids) (sigs s 0)
     \<and> (if t = A2 then underway (fst pids) 0 s else quiet (fst pids) 0 s)
     \<and> (if t = B1 then underway (snd pids) 1 s else quiet (snd pids) 1 s)"

lemmas signal_defs = signal_rep_def signal_ops_def deliver_def deliver1_def signal_catcher_def
  take_signal_def underway_def quiet_def send_sig_def kill_pending_def

lemma deliver_rep:
  "signal_rep pids t s \<Longrightarrow> signal_rep pids t (deliver oc (fst pids) s)"
  "signal_rep pids t s \<Longrightarrow> signal_rep pids t (deliver oc (snd pids) s)"
  by (cases t; cases oc; auto simp: signal_defs)+

text \<open>What one attempt does once the delivery, if any, has happened.\<close>

definition signal_act :: "int \<times> int \<Rightarrow> stage \<Rightarrow> sig_state \<Rightarrow> bool \<times> sig_state" where
  "signal_act pids st s =
     (case st of
        A1 \<Rightarrow> (True, snd (send_sig kill_pending (snd pids) (sigs s 1) s))
      | A2 \<Rightarrow> take_signal 0 s
      | B1 \<Rightarrow> take_signal 1 s
      | B2 \<Rightarrow> (True, snd (send_sig kill_pending (fst pids) (sigs s 0) s)))"

lemma signal_ops_act:
  "signal_ops pids t oc s =
     signal_act pids t (deliver oc (if t = A1 \<or> t = A2 then fst pids else snd pids) s)"
  by (cases t) (simp_all add: signal_ops_def signal_act_def Let_def)

lemma signal_act_turn:
  assumes "signal_rep pids t s" "signal_act pids t s = (ok, s')"
  shows "if ok then signal_rep pids (nxt Send_first t) s' else s' = s"
  using assms by (cases t) (auto simp: signal_defs signal_act_def split: if_splits)

lemma signal_act_parked:
  assumes "signal_rep pids t s"
  shows "signal_act pids (parked Send_first t) s = (False, s)"
  using assms by (cases t) (auto simp: signal_defs signal_act_def)

lemma deliver_any_rep:
  "signal_rep pids t s \<Longrightarrow> signal_rep pids t (deliver oc (if b then fst pids else snd pids) s)"
  by (simp add: deliver_rep)

lemma delivered_taken:
  "signal_rep pids A2 s \<Longrightarrow> fst (signal_ops pids A2 Deliver s)"
  "signal_rep pids B1 s \<Longrightarrow> fst (signal_ops pids B1 Deliver s)"
proof -
  assume "signal_rep pids A2 s"
  then have p: "\<not> pending s (fst pids) (sigs s 1)" "sigs s 0 \<noteq> sigs s 1"
    "pending s (fst pids) (sigs s 0) \<longleftrightarrow> signal_received s 0 = 0"
    by (simp_all add: signal_rep_def underway_def)
  show "fst (signal_ops pids A2 Deliver s)"
    using p by (cases "signal_received s 0 = 0")
      (simp_all add: signal_ops_def deliver_def deliver1_def signal_catcher_def take_signal_def)
next
  assume "signal_rep pids B1 s"
  then have p: "\<not> pending s (snd pids) (sigs s 0)" "sigs s 0 \<noteq> sigs s 1"
    "pending s (snd pids) (sigs s 1) \<longleftrightarrow> signal_received s 1 = 0"
    by (simp_all add: signal_rep_def underway_def)
  show "fst (signal_ops pids B1 Deliver s)"
    using p by (cases "signal_received s 1 = 0")
      (simp_all add: signal_ops_def deliver_def deliver1_def signal_catcher_def take_signal_def)
qed

interpretation signal: live_handshake "signal_ops pids" Send_first "signal_rep pids" for pids
proof
  fix t oc s s'
  assume "signal_rep pids t s" "signal_ops pids t oc s = (True, s')"
  then show "signal_rep pids (nxt Send_first t) s'"
    using signal_act_turn [OF deliver_any_rep, where ok = True] by (simp add: signal_ops_act)
next
  fix t oc s s'
  assume "signal_rep pids t s" "signal_ops pids t oc s = (False, s')"
  then show "signal_rep pids t s'"
    using signal_act_turn [OF deliver_any_rep, where ok = False] deliver_any_rep
    unfolding signal_ops_act if_False by metis
next
  fix t oc s ok s'
  let ?s1 = "deliver oc (if parked Send_first t = A1 \<or> parked Send_first t = A2 then fst pids else snd pids) s"
  assume "signal_rep pids t s" and o: "signal_ops pids (parked Send_first t) oc s = (ok, s')"
  then have r: "signal_rep pids t ?s1" by (simp only: deliver_any_rep)
  have "(ok, s') = (False, ?s1)" using o signal_act_parked [OF r] by (simp only: signal_ops_act)
  then show "\<not> ok \<and> signal_rep pids t s'" using r by simp
next
  fix t s
  assume r: "signal_rep pids t s"
  show "\<exists>oc. fst (signal_ops pids t oc s)"
  proof (cases t)
    case A2
    then show ?thesis using delivered_taken(1) r by blast
  next
    case B1
    then show ?thesis using delivered_taken(2) r by blast
  qed (simp_all add: signal_ops_def Let_def)
qed

lemma signal_pairs:
  assumes "make_pairs (make_signal_pair rtmax) s = Inr (w, s')" "sig_num s = 0"
    "pending s = (\<lambda>_ _. False)" "0 < fst pids" "0 < snd pids" "fst pids \<noteq> snd pids"
  shows "signal_rep pids A1 s'"
  using assms by (auto simp: make_pairs_def make_signal_pair_def signal_rep_def quiet_def Let_def)

section \<open>Futexes\<close>

text \<open>
  Both attachments of the shared segment are the same word \<open>f_val\<close>. In the wiring of this mode ping
  only uses descriptor 1 and pong only descriptor 0, so what a thread is doing is kept by its
  descriptor: whether it sleeps in \<^verbatim>\<open>FUTEX_WAIT\<close> or has been woken from it, and whether its
  \<^verbatim>\<open>do_send_futex\<close> has stored the value and is in the wake loop. One step is the store, or one
  futex call with the test of its loop.
\<close>

datatype waiting = Awake | Asleep | Woken

record futex_state =
  futex_num :: nat
  f_val :: int
  futex_vals :: "nat \<Rightarrow> int"
  f_wait :: "nat \<Rightarrow> waiting"
  f_stored :: "nat \<Rightarrow> bool"

definition other_fd :: "nat \<Rightarrow> nat" where
  "other_fd i = (if i = 0 then 1 else 0)"

definition make_futex_pair :: "futex_state \<Rightarrow> ((int \<times> int) \<times> futex_state) res" where
  "make_futex_pair s =
     (let i = futex_num s; s1 = s\<lparr>futex_vals := (futex_vals s)(i := 10 + int i)\<rparr>
      in Inr ((int i, int (other_fd i)), s1\<lparr>f_val := futex_vals s1 0, futex_num := i + 1\<rparr>))"

text \<open>\<^verbatim>\<open>FUTEX_WAKE\<close> of one waiter: how many it woke.\<close>

definition futex_wake :: "futex_state \<Rightarrow> int \<times> futex_state" where
  "futex_wake s =
     (if f_wait s 0 = Asleep then (1, s\<lparr>f_wait := (f_wait s)(0 := Woken)\<rparr>)
      else if f_wait s 1 = Asleep then (1, s\<lparr>f_wait := (f_wait s)(1 := Woken)\<rparr>)
      else (0, s))"

definition do_send_futex :: "bool \<Rightarrow> outcome \<Rightarrow> int \<Rightarrow> futex_state \<Rightarrow> int \<times> futex_state" where
  "do_send_futex stop oc fd s =
     (let i = nat fd in
      if \<not> f_stored s i then (0, s\<lparr>f_val := futex_vals s i, f_stored := (f_stored s)(i := True)\<rparr>)
      else (case futex_wake s of (r, s1) \<Rightarrow>
        if r = 0 \<and> \<not> stop then (0, s1)
        else (1, s1\<lparr>f_stored := (f_stored s1)(i := False)\<rparr>)))"

text \<open>
  \<^verbatim>\<open>FUTEX_WAIT\<close> by descriptor \<open>i\<close>: no answer while asleep, 0 when woken, -1 when interrupted or
  when the word does not have the expected value.
\<close>

definition futex_wait :: "outcome \<Rightarrow> nat \<Rightarrow> int \<Rightarrow> futex_state \<Rightarrow> int option \<times> futex_state" where
  "futex_wait oc i expected s =
     (case f_wait s i of
        Woken \<Rightarrow> (Some 0, s\<lparr>f_wait := (f_wait s)(i := Awake)\<rparr>)
      | Asleep \<Rightarrow>
          if oc = Done then (None, s) else (Some (-1), s\<lparr>f_wait := (f_wait s)(i := Awake)\<rparr>)
      | Awake \<Rightarrow>
          if f_val s = expected then (None, s\<lparr>f_wait := (f_wait s)(i := Asleep)\<rparr>) else (Some (-1), s))"

definition do_recv_futex :: "bool \<Rightarrow> outcome \<Rightarrow> int \<Rightarrow> futex_state \<Rightarrow> int \<times> futex_state" where
  "do_recv_futex stop oc fd s =
     (case futex_wait oc (nat fd) (futex_vals s (other_fd (nat fd))) s of
        (None, s1) \<Rightarrow> (0, s1)
      | (Some r, s1) \<Rightarrow> if r \<noteq> 0 \<and> \<not> stop then (0, s1) else (1, s1))"

definition futex_ops :: "bool \<Rightarrow> wiring \<Rightarrow> (outcome, futex_state) pp_ops" where
  "futex_ops stop = generic_ops (do_send_futex stop) (do_recv_futex stop)"

definition futex_wiring :: wiring where
  "futex_wiring = wire_pairs (0, 1) (1, 0)"

text \<open>
  The sender \<open>i\<close> has stored its value or not; only then can the other thread be asleep waiting.
\<close>

definition sending :: "nat \<Rightarrow> nat \<Rightarrow> futex_state \<Rightarrow> bool" where
  "sending i j s \<longleftrightarrow>
     f_wait s i = Awake \<and> f_wait s j \<noteq> Woken \<and> (f_wait s j = Asleep \<longrightarrow> f_stored s i)
     \<and> f_val s = (if f_stored s i then futex_vals s i else futex_vals s j) \<and> \<not> f_stored s j"

definition woken :: "nat \<Rightarrow> nat \<Rightarrow> futex_state \<Rightarrow> bool" where
  "woken i j s \<longleftrightarrow>
     f_wait s i = Awake \<and> f_wait s j = Woken \<and> f_val s = futex_vals s i
     \<and> \<not> f_stored s i \<and> \<not> f_stored s j"

definition futex_rep :: "stage \<Rightarrow> futex_state \<Rightarrow> bool" where
  "futex_rep t s \<longleftrightarrow> futex_vals s 0 \<noteq> futex_vals s 1
     \<and> (case t of A1 \<Rightarrow> sending 1 0 s | B1 \<Rightarrow> woken 1 0 s | B2 \<Rightarrow> sending 0 1 s | A2 \<Rightarrow> woken 0 1 s)"

lemmas futex_defs = futex_rep_def sending_def woken_def do_send_futex_def do_recv_futex_def
  futex_wake_def futex_wait_def other_fd_def

lemma futex_ops_simps [pp_ops]:
  "futex_ops stop futex_wiring A1 oc s = (case do_send_futex stop oc 1 s of (r, s') \<Rightarrow> (r = 1, s'))"
  "futex_ops stop futex_wiring A2 oc s = (case do_recv_futex stop oc 1 s of (r, s') \<Rightarrow> (r = 1, s'))"
  "futex_ops stop futex_wiring B1 oc s = (case do_recv_futex stop oc 0 s of (r, s') \<Rightarrow> (r = 1, s'))"
  "futex_ops stop futex_wiring B2 oc s = (case do_send_futex stop oc 0 s of (r, s') \<Rightarrow> (r = 1, s'))"
  by (simp_all add: futex_ops_def generic_ops_def futex_wiring_def wire_pairs_def)

lemma futex_send_turn:
  assumes "sending i j s" "futex_vals s i \<noteq> futex_vals s j" "{i, j} = {0, 1}"
    "do_send_futex False oc (int i) s = (r, s')"
  shows "futex_vals s' = futex_vals s \<and> (if r = 1 then woken i j s' else sending i j s')"
  using assms(1,2,4) assms(3) [unfolded doubleton_eq_iff]
  by (auto simp: sending_def woken_def do_send_futex_def futex_wake_def Let_def split: if_splits)

lemma futex_recv_turn:
  assumes "woken i j s" "futex_vals s i \<noteq> futex_vals s j" "{i, j} = {0, 1}"
    "do_recv_futex False oc (int j) s = (r, s')"
  shows "futex_vals s' = futex_vals s \<and> r = 1 \<and> sending j i s'"
  using assms(1,2,4) assms(3) [unfolded doubleton_eq_iff]
  by (auto simp: sending_def woken_def do_recv_futex_def futex_wait_def other_fd_def split: if_splits)

lemma futex_recv_parked:
  assumes "{i, j} = {0, 1}" "futex_vals s i \<noteq> futex_vals s j"
    "do_recv_futex False oc (int j) s = (r, s')" "sending i j s"
  shows "futex_vals s' = futex_vals s \<and> r \<noteq> 1 \<and> sending i j s'"
proof (cases "f_wait s j")
  case Awake
  have o: "other_fd j = i" using assms(1) by (auto simp: doubleton_eq_iff other_fd_def)
  have ij: "i \<noteq> j" using assms(1) by (auto simp: doubleton_eq_iff)
  show ?thesis using assms(2-4) Awake o ij
    by (cases "f_stored s i") (auto simp: sending_def do_recv_futex_def futex_wait_def)
next
  case Asleep
  have ij: "i \<noteq> j" using assms(1) by (auto simp: doubleton_eq_iff)
  show ?thesis using assms(3,4) Asleep ij
    by (cases oc) (auto simp: sending_def do_recv_futex_def futex_wait_def)
next
  case Woken
  then show ?thesis using assms(4) by (simp add: sending_def)
qed

lemma futex_recv_early:
  assumes "{i, j} = {0, 1}" "futex_vals s i \<noteq> futex_vals s j"
    "do_recv_futex False oc (int i) s = (r, s')" "woken i j s"
  shows "futex_vals s' = futex_vals s \<and> r \<noteq> 1 \<and> woken i j s'"
  using assms(2,3,4) assms(1) [unfolded doubleton_eq_iff]
  by (auto simp: woken_def do_recv_futex_def futex_wait_def other_fd_def split: if_splits)

lemma futex_pairs:
  assumes "make_pairs make_futex_pair s = Inr (w, s')" "futex_num s = 0"
    "f_wait s = (\<lambda>_. Awake)" "f_stored s = (\<lambda>_. False)"
  shows "w = futex_wiring \<and> futex_rep A1 s'"
  using assms by (auto simp: make_pairs_def make_futex_pair_def futex_rep_def sending_def
      futex_wiring_def other_fd_def Let_def)

interpretation futex: handshake "futex_ops False futex_wiring" Send_first futex_rep
proof -
  have ij: "{1::nat, 0} = {0, 1}" "{0::nat, 1} = {0, 1}" by auto
  note snd = futex_send_turn [OF _ _ ij(1)] futex_send_turn [OF _ _ ij(2)]
  note rcv = futex_recv_turn [OF _ _ ij(1)] futex_recv_turn [OF _ _ ij(2)]
  note prk = futex_recv_parked [OF ij(1)] futex_recv_parked [OF ij(2)]
  note erl = futex_recv_early [OF ij(1)] futex_recv_early [OF ij(2)]
  have act: "futex_rep (if ok then nxt Send_first t else t) s'"
    if r: "futex_rep t s" and o: "futex_ops False futex_wiring t oc s = (ok, s')" for t oc s ok s'
  proof (cases t)
    case A1
    then show ?thesis using r o snd(1) [of s oc _ s']
      by (auto simp: futex_rep_def pp_ops split: prod.splits if_splits)
  next
    case A2
    then show ?thesis using r o rcv(2) [of s oc _ s']
      by (auto simp: futex_rep_def pp_ops split: prod.splits if_splits)
  next
    case B1
    then show ?thesis using r o rcv(1) [of s oc _ s']
      by (auto simp: futex_rep_def pp_ops split: prod.splits if_splits)
  next
    case B2
    then show ?thesis using r o snd(2) [of s oc _ s']
      by (auto simp: futex_rep_def pp_ops split: prod.splits if_splits)
  qed
  have idle: "\<not> ok \<and> futex_rep t s'"
    if r: "futex_rep t s" and o: "futex_ops False futex_wiring (parked Send_first t) oc s = (ok, s')"
    for t oc s ok s'
  proof (cases t)
    case A1
    then show ?thesis using r o prk(1) [of s oc _ s']
      by (auto simp: futex_rep_def pp_ops split: prod.splits)
  next
    case A2
    then show ?thesis using r o erl(2) [of s oc _ s']
      by (auto simp: futex_rep_def pp_ops split: prod.splits)
  next
    case B1
    then show ?thesis using r o erl(1) [of s oc _ s']
      by (auto simp: futex_rep_def pp_ops split: prod.splits)
  next
    case B2
    then show ?thesis using r o prk(2) [of s oc _ s']
      by (auto simp: futex_rep_def pp_ops split: prod.splits)
  qed
  show "handshake (futex_ops False futex_wiring) Send_first futex_rep"
    using act idle by unfold_locales (fastforce split: if_splits)+
qed

text \<open>Before \<^verbatim>\<open>do_begin_sem\<close> neither thread gets past its first wait.\<close>

definition sem_idle :: "(nat \<Rightarrow> nat) pp \<Rightarrow> bool" where
  "sem_idle s \<longleftrightarrow> chan s 0 = 0 \<and> chan s 1 = 0 \<and> ping_pc s \<noteq> At_a2 \<and> pong_pc s = At_b1"

lemma sem_idle_step:
  assumes "sem_idle s" "ops = sem_ops \<or> ops = busysem_ops" "pp_step ops x s = (e, s')"
  shows "e = None \<and> sem_idle s'"
  using assms
  by (cases x; cases "fst x"; cases "ping_pc s")
    (auto simp: sem_idle_def pp_step_def ping_step_def pong_step_def sem_defs)

lemma sem_idle_run: "sem_idle s \<Longrightarrow> ops = sem_ops \<or> ops = busysem_ops \<Longrightarrow> pp_run ops xs s = (tr, s') \<Longrightarrow> tr = []"
proof (induction xs arbitrary: s tr)
  case (Cons x xs)
  obtain e s1 where e: "pp_step ops x s = (e, s1)" by fastforce
  from sem_idle_step [OF Cons.prems(1,2) e] Cons.IH [of s1] Cons.prems(2,3) e show ?case
    by (auto split: prod.splits)
qed simp

lemma sem_fresh:
  assumes "v 0 = 0" "v 1 = 0"
  shows "ops = sem_ops \<or> ops = busysem_ops \<Longrightarrow> fst (pp_run ops xs (pp_init v)) = []"
    "sem_rep A1 (snd (do_begin_sem Done v))"
proof -
  have "sem_idle (pp_init v)" using assms by (simp add: sem_idle_def pp_init_def)
  then show "ops = sem_ops \<or> ops = busysem_ops \<Longrightarrow> fst (pp_run ops xs (pp_init v)) = []"
    using sem_idle_run by (metis prod.collapse)
  show "sem_rep A1 (snd (do_begin_sem Done v))"
    using assms by (simp add: sem_rep_def do_begin_sem_def sem_post_def SEM_VALUE_MAX_def)
qed

text \<open>
  Any token left over breaks the mode: one on pong's semaphore lets pong run beside ping, one on ping's
  lets ping run twice; and either lets a thread run before the beginning.
\<close>

lemma sem_leftover:
  assumes "0 < v 0 \<or> 0 < v 1" "ops = sem_ops \<or> ops = busysem_ops"
  shows "\<not> alternates Wait_first ops (snd (do_begin_sem Done v))"
    and "\<exists>xs. fst (pp_run ops xs (pp_init v)) \<noteq> []"
proof -
  define c where "c = snd (do_begin_sem Done v)"
  show "\<not> alternates Wait_first ops (snd (do_begin_sem Done v))"
  proof (cases "0 < v 1")
    case True
    then have c: "0 < c 0" "0 < c 1" by (auto simp: c_def do_begin_sem_def sem_post_def SEM_VALUE_MAX_def)
    have "\<exists>s'. pp_run ops [(Ping, Done), (Ping, Done), (Pong, Done)] (pp_init c) = ([A1, B1], s')"
      using c assms(2) by (auto simp: pp_step_def ping_step_def pong_step_def pp_init_def sem_defs)
    moreover have "map (cyc Wait_first) [0..<length [A1, B1]] \<noteq> [A1, B1]"
      by (simp add: cyc_def numeral_2_eq_2)
    ultimately show ?thesis unfolding alternates_def c_def [symmetric] by metis
  next
    case False
    then have c: "1 < c 0" "c 1 = 0" using assms(1) by (auto simp: c_def do_begin_sem_def sem_post_def SEM_VALUE_MAX_def)
    have "\<exists>s'. pp_run ops [(Ping, Done), (Ping, Done), (Ping, Done), (Ping, Done), (Ping, Done)] (pp_init c) = ([A1, A2, A1], s')"
      using c assms(2)
      by (auto simp: pp_step_def ping_step_def pong_step_def pp_init_def sem_defs)
    moreover have "map (cyc Wait_first) [0..<length [A1, A2, A1]] \<noteq> [A1, A2, A1]"
      by (simp add: cyc_def numeral_2_eq_2 numeral_3_eq_3)
    ultimately show ?thesis unfolding alternates_def c_def [symmetric] by metis
  qed
  have "0 < v 0 \<Longrightarrow> fst (pp_run ops [(Ping, Done), (Ping, Done)] (pp_init v)) \<noteq> []"
    "0 < v 1 \<Longrightarrow> fst (pp_run ops [(Pong, Done)] (pp_init v)) \<noteq> []"
    using assms(2) by (auto simp: pp_step_def ping_step_def pong_step_def pp_init_def sem_defs)
  note moves = this
  show "\<exists>xs. fst (pp_run ops xs (pp_init v)) \<noteq> []"
    using assms(1) by (elim disjE) (rule exI, erule moves)+
qed

text \<open>The modes as their setup leaves them.\<close>

lemma sem_runs:
  assumes "make_pairs (make_sem_pair mode_name (\<lambda>_. Some v)) sem_initial = Inr (w, s)"
  shows "if v = 0 then
      (\<forall>xs. fst (pp_run sem_ops xs (pp_init (sem_value s))) = [])
      \<and> alternates Wait_first sem_ops (snd (do_begin_sem Done (sem_value s)))
      \<and> progresses Wait_first sem_ops (snd (do_begin_sem Done (sem_value s)))
      \<and> alternates Wait_first busysem_ops (snd (do_begin_sem Done (sem_value s)))
      \<and> progresses Wait_first busysem_ops (snd (do_begin_sem Done (sem_value s)))
    else \<not> alternates Wait_first sem_ops (snd (do_begin_sem Done (sem_value s)))"
proof (cases "v = 0")
  case True
  then have "sem_value s 0 = 0" "sem_value s 1 = 0" using sem_pairs [OF assms] by simp_all
  note f = sem_fresh [of "sem_value s", OF this]
  show ?thesis
    using True f by (simp add: sem.alternates_from sem.progresses_from busysem.alternates_from
        busysem.progresses_from)
next
  case False
  then show ?thesis using sem_pairs [OF assms] by (simp add: sem_leftover(1))
qed

lemma sem_values:
  assumes "make_pairs (make_sem_pair mode_name opens) sem_initial = Inr (w, s)" "opens 0 = Some v0" "opens 1 = Some v1"
    and "ops = sem_ops \<or> ops = busysem_ops"
  shows "(\<forall>xs. fst (pp_run ops xs (pp_init (sem_value s))) = []) \<longleftrightarrow> v0 = 0 \<and> v1 = 0"
    "alternates Wait_first ops (snd (do_begin_sem Done (sem_value s))) \<longleftrightarrow> v0 = 0 \<and> v1 = 0"
    "v0 = 0 \<and> v1 = 0 \<Longrightarrow> progresses Wait_first ops (snd (do_begin_sem Done (sem_value s)))"
proof -
  have v: "sem_value s 0 = v0" "sem_value s 1 = v1" using sem_pairs [OF assms(1)] assms(2,3) by simp_all
  have ok: "(\<forall>xs. fst (pp_run ops xs (pp_init (sem_value s))) = [])
      \<and> alternates Wait_first ops (snd (do_begin_sem Done (sem_value s)))
      \<and> progresses Wait_first ops (snd (do_begin_sem Done (sem_value s)))" if "v0 = 0 \<and> v1 = 0"
  proof -
    have z: "sem_value s 0 = 0" "sem_value s 1 = 0" using v that by simp_all
    show ?thesis using sem_fresh [OF z] assms(4)
      by (auto simp: sem.alternates_from sem.progresses_from busysem.alternates_from busysem.progresses_from)
  qed
  have bad: "\<not> (v0 = 0 \<and> v1 = 0) \<Longrightarrow> 0 < sem_value s 0 \<or> 0 < sem_value s 1" using v by auto
  show "(\<forall>xs. fst (pp_run ops xs (pp_init (sem_value s))) = []) \<longleftrightarrow> v0 = 0 \<and> v1 = 0"
    using ok sem_leftover(2) [OF bad assms(4)] by blast
  show "alternates Wait_first ops (snd (do_begin_sem Done (sem_value s))) \<longleftrightarrow> v0 = 0 \<and> v1 = 0"
    using ok sem_leftover(1) [OF bad assms(4)] by blast
  show "v0 = 0 \<and> v1 = 0 \<Longrightarrow> progresses Wait_first ops (snd (do_begin_sem Done (sem_value s)))"
    using ok by blast
qed

lemma mq_runs:
  assumes "make_pairs (make_mq_pair opened prio_max) s = Inr (w, s')"
    and "mq_num s = 0" "mq_queue s = (\<lambda>_. None)"
  shows "alternates Send_first (generic_ops do_send_mq do_recv_mq w) s'
       \<and> progresses Send_first (generic_ops do_send_mq do_recv_mq w) s'"
proof -
  have "mq_rep A1 s'" using mq_pairs [OF assms(1,2)] assms(3) by (simp add: mq_rep_def)
  then show ?thesis using mq.alternates_from mq.progresses_from mq_pairs(1) [OF assms(1,2)]
    by (simp add: mq_ops_def)
qed

lemma signal_runs:
  assumes "make_pairs (make_signal_pair SIGRTMAX) s = Inr (w, s')" "sig_num s = 0"
    and "pending s = (\<lambda>_ _. False)" "0 < ping_pid" "0 < pong_pid" "ping_pid \<noteq> pong_pid"
  shows "alternates Send_first (signal_ops (ping_pid, pong_pid)) s'
       \<and> progresses Send_first (signal_ops (ping_pid, pong_pid)) s'"
proof -
  have "signal_rep (ping_pid, pong_pid) A1 s'" using signal_pairs [OF assms(1-3)] assms(4-6) by simp
  then show ?thesis using signal.alternates_from signal.progresses_from by simp
qed

text \<open>
  What completes an operation of the futex mode: a send, that it has woken the other thread from its
  sleep; a receive, that its thread has been woken. \<open>sleeper\<close> is the descriptor of the thread concerned.
\<close>

fun sleeper :: "stage \<Rightarrow> nat" where
  "sleeper A1 = 0" | "sleeper B1 = 0" | "sleeper B2 = 1" | "sleeper A2 = 1"

definition wakes :: "stage \<Rightarrow> futex_state \<Rightarrow> futex_state \<Rightarrow> bool" where
  "wakes e c c' \<longleftrightarrow>
     (if e = A1 \<or> e = B2 then f_wait c (sleeper e) = Asleep \<and> f_wait c' (sleeper e) = Woken
      else f_wait c (sleeper e) = Woken \<and> f_wait c' (sleeper e) = Awake)"

lemma futex_op_wakes:
  assumes "futex_rep e c" "futex_ops False futex_wiring e oc c = (True, c')"
  shows "wakes e c c'"
  using assms
  by (cases e) (auto simp: wakes_def pp_ops futex_defs Let_def split: prod.splits if_splits waiting.splits)

lemma futex_step_wakes:
  assumes "turn Send_first futex_rep t p" "counted n p" "pp_step (futex_ops False futex_wiring) x p = (Some e, p')"
  shows "wakes e (chan p) (chan p')"
proof -
  have e: "e = t" using futex.step_turn [OF assms(1,3,2)] by simp
  have "\<exists>oc. futex_ops False futex_wiring e oc (chan p) = (True, chan p')"
    using assms(3) by (auto simp: pp_step_def ping_step_def pong_step_def split: tid.splits ping_pc.splits pong_pc.splits
        prod.splits if_splits)
  then show ?thesis using futex_op_wakes assms(1) e by (auto simp: turn_def)
qed

text \<open>An operation that has the turn completes within four steps, some of them of the other thread.\<close>

lemma futex_turn_completes:
  assumes "turn Send_first futex_rep t p"
  shows "\<exists>xs p'. length xs \<le> 4 \<and> pp_run (futex_ops False futex_wiring) xs p = ([t], p')"
proof (cases t)
  case A1
  let ?xs = "(if ping_pc p = At_count then [(Ping, Done)] else []) @ (if f_stored (chan p) 1 then [] else [(Ping, Done)])
    @ (if f_wait (chan p) 0 = Asleep then [] else [(Pong, Done)]) @ [(Ping, Done)]"
  have "fst (pp_run (futex_ops False futex_wiring) ?xs p) = [A1]"
    using assms A1
    by (cases "ping_pc p"; cases "f_stored (chan p) 1"; cases "f_wait (chan p) 0")
      (auto simp: turn_def pp_step_def ping_step_def pong_step_def pp_ops futex_defs Let_def)
  then show ?thesis using A1 by (intro exI [of _ ?xs]) (cases "pp_run (futex_ops False futex_wiring) ?xs p", simp)
next
  case B2
  let ?xs = "(if f_stored (chan p) 0 then [] else [(Pong, Done)])
    @ (if f_wait (chan p) 1 = Asleep then [] else [(Ping, Done)]) @ [(Pong, Done)]"
  have "fst (pp_run (futex_ops False futex_wiring) ?xs p) = [B2]"
    using assms B2
    by (cases "f_stored (chan p) 0"; cases "f_wait (chan p) 1")
      (auto simp: turn_def pp_step_def ping_step_def pong_step_def pp_ops futex_defs Let_def)
  then show ?thesis using B2 by (intro exI [of _ ?xs]) (cases "pp_run (futex_ops False futex_wiring) ?xs p", simp)
next
  case B1
  have "fst (pp_run (futex_ops False futex_wiring) [(Pong, Done)] p) = [B1]"
    using assms B1 by (auto simp: turn_def pp_step_def ping_step_def pong_step_def pp_ops futex_defs Let_def)
  then show ?thesis using B1
    by (intro exI [of _ "[(Pong, Done)]"]) (cases "pp_run (futex_ops False futex_wiring) [(Pong, Done)] p", simp)
next
  case A2
  have "fst (pp_run (futex_ops False futex_wiring) [(Ping, Done)] p) = [A2]"
    using assms A2 by (auto simp: turn_def pp_step_def ping_step_def pong_step_def pp_ops futex_defs Let_def)
  then show ?thesis using A2
    by (intro exI [of _ "[(Ping, Done)]"]) (cases "pp_run (futex_ops False futex_wiring) [(Ping, Done)] p", simp)
qed

lemma futex_progress:
  assumes "turn Send_first futex_rep (cyc Send_first k) p" "counted n p"
  shows "\<exists>xs p'. length xs \<le> 4 * m \<and> pp_run (futex_ops False futex_wiring) xs p = (map (cyc Send_first) [k..<k + m], p')"
  using assms
proof (induction m arbitrary: k p n)
  case (Suc m)
  obtain xs p1 where xs: "length xs \<le> 4" "pp_run (futex_ops False futex_wiring) xs p = ([cyc Send_first k], p1)"
    using futex_turn_completes [OF Suc.prems(1)] by blast
  have "turn Send_first futex_rep (cyc Send_first (Suc k)) p1" "counted (n + count_list [cyc Send_first k] A1) p1"
    using futex.run_turn [OF Suc.prems(1) xs(2) Suc.prems(2)] by simp_all
  from Suc.IH [OF this] obtain ys p2 where
    ys: "length ys \<le> 4 * m" "pp_run (futex_ops False futex_wiring) ys p1 = (map (cyc Send_first) [Suc k..<Suc k + m], p2)"
    by blast
  show ?case using xs ys cyc_range_Suc [of Send_first k m]
    by (intro exI [of _ "xs @ ys"] exI [of _ p2]) (simp add: pp_run_append del: upt_Suc)
qed (intro exI [of _ "[]"], simp)

lemma futex_runs:
  assumes "make_pairs make_futex_pair s = Inr (w, s')" "futex_num s = 0"
    and "f_wait s = (\<lambda>_. Awake)" "f_stored s = (\<lambda>_. False)"
  shows "alternates Send_first (generic_ops (do_send_futex False) (do_recv_futex False) w) s'
    \<and> (\<exists>xs t. pp_run (generic_ops (do_send_futex False) (do_recv_futex False) w) xs (pp_init s')
           = ([A1, B1, B2, A2], t) \<and> chan t = s')"
proof
  note w = futex_pairs [OF assms]
  then show "alternates Send_first (generic_ops (do_send_futex False) (do_recv_futex False) w) s'"
    using futex.alternates_from [of s'] by (simp add: futex_ops_def)
  have i: "f_wait s' 0 = Awake" "f_wait s' 1 = Awake" "f_stored s' 0 = False" "f_stored s' 1 = False"
    "f_val s' = 10" "futex_vals s' 0 = 10" "futex_vals s' 1 = 11"
    using assms by (auto simp: make_pairs_def make_futex_pair_def Let_def)
  let ?xs = "map (\<lambda>t. (t, Done)) [Ping, Ping, Pong, Ping, Pong, Pong, Ping, Pong, Ping]"
  have "fst (pp_run (futex_ops False futex_wiring) ?xs (pp_init s')) = [A1, B1, B2, A2]"
    "chan (snd (pp_run (futex_ops False futex_wiring) ?xs (pp_init s'))) = s'"
    using i by (simp_all add: pp_step_def ping_step_def pong_step_def pp_init_def pp_ops futex_defs
        fun_upd_idem Let_def)
  then show "\<exists>xs t. pp_run (generic_ops (do_send_futex False) (do_recv_futex False) w) xs (pp_init s')
           = ([A1, B1, B2, A2], t) \<and> chan t = s'"
    using w unfolding futex_ops_def by (metis prod.collapse)
qed

section \<open>Properties\<close>

text \<open>
  C11: the semaphore modes, blocking and busy, on semaphores that \<^verbatim>\<open>sem_open\<close> without \<^verbatim>\<open>O_EXCL\<close> takes with
  the values they have: nothing moves until \<^verbatim>\<open>do_begin_sem\<close> posts the first one, and then waits and posts
  strictly alternate, exactly if both values are 0; and then the loops never get stuck. One token
  left over by an earlier run, on either semaphore, is enough to break both.
\<close>

theorem sem_modes_correct:
  assumes "make_pairs (make_sem_pair mode_name opens) sem_initial = Inr (w, s)" "opens 0 = Some v0" "opens 1 = Some v1"
    and "ops = sem_ops \<or> ops = busysem_ops"
  shows "((\<forall>xs. fst (pp_run ops xs (pp_init (sem_value s))) = []) \<longleftrightarrow> v0 = 0 \<and> v1 = 0)
    \<and> (alternates Wait_first ops (snd (do_begin_sem Done (sem_value s))) \<longleftrightarrow> v0 = 0 \<and> v1 = 0)
    \<and> (v0 = 0 \<and> v1 = 0 \<longrightarrow> progresses Wait_first ops (snd (do_begin_sem Done (sem_value s))))"
  using sem_values [OF assms] by blast

theorem sem_modes_correct_witness:
  "(\<exists>w s. make_pairs (make_sem_pair ''sem'' (\<lambda>_. Some 0)) sem_initial = Inr (w, s)
      \<and> alternates Wait_first sem_ops (snd (do_begin_sem Done (sem_value s))))
   \<and> (\<exists>w s. make_pairs (make_sem_pair ''busysem'' (\<lambda>i. Some i)) sem_initial = Inr (w, s)
      \<and> \<not> alternates Wait_first busysem_ops (snd (do_begin_sem Done (sem_value s))))"
proof -
  obtain w s where p: "make_pairs (make_sem_pair ''sem'' (\<lambda>_. Some 0)) sem_initial = Inr (w, s)"
    by (simp add: make_pairs_def make_sem_pair_def Let_def)
  obtain w2 s2 where q: "make_pairs (make_sem_pair ''busysem'' (\<lambda>i. Some i)) sem_initial = Inr (w2, s2)"
    by (simp add: make_pairs_def make_sem_pair_def Let_def)
  show ?thesis
    using sem_modes_correct [OF p refl refl, of sem_ops] sem_modes_correct [OF q refl refl, of busysem_ops] p q by auto
qed

text \<open>
  The message queue mode is correct with the generic loops: a send that finds the one place of
  the queue taken and a receive that finds none are repeated, and sends and receives alternate.
\<close>

lemma mq_mode_correct:
  assumes "make_pairs (make_mq_pair opened prio_max) s = Inr (w, s')"
    and "mq_num s = 0" "mq_queue s = (\<lambda>_. None)"
  shows "alternates Send_first (generic_ops do_send_mq do_recv_mq w) s'
       \<and> progresses Send_first (generic_ops do_send_mq do_recv_mq w) s'"
  using assms by (rule mq_runs)

text \<open>
  C10: the signal mode between two processes: whenever the pending signals are delivered, the
  signals sent and the flags taken strictly alternate, so none is lost by the reset of a flag, and
  it never gets stuck.
\<close>

theorem signal_mode_correct:
  assumes "make_pairs (make_signal_pair SIGRTMAX) s = Inr (w, s')" "sig_num s = 0"
    and "pending s = (\<lambda>_ _. False)" "0 < ping_pid" "0 < pong_pid" "ping_pid \<noteq> pong_pid"
  shows "alternates Send_first (signal_ops (ping_pid, pong_pid)) s'
       \<and> progresses Send_first (signal_ops (ping_pid, pong_pid)) s'"
  using assms by (rule signal_runs)

theorem signal_mode_correct_witness:
  "\<exists>w s'. make_pairs (make_signal_pair 64)
        \<lparr>sig_num = 0, sigs = (\<lambda>_. 0), signal_received = (\<lambda>_. 0), pending = (\<lambda>_ _. False)\<rparr> = Inr (w, s')
     \<and> sigs s' 0 = 63 \<and> sigs s' 1 = 62
     \<and> alternates Send_first (signal_ops (100, 101)) s'"
proof -
  obtain w s' where p: "make_pairs (make_signal_pair 64)
        \<lparr>sig_num = 0, sigs = (\<lambda>_. 0), signal_received = (\<lambda>_. 0), pending = (\<lambda>_ _. False)\<rparr> = Inr (w, s')"
    "sigs s' 0 = 63" "sigs s' 1 = 62"
    by (simp add: make_pairs_def make_signal_pair_def Let_def)
  from signal_mode_correct [OF p(1), of 100 101] p show ?thesis by fastforce
qed

text \<open>
  C12: the futex mode, with the identifiers and values its setup gives out, whatever interruptions and early
  waits happen: a send completes only by waking the other thread from its sleep, and a receive only
  when its thread has been woken; so they strictly alternate. From any state they reach, \<open>m\<close> more
  operations can be completed in \<open>4 * m\<close> steps: a waker that comes too early goes on until there is a sleeper.
\<close>

theorem futex_mode_correct:
  assumes "make_pairs make_futex_pair s = Inr (w, s')" "futex_num s = 0"
    and "f_wait s = (\<lambda>_. Awake)" "f_stored s = (\<lambda>_. False)"
    and "ops = generic_ops (do_send_futex False) (do_recv_futex False) w" "pp_run ops xs (pp_init s') = (tr, p)"
  shows "alternates Send_first ops s'
    \<and> (\<forall>x e p'. pp_step ops x p = (Some e, p') \<longrightarrow> wakes e (chan p) (chan p'))
    \<and> (\<exists>ys p'. length ys \<le> 4 * m \<and> pp_run ops ys p = (map (cyc Send_first) [length tr..<length tr + m], p'))"
proof -
  note w = futex_pairs [OF assms(1-4)]
  have o: "ops = futex_ops False futex_wiring" using w assms(5) by (simp add: futex_ops_def)
  have rep: "futex_rep A1 s'" using w by blast
  note t = futex.run_turn [OF turn_init [where rep = futex_rep and ord = Send_first, OF rep] assms(6) [unfolded o] counted_init]
  have "wakes e (chan p) (chan p')" if "pp_step ops x p = (Some e, p')" for x e p'
    using futex_step_wakes t that unfolding o by blast
  moreover have "\<exists>ys p'. length ys \<le> 4 * m \<and> pp_run ops ys p = (map (cyc Send_first) [length tr..<length tr + m], p')"
    using futex_progress [of "length tr" p _ m] t unfolding o by auto
  ultimately show ?thesis using futex.alternates_from [OF rep] unfolding o by blast
qed

theorem futex_mode_correct_witness:
  "\<exists>w s' x e p'. make_pairs make_futex_pair
        \<lparr>futex_num = 0, f_val = 0, futex_vals = (\<lambda>_. 0), f_wait = (\<lambda>_. Awake), f_stored = (\<lambda>_. False)\<rparr>
      = Inr (w, s') \<and> w = futex_wiring
     \<and> (\<exists>p. pp_run (generic_ops (do_send_futex False) (do_recv_futex False) w)
              [(Ping, Done), (Ping, Done), (Pong, Done)] (pp_init s') = ([], p)
          \<and> pp_step (generic_ops (do_send_futex False) (do_recv_futex False) w) x p = (Some e, p') \<and> wakes e (chan p) (chan p'))"
proof -
  obtain w s' where p: "make_pairs make_futex_pair
        \<lparr>futex_num = 0, f_val = 0, futex_vals = (\<lambda>_. 0), f_wait = (\<lambda>_. Awake), f_stored = (\<lambda>_. False)\<rparr>
      = Inr (w, s')" "w = futex_wiring" "futex_rep A1 s'" "f_stored s' 1 = False" "f_wait s' 0 = Awake"
    by (simp add: make_pairs_def make_futex_pair_def futex_wiring_def futex_defs Let_def)
  let ?ops = "generic_ops (do_send_futex False) (do_recv_futex False) w"
  have o: "?ops = futex_ops False futex_wiring" using p(2) by (simp add: futex_ops_def)
  obtain q where q: "pp_run ?ops [(Ping, Done), (Ping, Done), (Pong, Done)] (pp_init s') = ([], q)"
      "ping_pc q = At_a1" "f_stored (chan q) 1" "f_wait (chan q) 0 = Asleep"
    using p(3-5) unfolding o by (simp add: pp_step_def ping_step_def pong_step_def pp_init_def pp_ops futex_defs Let_def)
  then have "fst (pp_step ?ops (Ping, Done) q) = Some A1"
    unfolding o by (simp add: pp_step_def ping_step_def pp_ops do_send_futex_def futex_wake_def Let_def)
  then obtain p' where st: "pp_step ?ops (Ping, Done) q = (Some A1, p')" by (metis prod.collapse)
  have "wakes A1 (chan q) (chan p')"
    using futex_mode_correct [OF p(1) _ _ _ refl q(1), of 0] st by simp
  with p(1,2) q(1) st show ?thesis by blast
qed

end
