(* ===== verification/Futex_Test_Mode.thy ===== *)
theory Futex_Test_Mode
  imports Sync_Modes
begin

text \<open>
  \<^verbatim>\<open>comms/futex_test.c\<close>: both threads call \<^verbatim>\<open>FUTEX_WAKE\<close> and \<^verbatim>\<open>FUTEX_WAIT\<close> on one value, with loops that wait
  for the result 1. As futex(2) documents it, a wait returns 0 when it was woken and \<open>-1\<close> otherwise
  (at once if the value is not the expected one, or when a signal arrives), and never 1.
\<close>

section \<open>State and calls\<close>

record ft_state =
  ft_num :: nat
  ft_value :: int
  ft_wait :: "tid \<Rightarrow> waiting"
  ft_id :: "nat \<Rightarrow> int option"
  ft_vals :: "nat \<Rightarrow> int"

text \<open>The static variables are zero at first; a \<^verbatim>\<open>futex_id\<close> that is no null pointer is the word it points to.\<close>

definition ft_initial :: ft_state where
  "ft_initial = \<lparr>ft_num = 0, ft_value = 0, ft_wait = (\<lambda>_. Awake), ft_id = (\<lambda>_. None), ft_vals = (\<lambda>_. 0)\<rparr>"

definition make_futex_test_pair :: "ft_state \<Rightarrow> ((int \<times> int) \<times> ft_state) res" where
  "make_futex_test_pair s =
     (let i = ft_num s; s1 = (if i = 0 then s\<lparr>ft_value := 0\<rparr> else s)
      in Inr ((int i, int (other_fd i)), s1\<lparr>ft_num := i + 1\<rparr>))"

text \<open>
  What the environment may add to a call: a wake that asks for no thread may wake one all the same
  (as Linux does), and a thread that sleeps may get a signal.
\<close>

datatype ft_out = Plain | Disturbed

definition ft_wake_call :: "ft_out \<Rightarrow> ft_state \<Rightarrow> int \<times> ft_state" where
  "ft_wake_call oc s =
     (if oc = Disturbed \<and> ft_wait s Pong = Asleep then (1, s\<lparr>ft_wait := (ft_wait s)(Pong := Woken)\<rparr>) else (0, s))"

text \<open>A wait: \<open>None\<close> while it sleeps, otherwise what it returns.\<close>

definition ft_wait_call :: "tid \<Rightarrow> int \<Rightarrow> ft_out \<Rightarrow> ft_state \<Rightarrow> int option \<times> ft_state" where
  "ft_wait_call t val oc s =
     (case ft_wait s t of
        Awake \<Rightarrow> if ft_value s \<noteq> val then (Some (-1), s) else (None, s\<lparr>ft_wait := (ft_wait s)(t := Asleep)\<rparr>)
      | Asleep \<Rightarrow> if oc = Disturbed then (Some (-1), s\<lparr>ft_wait := (ft_wait s)(t := Awake)\<rparr>) else (None, s)
      | Woken \<Rightarrow> (Some 0, s\<lparr>ft_wait := (ft_wait s)(t := Awake)\<rparr>))"

definition loop_wait :: "tid \<Rightarrow> int \<Rightarrow> ft_out \<Rightarrow> ft_state \<Rightarrow> bool \<times> ft_state" where
  "loop_wait t val oc s =
     (case ft_wait_call t val oc s of (r, s1) \<Rightarrow> (case r of None \<Rightarrow> False | Some x \<Rightarrow> \<not> x \<noteq> 1, s1))"

section \<open>The loops\<close>

text \<open>
  \<^verbatim>\<open>comm_ping_futex_test\<close> and \<^verbatim>\<open>comm_pong_futex_test\<close>, with \<^verbatim>\<open>thread_num\<close> 0 and 1: ping's first loop tests
  the negated result of its wake, its second waits for the value 1; pong waits for 0 and then for 1.
\<close>

definition futex_test_ops :: "(ft_out, ft_state) pp_ops" where
  "futex_test_ops st oc s =
     (case st of
        A1 \<Rightarrow> (case ft_wake_call oc s of (r, s1) \<Rightarrow> (\<not> (if r = 0 then 1 else 0) \<noteq> (1 :: int), s1))
      | A2 \<Rightarrow> loop_wait Ping 1 oc s
      | B1 \<Rightarrow> loop_wait Pong 0 oc s
      | B2 \<Rightarrow> loop_wait Pong 1 oc s)"

lemma loop_wait_never: "\<not> fst (loop_wait t val oc s)"
  by (simp add: loop_wait_def ft_wait_call_def split: waiting.splits)

text \<open>What every run looks like: ping is in its first round and pong in its first wait.\<close>

definition first_round :: "stage list \<Rightarrow> ft_state pp \<Rightarrow> bool" where
  "first_round tr s \<longleftrightarrow> pong_pc s = At_b1
     \<and> (case ping_pc s of
          At_count \<Rightarrow> tr = [] \<and> ping_count s = 0
        | At_a1 \<Rightarrow> tr = [] \<and> ping_count s = 1
        | At_a2 \<Rightarrow> tr = [A1] \<and> ping_count s = 1)"

lemma first_round_step:
  assumes "first_round tr s" "pp_step futex_test_ops x s = (e, s')"
  shows "first_round (tr @ (case e of None \<Rightarrow> [] | Some t \<Rightarrow> [t])) s'"
proof (cases "fst x")
  case Ping
  then show ?thesis
    using assms loop_wait_never [of Ping 1 "snd x" "chan s"]
    by (cases "ping_pc s") (auto simp: first_round_def pp_step_def ping_step_def futex_test_ops_def
        split: prod.splits if_splits)
next
  case Pong
  then show ?thesis
    using assms loop_wait_never [of Pong 0 "snd x" "chan s"]
    by (cases "ping_pc s") (auto simp: first_round_def pp_step_def pong_step_def futex_test_ops_def
        split: prod.splits)
qed

lemma first_round_run:
  assumes "first_round tr s" "pp_run futex_test_ops xs s = (es, s')"
  shows "first_round (tr @ es) s'"
  using assms
proof (induction xs arbitrary: tr s es)
  case (Cons x xs)
  obtain e s1 where st: "pp_step futex_test_ops x s = (e, s1)" by fastforce
  obtain es1 where r: "pp_run futex_test_ops xs s1 = (es1, s')"
    "es = (case e of None \<Rightarrow> es1 | Some t \<Rightarrow> t # es1)"
    using Cons.prems(2) st by (auto split: prod.splits)
  from Cons.IH [OF first_round_step [OF Cons.prems(1) st] r(1)] r(2) show ?case by (cases e) auto
qed simp

section \<open>The send and receive functions\<close>

text \<open>
  \<^verbatim>\<open>do_send_futex_test\<close> and \<^verbatim>\<open>do_recv_futex_test\<close>, one round of the loop each; \<open>r\<close> is what the futex call
  returns (with a null pointer a wait fails at once), \<open>None\<close> means another round.
\<close>

definition do_send_futex_test :: "int \<Rightarrow> nat \<Rightarrow> ft_state \<Rightarrow> (int option \<times> ft_state) res" where
  "do_send_futex_test r fd s =
     (case ft_id s fd of
        None \<Rightarrow> Inl Null_pointer
      | Some x \<Rightarrow> Inr (if r = 0 then None else Some 1, s\<lparr>ft_id := (ft_id s)(fd := Some (ft_vals s fd))\<rparr>))"

definition do_recv_futex_test :: "int \<Rightarrow> nat \<Rightarrow> ft_state \<Rightarrow> int option" where
  "do_recv_futex_test r fd s = (if (if ft_id s fd = None then -1 else r) \<noteq> 0 then None else Some 1)"

lemma futex_test_unattached:
  "\<exists>p s1 q s2. make_futex_test_pair ft_initial = Inr (p, s1) \<and> make_futex_test_pair s1 = Inr (q, s2)
     \<and> (\<forall>r fd. do_send_futex_test r fd s2 = Inl Null_pointer \<and> do_recv_futex_test r fd s2 = None)"
  by (simp add: make_futex_test_pair_def ft_initial_def do_send_futex_test_def do_recv_futex_test_def)

section \<open>Properties\<close>

text \<open>
  C28: the futex_test mode never passes the turn: under every schedule, whatever is woken or
  interrupted, ping counts one round and at most gets through its wake, pong never gets through
  its first wait, and so the mode is no transport that progresses. Its send and receive functions would not
  do either: the setup attaches no segment, so one writes through a null pointer and the other never returns.
\<close>

theorem futex_test_never_passes:
  "fst (pp_run futex_test_ops xs (pp_init c)) \<in> {[], [A1]}
   \<and> ping_count (snd (pp_run futex_test_ops xs (pp_init c))) \<in> {0, 1}
   \<and> \<not> progresses Send_first futex_test_ops c
   \<and> (\<exists>p s1 q s2. make_futex_test_pair ft_initial = Inr (p, s1) \<and> make_futex_test_pair s1 = Inr (q, s2)
        \<and> (\<forall>r fd. do_send_futex_test r fd s2 = Inl Null_pointer \<and> do_recv_futex_test r fd s2 = None))"
proof -
  have run: "first_round (fst (pp_run futex_test_ops ys (pp_init c))) (snd (pp_run futex_test_ops ys (pp_init c)))" for ys
    using first_round_run [where tr = "[]" and s = "pp_init c" and xs = ys, OF _ surjective_pairing]
    by (simp add: first_round_def pp_init_def)
  have f: "fst (pp_run futex_test_ops ys (pp_init c)) \<in> {[], [A1]}" for ys
    using run [of ys] by (auto simp: first_round_def split: ping_pc.splits)
  have "\<not> progresses Send_first futex_test_ops c"
  proof
    assume "progresses Send_first futex_test_ops c"
    then obtain ys s' where "pp_run futex_test_ops ys (pp_init c) = (map (cyc Send_first) [0..<2], s')"
      unfolding progresses_def using pp_run.simps(1) [of futex_test_ops "pp_init c"] by (metis add_0 list.size(3))
    with f [of ys] show False by (simp add: numeral_2_eq_2)
  qed
  moreover have "ping_count (snd (pp_run futex_test_ops xs (pp_init c))) \<in> {0, 1}"
    using run [of xs] by (auto simp: first_round_def split: ping_pc.splits)
  ultimately show ?thesis using f [of xs] futex_test_unattached by blast
qed

end
