(* ===== verification/Cleanup.thy ===== *)
theory Cleanup
  imports Inotify_Mode Futex_Test_Mode
begin

text \<open>
  The objects that outlive a process, which some modes create in their setup and remove in their
  \<^verbatim>\<open>comm_cleanup\<close>: named semaphores (\<^verbatim>\<open>comms/sem.c\<close>), message queues (\<^verbatim>\<open>comms/mq.c\<close>), fifos and files in
  \<^verbatim>\<open>/dev/shm\<close> (\<^verbatim>\<open>comms/namedpipe.c\<close>, \<^verbatim>\<open>comms/inotify.c\<close>) and shared memory segments (\<^verbatim>\<open>comms/futex.c\<close>,
  \<^verbatim>\<open>comms/futex_test.c\<close>). Both children and the monitor call the cleanup; removing a name that is gone
  fails and changes nothing. Closing descriptors and unmapping memory end with the process anyway.
\<close>

section \<open>Names\<close>

record names =
  nm_sems :: "string \<rightharpoonup> nat"
  nm_mqs :: "string \<rightharpoonup> (char \<times> 32 word) option"
  nm_files :: "string set"
  nm_shms :: "nat set"
  nm_next_shm :: nat

text \<open>\<^verbatim>\<open>sem_open\<close> with \<^verbatim>\<open>O_CREAT\<close>: the value of the semaphore, which is 0 only if it is new.\<close>

definition sem_open :: "string \<Rightarrow> names \<Rightarrow> nat \<times> names" where
  "sem_open name ns =
     (case nm_sems ns name of
        Some v \<Rightarrow> (v, ns)
      | None \<Rightarrow> (0, ns\<lparr>nm_sems := (nm_sems ns)(name \<mapsto> 0)\<rparr>))"

definition sem_unlink :: "string \<Rightarrow> names \<Rightarrow> names" where
  "sem_unlink name ns = ns\<lparr>nm_sems := (nm_sems ns)(name := None)\<rparr>"

definition mq_open :: "string \<Rightarrow> names \<Rightarrow> (char \<times> 32 word) option \<times> names" where
  "mq_open name ns =
     (case nm_mqs ns name of
        Some q \<Rightarrow> (q, ns)
      | None \<Rightarrow> (None, ns\<lparr>nm_mqs := (nm_mqs ns)(name \<mapsto> None)\<rparr>))"

definition mq_unlink :: "string \<Rightarrow> names \<Rightarrow> names" where
  "mq_unlink name ns = ns\<lparr>nm_mqs := (nm_mqs ns)(name := None)\<rparr>"

definition mkfifo :: "string \<Rightarrow> names \<Rightarrow> bool \<times> names" where
  "mkfifo name ns = (if name \<in> nm_files ns then (False, ns) else (True, ns\<lparr>nm_files := insert name (nm_files ns)\<rparr>))"

definition unlink :: "string \<Rightarrow> names \<Rightarrow> names" where
  "unlink name ns = ns\<lparr>nm_files := nm_files ns - {name}\<rparr>"

definition shmget :: "names \<Rightarrow> nat \<times> names" where
  "shmget ns = (nm_next_shm ns, ns\<lparr>nm_shms := insert (nm_next_shm ns) (nm_shms ns), nm_next_shm := Suc (nm_next_shm ns)\<rparr>)"

section \<open>The modes\<close>

text \<open>Semaphores: \<^verbatim>\<open>sem_names\<close>, the two openings of the setup with the pairs made of them, the cleanup.\<close>

definition sem_names :: "nat \<Rightarrow> string" where
  "sem_names i = (if i = 0 then ''ping'' else ''pong'')"

definition setup_sem :: "string \<Rightarrow> names \<Rightarrow> (wiring \<times> sem_state) res \<times> names" where
  "setup_sem mode_name ns =
     (let (v0, ns1) = sem_open (sem_names 0) ns; (v1, ns2) = sem_open (sem_names 1) ns1
      in (make_pairs (make_sem_pair mode_name (\<lambda>i. Some (if i = 0 then v0 else v1))) sem_initial, ns2))"

definition cleanup_sem :: "names \<Rightarrow> names" where
  "cleanup_sem ns = sem_unlink (sem_names 1) (sem_unlink (sem_names 0) ns)"

text \<open>Message queues, named after the program (\<open>base\<close> is \<^verbatim>\<open>basename(config.argv0)\<close>).\<close>

definition mqueue_path :: "string \<Rightarrow> nat \<Rightarrow> string" where
  "mqueue_path base i = ''/'' @ base @ (if i = 0 then ''ping'' else ''pong'')"

definition setup_mq :: "string \<Rightarrow> int \<Rightarrow> mq_state \<Rightarrow> names \<Rightarrow> (wiring \<times> mq_state) res \<times> names" where
  "setup_mq base prio_max s ns =
     (let (q0, ns1) = mq_open (mqueue_path base 0) ns; (q1, ns2) = mq_open (mqueue_path base 1) ns1
      in (make_pairs (make_mq_pair (\<lambda>_. True) prio_max)
            (s\<lparr>mq_queue := (\<lambda>i. if i = 0 then q0 else if i = 1 then q1 else None)\<rparr>), ns2))"

definition cleanup_mq :: "string \<Rightarrow> names \<Rightarrow> names" where
  "cleanup_mq base ns = mq_unlink (mqueue_path base 1) (mq_unlink (mqueue_path base 0) ns)"

text \<open>Named pipes: an existing name makes \<^verbatim>\<open>mkfifo\<close> fail, and the program ends.\<close>

definition namedpipe_names :: "nat \<Rightarrow> string" where
  "namedpipe_names i = (if i = 0 then ''/dev/shm/ping_namedpipe'' else ''/dev/shm/pong_namedpipe'')"

definition setup_namedpipe :: "fds_state \<Rightarrow> names \<Rightarrow> (wiring \<times> fds_state) res \<times> names" where
  "setup_namedpipe s ns =
     (let (ok0, ns1) = mkfifo (namedpipe_names 0) ns;
          (ok1, ns2) = (if ok0 then mkfifo (namedpipe_names 1) ns1 else (True, ns1))
      in (make_pairs (comm_makepair_namedpipe (\<not> ok0, \<not> ok1) (False, False)) s, ns2))"

definition comm_cleanup_namedpipe :: "names \<Rightarrow> names" where
  "comm_cleanup_namedpipe ns = unlink (namedpipe_names 1) (unlink (namedpipe_names 0) ns)"

text \<open>Futexes: one segment, by its id. The futex_test mode defines a cleanup and does not install it.\<close>

definition setup_futex_shm :: "names \<Rightarrow> nat \<times> names" where
  "setup_futex_shm ns = shmget ns"

definition cleanup_futex :: "nat \<Rightarrow> names \<Rightarrow> names" where
  "cleanup_futex shm_id ns = ns\<lparr>nm_shms := nm_shms ns - {shm_id}\<rparr>"

text \<open>Inotify: the files are created by \<^verbatim>\<open>open\<close> and never removed.\<close>

definition ino_names :: "nat \<Rightarrow> string" where
  "ino_names i = (if i = 0 then ''/dev/shm/ping.ino'' else ''/dev/shm/pong.ino'')"

definition setup_inotify_files :: "names \<Rightarrow> names" where
  "setup_inotify_files ns = ns\<lparr>nm_files := {ino_names 0, ino_names 1} \<union> nm_files ns\<rparr>"

definition cleanup_inotify :: "names \<Rightarrow> names" where
  "cleanup_inotify ns = ns"

section \<open>Lemmas\<close>

lemmas name_ops = sem_open_def sem_unlink_def mq_open_def mq_unlink_def mkfifo_def unlink_def shmget_def

lemma names_distinct [simp]:
  "sem_names 0 \<noteq> sem_names (Suc 0)" "mqueue_path base 0 \<noteq> mqueue_path base (Suc 0)"
  "namedpipe_names 0 \<noteq> namedpipe_names (Suc 0)" "ino_names 0 \<noteq> ino_names (Suc 0)"
  "sem_names (Suc 0) \<noteq> sem_names 0" "mqueue_path base (Suc 0) \<noteq> mqueue_path base 0"
  "namedpipe_names (Suc 0) \<noteq> namedpipe_names 0" "ino_names (Suc 0) \<noteq> ino_names 0"
  by (simp_all add: sem_names_def mqueue_path_def namedpipe_names_def ino_names_def)

lemma unlink_absent: "m a = None \<Longrightarrow> m b = None \<Longrightarrow> m(a := None, b := None) = m"
  by auto

lemma setup_sem_fresh:
  assumes "nm_sems ns (sem_names 0) = None" "nm_sems ns (sem_names 1) = None"
  shows "fst (setup_sem mode ns) = make_pairs (make_sem_pair mode (\<lambda>_. Some 0)) sem_initial"
    and "snd (setup_sem mode ns) = ns\<lparr>nm_sems := (nm_sems ns)(sem_names 0 \<mapsto> 0, sem_names 1 \<mapsto> 0)\<rparr>"
  using assms by (simp_all add: setup_sem_def sem_open_def)

lemma setup_mq_fresh:
  assumes "nm_mqs ns (mqueue_path base 0) = None" "nm_mqs ns (mqueue_path base 1) = None"
  shows "fst (setup_mq base prio_max s ns) = make_pairs (make_mq_pair (\<lambda>_. True) prio_max) (s\<lparr>mq_queue := (\<lambda>_. None)\<rparr>)"
    and "snd (setup_mq base prio_max s ns) =
      ns\<lparr>nm_mqs := (nm_mqs ns)(mqueue_path base 0 \<mapsto> None, mqueue_path base 1 \<mapsto> None)\<rparr>"
proof -
  have q: "(\<lambda>i. if i = 0 then None else if i = 1 then None else None) = (\<lambda>_ :: nat. None :: (char \<times> 32 word) option)" by auto
  show "fst (setup_mq base prio_max s ns) = make_pairs (make_mq_pair (\<lambda>_. True) prio_max) (s\<lparr>mq_queue := (\<lambda>_. None)\<rparr>)"
    "snd (setup_mq base prio_max s ns) =
      ns\<lparr>nm_mqs := (nm_mqs ns)(mqueue_path base 0 \<mapsto> None, mqueue_path base 1 \<mapsto> None)\<rparr>"
    using assms by (simp_all add: setup_mq_def mq_open_def q [simplified])
qed

lemma cleanup_sem_unlinks: "nm_sems (cleanup_sem ns) (sem_names 0) = None" "nm_sems (cleanup_sem ns) (sem_names 1) = None"
  by (simp_all add: cleanup_sem_def sem_unlink_def)

lemma cleanup_mq_unlinks:
  "nm_mqs (cleanup_mq base ns) (mqueue_path base 0) = None" "nm_mqs (cleanup_mq base ns) (mqueue_path base 1) = None"
  by (simp_all add: cleanup_mq_def mq_unlink_def)

section \<open>Properties\<close>

text \<open>
  C22: setup and cleanup are inverse on the names: on a system where the names of a mode are free, its
  setup followed by its cleanup, once or again by each process, leaves the names as they were, for
  the semaphore, message queue, named pipe and futex modes. The inotify mode leaves its two files
  behind, and the futex_test mode, whose cleanup is not installed, its segment.
\<close>

theorem cleanup_restores_names:
  assumes "nm_sems ns (sem_names 0) = None" "nm_sems ns (sem_names 1) = None"
    and "nm_mqs ns (mqueue_path base 0) = None" "nm_mqs ns (mqueue_path base 1) = None"
    and "namedpipe_names 0 \<notin> nm_files ns" "namedpipe_names 1 \<notin> nm_files ns"
    and "nm_next_shm ns \<notin> nm_shms ns"
  shows "(cleanup_sem ^^ Suc k) (snd (setup_sem mode ns)) = ns
    \<and> (cleanup_mq base ^^ Suc k) (snd (setup_mq base prio_max s ns)) = ns
    \<and> (comm_cleanup_namedpipe ^^ Suc k) (snd (setup_namedpipe f ns)) = ns
    \<and> nm_shms ((cleanup_futex (fst (setup_futex_shm ns)) ^^ Suc k) (snd (setup_futex_shm ns))) = nm_shms ns
    \<and> {ino_names 0, ino_names 1} \<subseteq> nm_files (cleanup_inotify (setup_inotify_files ns))
    \<and> fst (setup_futex_shm ns) \<in> nm_shms (snd (setup_futex_shm ns))"
proof -
  have again: "(g ^^ Suc k) x = y" if "g x = y" "g y = y" for g :: "names \<Rightarrow> names" and x y
    using that by (induction k) simp_all
  have s: "cleanup_sem (snd (setup_sem mode ns)) = ns" "cleanup_sem ns = ns"
    using assms(1,2) setup_sem_fresh(2) [of ns mode]
    by (simp_all add: cleanup_sem_def sem_unlink_def unlink_absent fun_upd_twist)
  have m: "cleanup_mq base (snd (setup_mq base prio_max s ns)) = ns" "cleanup_mq base ns = ns"
    using assms(3,4) setup_mq_fresh(2) [of ns base prio_max s]
    by (simp_all add: cleanup_mq_def mq_unlink_def unlink_absent fun_upd_twist)
  have p: "comm_cleanup_namedpipe (snd (setup_namedpipe f ns)) = ns" "comm_cleanup_namedpipe ns = ns"
    using assms(5,6) by (simp_all add: setup_namedpipe_def comm_cleanup_namedpipe_def mkfifo_def unlink_def insert_Diff_if)
  have c: "nm_shms ((cleanup_futex i ^^ Suc k) x) = nm_shms x - {i}" for i and x :: names
    by (induction k) (auto simp: cleanup_futex_def)
  show ?thesis
    using again [OF s] again [OF m] again [OF p] c [of "fst (setup_futex_shm ns)" "snd (setup_futex_shm ns)"] assms(7)
    by (simp add: setup_futex_shm_def shmget_def cleanup_inotify_def setup_inotify_files_def)
qed

theorem cleanup_restores_names_witness:
  "snd (setup_sem ''sem'' \<lparr>nm_sems = Map.empty, nm_mqs = Map.empty, nm_files = {}, nm_shms = {}, nm_next_shm = 0\<rparr>)
     \<noteq> \<lparr>nm_sems = Map.empty, nm_mqs = Map.empty, nm_files = {}, nm_shms = {}, nm_next_shm = 0\<rparr>
   \<and> (cleanup_sem ^^ 3) (snd (setup_sem ''sem''
       \<lparr>nm_sems = Map.empty, nm_mqs = Map.empty, nm_files = {}, nm_shms = {}, nm_next_shm = 0\<rparr>))
     = \<lparr>nm_sems = Map.empty, nm_mqs = Map.empty, nm_files = {}, nm_shms = {}, nm_next_shm = 0\<rparr>"
proof -
  let ?ns = "\<lparr>nm_sems = Map.empty, nm_mqs = Map.empty, nm_files = {}, nm_shms = {}, nm_next_shm = 0\<rparr> :: names"
  have "snd (setup_sem ''sem'' ?ns) \<noteq> ?ns"
    by (simp add: setup_sem_fresh(2))
  moreover have "(cleanup_sem ^^ Suc 2) (snd (setup_sem ''sem'' ?ns)) = ?ns"
    using cleanup_restores_names [where ns = ?ns and k = 2 and mode = "''sem''"] by simp
  ultimately show ?thesis by (simp add: numeral_3_eq_3 numeral_2_eq_2)
qed

text \<open>
  C23: a run that ends with its cleanup leaves the next one well set up, whatever it found itself:
  the semaphores and queues are fresh and the loops over them, blocking and busy, alternate strictly
  and can always go on, and the fifos can be
  made. After a run that was killed before its cleanup the next named pipe run ends with an error.
\<close>

theorem next_run_is_correct:
  assumes "mq_num mqs = 0" "fs_num f = 0"
  shows "(\<exists>w s. fst (setup_sem mode (cleanup_sem ns)) = Inr (w, s)
      \<and> correct Wait_first sem_ops (snd (do_begin_sem Done (sem_value s)))
      \<and> correct Wait_first busysem_ops (snd (do_begin_sem Done (sem_value s))))
   \<and> (\<exists>w s. fst (setup_mq base prio_max mqs (cleanup_mq base ns)) = Inr (w, s)
      \<and> correct Send_first (generic_ops do_send_mq do_recv_mq w) s)
   \<and> (\<exists>r. fst (setup_namedpipe f (comm_cleanup_namedpipe ns)) = Inr r)
   \<and> fst (setup_namedpipe f (snd (setup_namedpipe f (comm_cleanup_namedpipe ns))))
        = Inl (Exit_fail ''Unable to create a fifo: %s'')"
proof (intro conjI)
  obtain w s where w: "make_pairs (make_sem_pair mode (\<lambda>_. Some 0)) sem_initial = Inr (w, s)"
    by (simp add: make_pairs_def make_sem_pair_def Let_def)
  have "sem_value s 0 = 0" "sem_value s 1 = 0" using sem_pairs [OF w] by simp_all
  from sem_fresh(2) [of "sem_value s", OF this]
  have "correct Wait_first sem_ops (snd (do_begin_sem Done (sem_value s)))"
    "correct Wait_first busysem_ops (snd (do_begin_sem Done (sem_value s)))"
    by (simp_all add: correct_def sem.alternates_from sem.progresses_from busysem.alternates_from busysem.progresses_from)
  then show "\<exists>w s. fst (setup_sem mode (cleanup_sem ns)) = Inr (w, s)
      \<and> correct Wait_first sem_ops (snd (do_begin_sem Done (sem_value s)))
      \<and> correct Wait_first busysem_ops (snd (do_begin_sem Done (sem_value s)))"
    using w setup_sem_fresh(1) [OF cleanup_sem_unlinks] by auto
next
  obtain w s where w: "make_pairs (make_mq_pair (\<lambda>_. True) prio_max) (mqs\<lparr>mq_queue := (\<lambda>_. None)\<rparr>) = Inr (w, s)"
    by (simp add: make_pairs_def make_mq_pair_def Let_def)
  have "correct Send_first (generic_ops do_send_mq do_recv_mq w) s"
    using mq_runs [OF w] assms(1) by (simp add: correct_def)
  then show "\<exists>w s. fst (setup_mq base prio_max mqs (cleanup_mq base ns)) = Inr (w, s)
      \<and> correct Send_first (generic_ops do_send_mq do_recv_mq w) s"
    using w setup_mq_fresh(1) [OF cleanup_mq_unlinks] by auto
next
  show "\<exists>r. fst (setup_namedpipe f (comm_cleanup_namedpipe ns)) = Inr r"
    by (simp add: setup_namedpipe_def comm_cleanup_namedpipe_def mkfifo_def unlink_def make_pairs_def
        comm_makepair_namedpipe_def Let_def split_def)
  show "fst (setup_namedpipe f (snd (setup_namedpipe f (comm_cleanup_namedpipe ns))))
      = Inl (Exit_fail ''Unable to create a fifo: %s'')"
    using assms(2) by (simp add: setup_namedpipe_def comm_cleanup_namedpipe_def mkfifo_def unlink_def make_pairs_def
        comm_makepair_namedpipe_def Let_def split_def)
qed

theorem next_run_is_correct_witness:
  "(\<exists>w s. fst (setup_sem ''busysem'' (cleanup_sem
       \<lparr>nm_sems = [''ping'' \<mapsto> 7], nm_mqs = Map.empty, nm_files = {}, nm_shms = {}, nm_next_shm = 0\<rparr>)) = Inr (w, s)
     \<and> correct Wait_first busysem_ops (snd (do_begin_sem Done (sem_value s))))"
  using next_run_is_correct [where mqs = "\<lparr>mq_num = 0, mq_queue = (\<lambda>_. None), mq_msg = (\<lambda>_. CHR 0x00), mq_prio = (\<lambda>_. 0)\<rparr>"
      and f = "\<lparr>fs_num = 0, fs_fds = (0, 0), fs_kernel = empty_kernel 1\<rparr>" and mode = "''busysem''"
      and ns = "\<lparr>nm_sems = [''ping'' \<mapsto> 7], nm_mqs = Map.empty, nm_files = {}, nm_shms = {}, nm_next_shm = 0\<rparr>"]
  by (simp only: simp_thms fds_state.simps mq_state.simps) blast

end
