(* ===== verification/Comms.thy ===== *)
theory Comms
  imports Prelude
begin

text \<open>
  \<^verbatim>\<open>comms.c\<close> and \<^verbatim>\<open>comms.h\<close>: the growing array of communication modes, filled by the
  constructor that \<^verbatim>\<open>ADD_COMM_MODE\<close> defines for each mode, its lookups and its destructor. A
  function pointer is the function it points to (\<open>comm_fn\<close>), NULL is \<open>None\<close>; the array is a
  list whose length is the allocated number of elements.
\<close>

section \<open>Data\<close>

datatype comm_fn =
    F_comm_no_init | F_comm_no_pre | F_comm_no_begin
  | F_comm_ping_generic | F_comm_pong_generic
  | F_comm_do_send_generic | F_comm_do_recv_generic
  | F_comm_no_cleanup | F_comm_show_no_options | F_comm_parse_no_options
  | Mode_fn string

record comm_mode_ops =
  comm_init :: "comm_fn option"
  comm_make_pair :: "comm_fn option"
  comm_pre :: "comm_fn option"
  comm_begin :: "comm_fn option"
  comm_ping :: "comm_fn option"
  comm_pong :: "comm_fn option"
  comm_do_send :: "comm_fn option"
  comm_do_recv :: "comm_fn option"
  comm_show_options :: "comm_fn option"
  comm_parse_options :: "comm_fn option"
  comm_cleanup :: "comm_fn option"

record comm_mode_init_info =
  ii_name :: string
  ii_help_text :: "string option"

record comm_mode_info =
  mi_ops :: comm_mode_ops
  mi_name :: "string option"
  mi_help_text :: "string option"
  mi_index :: int
  mi_initialized :: bool

record comm_registry =
  reg_info :: "comm_mode_info list option"
  reg_count :: int

definition no_ops :: comm_mode_ops where
  "no_ops = \<lparr>comm_init = None, comm_make_pair = None, comm_pre = None, comm_begin = None,
     comm_ping = None, comm_pong = None, comm_do_send = None, comm_do_recv = None,
     comm_show_options = None, comm_parse_options = None, comm_cleanup = None\<rparr>"

text \<open>A zeroed array element, and the registry before any constructor has run.\<close>

definition zero_info :: comm_mode_info where
  "zero_info = \<lparr>mi_ops = no_ops, mi_name = None, mi_help_text = None, mi_index = 0,
     mi_initialized = False\<rparr>"

definition initial_registry :: comm_registry where
  "initial_registry = \<lparr>reg_info = None, reg_count = 0\<rparr>"

definition reg_array :: "comm_registry \<Rightarrow> comm_mode_info list" where
  "reg_array r = (case reg_info r of None \<Rightarrow> [] | Some a \<Rightarrow> a)"

definition COMM_MODE_LIST_INCREMENT :: nat where
  "COMM_MODE_LIST_INCREMENT = 5"

section \<open>Operations\<close>

text \<open>
  \<^verbatim>\<open>realloc\<close> keeps the old elements and the \<^verbatim>\<open>memset\<close> clears the new ones; reading old elements
  that were never allocated would be indeterminate. \<open>realloc_ok\<close> and \<open>errno\<close> are what the
  library call reports.
\<close>

definition comm_mode_grow :: "bool \<Rightarrow> int \<Rightarrow> comm_registry \<Rightarrow> comm_registry res" where
  "comm_mode_grow realloc_ok errno r =
     (if reg_count r mod int COMM_MODE_LIST_INCREMENT = 0
      then if \<not> realloc_ok then Inl (Exit_fail ''Unable to reallocate memory'')
           else if errno \<noteq> 0 then Inl (Exit_fail ''errno is nonzero, for some reason: %s'')
           else if int (length (reg_array r)) < reg_count r then Inl Unspecified
           else Inr (r\<lparr>reg_info := Some (take (nat (reg_count r)) (reg_array r)
                                        @ replicate COMM_MODE_LIST_INCREMENT zero_info)\<rparr>)
      else Inr r)"

definition comm_mode_add :: "bool \<Rightarrow> int \<Rightarrow> string \<Rightarrow> comm_registry \<Rightarrow> comm_registry res" where
  "comm_mode_add realloc_ok errno comm_name r0 =
     bind_res (comm_mode_grow realloc_ok errno r0) (\<lambda>r.
       bind_res (aget (reg_array r) (reg_count r)) (\<lambda>e.
         bind_res (aset (reg_array r) (reg_count r)
                     (e\<lparr>mi_name := Some comm_name, mi_index := reg_count r,
                        mi_initialized := False\<rparr>)) (\<lambda>a.
           Inr (r\<lparr>reg_info := Some a, reg_count := reg_count r + 1\<rparr>))))"

text \<open>
  The loops \<^verbatim>\<open>for (i = 0 ; i < comm_mode_count ; i ++)\<close> that look for the first entry whose
  name passes a test: \<open>n\<close> iterations are left and the next index is \<open>i\<close>.
\<close>

fun find_mode :: "(string \<Rightarrow> bool) \<Rightarrow> comm_mode_info list \<Rightarrow> nat \<Rightarrow> int \<Rightarrow> (int option) res" where
  "find_mode p a 0 i = Inr None"
| "find_mode p a (Suc n) i =
     bind_res (aget a i) (\<lambda>e.
       case mi_name e of
         None \<Rightarrow> Inl Null_pointer
       | Some nm \<Rightarrow> if p nm then Inr (Some i) else find_mode p a n (i + 1))"

definition search_mode :: "(string \<Rightarrow> bool) \<Rightarrow> comm_registry \<Rightarrow> (int option) res" where
  "search_mode p r = find_mode p (reg_array r) (nat (reg_count r)) 0"

definition unknown_mode_msg :: "string \<Rightarrow> string" where
  "unknown_mode_msg nm = ''ERROR: unable to initialize unknown comm mode '' @ [CHR 0x27] @ nm
     @ [CHR 0x27, CHR 0x0A]"

definition upd_info :: "(comm_mode_info \<Rightarrow> comm_mode_info) \<Rightarrow> int \<Rightarrow> comm_registry
    \<Rightarrow> comm_registry res" where
  "upd_info f i r =
     bind_res (aget (reg_array r) i) (\<lambda>e.
       bind_res (aset (reg_array r) i (f e)) (\<lambda>a. Inr (r\<lparr>reg_info := Some a\<rparr>)))"

text \<open>The second component of a result is what the function prints.\<close>

definition comm_mode_mark_initialized ::
    "string \<Rightarrow> comm_registry \<Rightarrow> (comm_registry \<times> string list) res" where
  "comm_mode_mark_initialized comm_mode_name r =
     bind_res (search_mode (\<lambda>nm. strncmp_eq nm comm_mode_name (length nm)) r) (\<lambda>res.
       case res of
         None \<Rightarrow> Inr (r, [unknown_mode_msg comm_mode_name])
       | Some i \<Rightarrow> bind_res (upd_info (\<lambda>e. e\<lparr>mi_initialized := True\<rparr>) i r) (\<lambda>r'. Inr (r', [])))"

definition or_default :: "comm_fn option \<Rightarrow> comm_fn \<Rightarrow> comm_fn option" where
  "or_default f d = (case f of None \<Rightarrow> Some d | Some g \<Rightarrow> Some g)"

definition fill_ops :: "comm_mode_ops \<Rightarrow> comm_mode_ops" where
  "fill_ops ops =
     \<lparr>comm_init = or_default (comm_init ops) F_comm_no_init,
      comm_make_pair = comm_make_pair ops,
      comm_pre = or_default (comm_pre ops) F_comm_no_pre,
      comm_begin = or_default (comm_begin ops) F_comm_no_begin,
      comm_ping = or_default (comm_ping ops) F_comm_ping_generic,
      comm_pong = or_default (comm_pong ops) F_comm_pong_generic,
      comm_do_send = or_default (comm_do_send ops) F_comm_do_send_generic,
      comm_do_recv = or_default (comm_do_recv ops) F_comm_do_recv_generic,
      comm_show_options = or_default (comm_show_options ops) F_comm_show_no_options,
      comm_parse_options = or_default (comm_parse_options ops) F_comm_parse_no_options,
      comm_cleanup = or_default (comm_cleanup ops) F_comm_no_cleanup\<rparr>"

definition init_entry :: "comm_mode_init_info \<Rightarrow> comm_mode_ops \<Rightarrow> comm_mode_info
    \<Rightarrow> comm_mode_info" where
  "init_entry init_info ops e =
     e\<lparr>mi_help_text := (case ii_help_text init_info of None \<Rightarrow> mi_help_text e | Some h \<Rightarrow> Some h),
       mi_ops := fill_ops ops, mi_initialized := True\<rparr>"

definition comm_mode_do_initialization ::
    "comm_mode_init_info \<Rightarrow> comm_mode_ops \<Rightarrow> comm_registry
       \<Rightarrow> (comm_registry \<times> string list) res" where
  "comm_mode_do_initialization init_info ops r =
     bind_res (search_mode (\<lambda>nm. length nm = length (ii_name init_info)
                              \<and> strncmp_eq nm (ii_name init_info) (length nm)) r) (\<lambda>res.
       case res of
         None \<Rightarrow> Inr (r, [unknown_mode_msg (ii_name init_info)])
       | Some i \<Rightarrow> bind_res (upd_info (init_entry init_info ops) i r) (\<lambda>r'. Inr (r', [])))"

text \<open>
  The constructor \<^verbatim>\<open>cons_comm_mode_<name>\<close> of the macro, with what \<^verbatim>\<open>realloc\<close> answers it (whether there is
  memory, and \<^verbatim>\<open>errno\<close> afterwards), and a list of them in link order. \<open>granted\<close> is the answer that
  lets it go on, and \<open>run_constructors\<close> the run in which all are.
\<close>

definition granted :: "bool \<times> int" where
  "granted = (True, 0)"

definition cons_comm_mode :: "bool \<times> int \<Rightarrow> comm_mode_init_info \<times> comm_mode_ops \<Rightarrow> comm_registry
    \<Rightarrow> comm_registry res" where
  "cons_comm_mode answer m r =
     bind_res (comm_mode_add (fst answer) (snd answer) (ii_name (fst m)) r) (\<lambda>r1.
       bind_res (comm_mode_do_initialization (fst m) (snd m) r1) (\<lambda>(r2, out). Inr r2))"

definition run_constructors_with :: "((bool \<times> int) \<times> comm_mode_init_info \<times> comm_mode_ops) list \<Rightarrow> comm_registry
    \<Rightarrow> comm_registry res" where
  "run_constructors_with = fold_res (\<lambda>(answer, m). cons_comm_mode answer m)"

definition run_constructors :: "(comm_mode_init_info \<times> comm_mode_ops) list \<Rightarrow> comm_registry
    \<Rightarrow> comm_registry res" where
  "run_constructors = fold_res (cons_comm_mode granted)"

fun verify_loop :: "comm_mode_info list \<Rightarrow> nat \<Rightarrow> int \<Rightarrow> bool res" where
  "verify_loop a 0 i = Inr True"
| "verify_loop a (Suc n) i =
     bind_res (aget a i) (\<lambda>e. bind_res (verify_loop a n (i + 1)) (\<lambda>b. Inr (mi_initialized e \<and> b)))"

definition comm_mode_verify_all :: "comm_registry \<Rightarrow> bool res" where
  "comm_mode_verify_all r = verify_loop (reg_array r) (nat (reg_count r)) 0"

definition get_comm_mode_name :: "int \<Rightarrow> comm_registry \<Rightarrow> (string option) res" where
  "get_comm_mode_name comm_mode_index r =
     bind_res (aget (reg_array r) comm_mode_index) (\<lambda>e. Inr (mi_name e))"

text \<open>\<^verbatim>\<open>parse_comm_mode\<close>: the return value, the new \<^verbatim>\<open>config.comm_mode_index\<close>, the output.\<close>

definition parse_comm_mode :: "string \<Rightarrow> comm_registry \<Rightarrow> (int \<times> int \<times> string list) res" where
  "parse_comm_mode arg r =
     bind_res (search_mode (\<lambda>nm. strcmp arg nm = 0) r) (\<lambda>res.
       case res of
         Some i \<Rightarrow> Inr (i, i, [])
       | None \<Rightarrow> Inr (-1, 0, [''Unknown communication mode '' @ [CHR 0x27] @ arg @ [CHR 0x27]
                           @ ''.  Falling back to default'' @ [CHR 0x0A]]))"

text \<open>
  The destructor: every text of the first \<open>count\<close> entries that is not NULL is freed, then the
  array. The second component lists the freed strings.
\<close>

fun cleanup_loop :: "comm_mode_info list \<Rightarrow> nat \<Rightarrow> int \<Rightarrow> (string list) res" where
  "cleanup_loop a 0 i = Inr []"
| "cleanup_loop a (Suc n) i =
     bind_res (aget a i) (\<lambda>e.
       bind_res (cleanup_loop a n (i + 1)) (\<lambda>fs.
         Inr ((case mi_help_text e of None \<Rightarrow> [] | Some h \<Rightarrow> [h])
              @ (case mi_name e of None \<Rightarrow> [] | Some nm \<Rightarrow> [nm]) @ fs)))"

definition cleanup_comm_mode_info :: "comm_registry \<Rightarrow> (comm_registry \<times> string list) res" where
  "cleanup_comm_mode_info r =
     (case reg_info r of
        None \<Rightarrow> Inr (initial_registry, [])
      | Some a \<Rightarrow> bind_res (cleanup_loop a (nat (reg_count r)) 0)
                    (\<lambda>fs. Inr (initial_registry, fs)))"

section \<open>The interface: an append-only table with unique keys\<close>

text \<open>
  What the rest of the program relies on: inserting a mode whose key is new appends its abstract
  entry, and a lookup returns the position of the first entry with the key.
\<close>

locale keyed_table =
  fixes insert1 :: "'m \<Rightarrow> 'r \<Rightarrow> 'r res"
    and lookup1 :: "'k \<Rightarrow> 'r \<Rightarrow> (int option) res"
    and view :: "'r \<Rightarrow> 'a list"
    and abs1 :: "'m \<Rightarrow> 'a"
    and key :: "'a \<Rightarrow> 'k"
    and invar :: "'r \<Rightarrow> bool"
  assumes insert_fresh: "invar r \<Longrightarrow> key (abs1 m) \<notin> key ` set (view r)
      \<Longrightarrow> \<exists>r'. insert1 m r = Inr r' \<and> invar r' \<and> view r' = view r @ [abs1 m]"
    and lookup_hit: "invar r \<Longrightarrow> i < length (view r) \<Longrightarrow> key (view r ! i) = k
      \<Longrightarrow> (\<forall>j < i. key (view r ! j) \<noteq> k) \<Longrightarrow> lookup1 k r = Inr (Some (int i))"
    and lookup_miss: "invar r \<Longrightarrow> k \<notin> key ` set (view r) \<Longrightarrow> lookup1 k r = Inr None"
begin

lemma insert_all:
  assumes "invar r" and "distinct (map key (view r) @ map (key \<circ> abs1) ms)"
  shows "\<exists>r'. fold_res insert1 ms r = Inr r' \<and> invar r' \<and> view r' = view r @ map abs1 ms"
  using assms
proof (induction ms arbitrary: r)
  case Nil
  then show ?case by simp
next
  case (Cons m ms)
  from Cons.prems have "key (abs1 m) \<notin> key ` set (view r)" by auto
  with Cons.prems(1) obtain r1 where r1: "insert1 m r = Inr r1" "invar r1"
    "view r1 = view r @ [abs1 m]"
    using insert_fresh by blast
  then have "distinct (map key (view r1) @ map (key \<circ> abs1) ms)"
    using Cons.prems(2) by (auto simp: comp_def)
  from Cons.IH [OF r1(2) this] r1 show ?case by auto
qed

lemma lookup_distinct:
  assumes "invar r" "distinct (map key (view r))" "i < length (view r)"
  shows "lookup1 (key (view r ! i)) r = Inr (Some (int i))"
proof (rule lookup_hit [OF assms(1,3) refl], intro allI impI)
  fix j assume "j < i"
  then show "key (view r ! j) \<noteq> key (view r ! i)"
    using assms(2,3) nth_eq_iff_index_eq [OF assms(2), of j i] by simp
qed

end

section \<open>The registry implements it\<close>

definition entries :: "comm_registry \<Rightarrow> comm_mode_info list" where
  "entries r = take (nat (reg_count r)) (reg_array r)"

definition entry_ok :: "nat \<Rightarrow> comm_mode_info \<Rightarrow> bool" where
  "entry_ok i e \<longleftrightarrow> mi_name e \<noteq> None \<and> mi_index e = int i"

definition reg_ok :: "comm_registry \<Rightarrow> bool" where
  "reg_ok r \<longleftrightarrow> 0 \<le> reg_count r
     \<and> (\<exists>k. reg_array r = entries r @ replicate k zero_info
            \<and> length (entries r) = nat (reg_count r)
            \<and> (k + nat (reg_count r)) mod COMM_MODE_LIST_INCREMENT = 0
            \<and> k < COMM_MODE_LIST_INCREMENT)
     \<and> (\<forall>i < length (entries r). entry_ok i (entries r ! i))"

definition mode_view :: "comm_registry \<Rightarrow> (string \<times> string option \<times> comm_mode_ops \<times> bool) list" where
  "mode_view r = map (\<lambda>e. (the (mi_name e), mi_help_text e, mi_ops e, mi_initialized e)) (entries r)"

definition mode_abs :: "comm_mode_init_info \<times> comm_mode_ops
    \<Rightarrow> string \<times> string option \<times> comm_mode_ops \<times> bool" where
  "mode_abs m = (ii_name (fst m), ii_help_text (fst m), fill_ops (snd m), True)"

lemma reg_ok_initial: "reg_ok initial_registry"
  by (simp add: reg_ok_def entries_def reg_array_def initial_registry_def COMM_MODE_LIST_INCREMENT_def)

lemma find_mode_hit:
  "\<lbrakk>\<forall>j < n. i + j < length a \<and> mi_name (a ! (i + j)) \<noteq> None; k < n;
    p (the (mi_name (a ! (i + k)))); \<forall>j < k. \<not> p (the (mi_name (a ! (i + j))))\<rbrakk>
   \<Longrightarrow> find_mode p a n (int i) = Inr (Some (int (i + k)))"
proof (induction n arbitrary: i k)
  case 0
  then show ?case by simp
next
  case (Suc n)
  from Suc.prems(1) have i: "i < length a" "mi_name (a ! i) \<noteq> None"
    by (metis add.right_neutral zero_less_Suc)+
  then obtain nm where nm: "mi_name (a ! i) = Some nm" by blast
  show ?case
  proof (cases k)
    case 0
    then show ?thesis using Suc.prems(3) i nm by simp
  next
    case (Suc k')
    have "\<forall>j < n. Suc i + j < length a \<and> mi_name (a ! (Suc i + j)) \<noteq> None"
      using Suc.prems(1) by auto
    moreover have "\<forall>j < k'. \<not> p (the (mi_name (a ! (Suc i + j))))"
      using Suc.prems(4) Suc by auto
    ultimately have "find_mode p a n (int (Suc i)) = Inr (Some (int (Suc i + k')))"
      using Suc.prems(2,3) Suc by (intro Suc.IH) auto
    moreover have "\<not> p nm" using Suc.prems(4) Suc nm by (metis add.right_neutral option.sel zero_less_Suc)
    ultimately show ?thesis using i nm Suc by (simp add: add.commute)
  qed
qed

lemma find_mode_miss:
  "\<lbrakk>\<forall>j < n. i + j < length a \<and> mi_name (a ! (i + j)) \<noteq> None;
    \<forall>j < n. \<not> p (the (mi_name (a ! (i + j))))\<rbrakk>
   \<Longrightarrow> find_mode p a n (int i) = Inr None"
proof (induction n arbitrary: i)
  case 0
  then show ?case by simp
next
  case (Suc n)
  from Suc.prems(1) have i: "i < length a" "mi_name (a ! i) \<noteq> None"
    by (metis add.right_neutral zero_less_Suc)+
  then obtain nm where nm: "mi_name (a ! i) = Some nm" by blast
  have "\<not> p nm" using Suc.prems(2) nm by (metis add.right_neutral option.sel zero_less_Suc)
  moreover have "find_mode p a n (int (Suc i)) = Inr None"
    using Suc.prems by (intro Suc.IH) auto
  ultimately show ?case using i nm by (simp add: add.commute)
qed

lemma reg_ok_entries:
  assumes "reg_ok r"
  shows "0 \<le> reg_count r" "length (entries r) = nat (reg_count r)"
    "\<forall>j < nat (reg_count r). 0 + j < length (reg_array r) \<and> mi_name (reg_array r ! (0 + j)) \<noteq> None"
    "j < nat (reg_count r) \<Longrightarrow> reg_array r ! j = entries r ! j"
proof -
  from assms obtain k where a: "reg_array r = entries r @ replicate k zero_info"
    and l: "length (entries r) = nat (reg_count r)"
    and e: "\<forall>i < length (entries r). entry_ok i (entries r ! i)" and c: "0 \<le> reg_count r"
    by (auto simp: reg_ok_def)
  show "0 \<le> reg_count r" "length (entries r) = nat (reg_count r)" by fact+
  have n: "reg_array r ! j = entries r ! j" if "j < nat (reg_count r)" for j
    using that l by (subst a) (simp add: nth_append)
  then show "j < nat (reg_count r) \<Longrightarrow> reg_array r ! j = entries r ! j" .
  have la: "length (reg_array r) = length (entries r) + k" by (subst a) simp
  show "\<forall>j < nat (reg_count r). 0 + j < length (reg_array r) \<and> mi_name (reg_array r ! (0 + j)) \<noteq> None"
    using e l n la by (auto simp: entry_ok_def)
qed

lemma search_hit:
  assumes "reg_ok r" "k < length (entries r)" "p (the (mi_name (entries r ! k)))"
    "\<forall>j < k. \<not> p (the (mi_name (entries r ! j)))"
  shows "search_mode p r = Inr (Some (int k))"
  using find_mode_hit [OF reg_ok_entries(3) [OF assms(1)], of k p] assms
    reg_ok_entries(2,4) [OF assms(1)]
  by (simp add: search_mode_def)

lemma search_miss:
  assumes "reg_ok r" "\<forall>j < length (entries r). \<not> p (the (mi_name (entries r ! j)))"
  shows "search_mode p r = Inr None"
  using find_mode_miss [OF reg_ok_entries(3) [OF assms(1)], of p] assms
    reg_ok_entries(2,4) [OF assms(1)]
  by (simp add: search_mode_def)

definition new_entry :: "string \<Rightarrow> int \<Rightarrow> comm_mode_info" where
  "new_entry nm i = zero_info\<lparr>mi_name := Some nm, mi_index := i, mi_initialized := False\<rparr>"

lemma reg_ok_array:
  assumes "reg_ok r"
  obtains k where "reg_array r = entries r @ replicate k zero_info"
    "length (entries r) = nat (reg_count r)" "(k + nat (reg_count r)) mod 5 = 0" "k < 5"
    "0 \<le> reg_count r" "\<forall>i < length (entries r). entry_ok i (entries r ! i)"
  using assms by (auto simp: reg_ok_def COMM_MODE_LIST_INCREMENT_def)

text \<open>After the growth there is always a zeroed element at index \<open>count\<close>.\<close>

lemma comm_mode_grow_ok:
  assumes "reg_ok r"
  shows "\<exists>r' k. comm_mode_grow True 0 r = Inr r' \<and> reg_count r' = reg_count r
     \<and> reg_array r' = entries r @ replicate (Suc k) zero_info \<and> k < 5
     \<and> (Suc k + nat (reg_count r)) mod 5 = 0"
proof -
  obtain k where k: "reg_array r = entries r @ replicate k zero_info"
    "length (entries r) = nat (reg_count r)" "(k + nat (reg_count r)) mod 5 = 0" "k < 5"
    "0 \<le> reg_count r" by (rule reg_ok_array [OF assms])
  define c where "c = nat (reg_count r)"
  have rc: "reg_count r = int c" using k(5) by (simp add: c_def)
  show ?thesis
  proof (cases "c mod 5 = 0")
    case True
    with k(3,4) have k0: "k = 0" by (simp add: c_def [symmetric]) presburger
    define r' where "r' = r\<lparr>reg_info := Some (take c (reg_array r) @ replicate 5 zero_info)\<rparr>"
    have dv: "int c mod 5 = 0" using True by presburger
    have "length (reg_array r) = c" using k(1,2) k0 by (simp add: c_def)
    then have "comm_mode_grow True 0 r = Inr r'"
      using dv by (simp add: comm_mode_grow_def COMM_MODE_LIST_INCREMENT_def rc r'_def)
    moreover have tk: "take c (reg_array r) = entries r" by (simp add: entries_def rc)
    have "reg_array r' = entries r @ replicate (Suc 4) zero_info"
      by (simp add: r'_def reg_array_def tk [unfolded reg_array_def] del: replicate_Suc)
    moreover have "(Suc 4 + nat (reg_count r)) mod 5 = 0" using True rc by presburger
    moreover have "reg_count r' = reg_count r" by (simp add: r'_def)
    ultimately show ?thesis by (intro exI [of _ r'] exI [of _ 4] conjI) simp_all
  next
    case False
    have "int c mod 5 \<noteq> 0" using False by presburger
    then have "comm_mode_grow True 0 r = Inr r"
      by (simp add: comm_mode_grow_def COMM_MODE_LIST_INCREMENT_def rc)
    moreover have "k \<noteq> 0" using False k(3) by (intro notI) (simp add: c_def)
    then obtain k' where "k = Suc k'" by (cases k) auto
    ultimately show ?thesis using k by auto
  qed
qed

lemma reg_okI:
  assumes "reg_array r = es @ replicate k zero_info" "reg_count r = int (length es)"
    "(k + length es) mod 5 = 0" "k < 5" "\<forall>i < length es. entry_ok i (es ! i)"
  shows "reg_ok r \<and> entries r = es"
proof -
  have "entries r = es" using assms(1,2) by (simp add: entries_def)
  then show ?thesis using assms by (auto simp: reg_ok_def COMM_MODE_LIST_INCREMENT_def)
qed

lemma comm_mode_add_ok:
  assumes "reg_ok r"
  shows "\<exists>r'. comm_mode_add True 0 nm r = Inr r' \<and> reg_ok r'
     \<and> entries r' = entries r @ [new_entry nm (reg_count r)]"
proof -
  obtain r1 k where g: "comm_mode_grow True 0 r = Inr r1" "reg_count r1 = reg_count r"
    "reg_array r1 = entries r @ replicate (Suc k) zero_info" "k < 5"
    "(Suc k + nat (reg_count r)) mod 5 = 0"
    using comm_mode_grow_ok [OF assms] by (elim exE conjE) (rule that)
  have l: "length (entries r) = nat (reg_count r)" and c: "0 \<le> reg_count r"
    and e: "\<forall>i < length (entries r). entry_ok i (entries r ! i)"
    using assms by (auto simp: reg_ok_def)
  define n where "n = length (entries r)"
  have rc: "reg_count r = int n" using l c by (simp add: n_def)
  define a where "a = entries r @ new_entry nm (int n) # replicate k zero_info"
  define r' where "r' = r1\<lparr>reg_info := Some a, reg_count := int n + 1\<rparr>"
  have get: "aget (reg_array r1) (int n) = Inr zero_info"
    by (subst aget_in_range) (simp_all add: g(3) n_def nth_append)
  have set1: "aset (reg_array r1) (int n) (new_entry nm (int n)) = Inr a"
    by (subst aset_in_range) (simp_all add: g(3) n_def a_def list_update_append)
  have add: "comm_mode_add True 0 nm r = Inr r'"
    using get set1 by (simp add: comm_mode_add_def g(1,2) rc r'_def new_entry_def)
  have "reg_ok r' \<and> entries r' = entries r @ [new_entry nm (int n)]"
  proof (rule reg_okI [where k = k])
    show "reg_array r' = (entries r @ [new_entry nm (int n)]) @ replicate k zero_info"
      by (simp add: r'_def reg_array_def a_def)
    show "\<forall>i < length (entries r @ [new_entry nm (int n)]).
        entry_ok i ((entries r @ [new_entry nm (int n)]) ! i)"
      using e by (auto simp: nth_append entry_ok_def new_entry_def less_Suc_eq n_def)
    show "(k + length (entries r @ [new_entry nm (int n)])) mod 5 = 0"
      using g(5) rc by (simp add: n_def)
  qed (simp_all add: r'_def n_def g(4))
  then show ?thesis using add rc by auto
qed

lemma upd_info_ok:
  assumes "reg_ok r" "i < length (entries r)" "\<And>e. entry_ok i e \<Longrightarrow> entry_ok i (f e)"
  shows "\<exists>r'. upd_info f (int i) r = Inr r' \<and> reg_ok r'
     \<and> entries r' = (entries r)[i := f (entries r ! i)]"
proof -
  obtain k where k: "reg_array r = entries r @ replicate k zero_info"
    "length (entries r) = nat (reg_count r)" "(k + nat (reg_count r)) mod 5 = 0" "k < 5"
    "0 \<le> reg_count r" "\<forall>i < length (entries r). entry_ok i (entries r ! i)"
    by (rule reg_ok_array [OF assms(1)])
  define es where "es = (entries r)[i := f (entries r ! i)]"
  define r' where "r' = r\<lparr>reg_info := Some (es @ replicate k zero_info)\<rparr>"
  have la: "i < length (reg_array r)" using assms(2) by (subst k(1)) simp
  have ai: "reg_array r ! i = entries r ! i" using assms(2) by (subst k(1)) (simp add: nth_append)
  have au: "(reg_array r)[i := f (entries r ! i)] = es @ replicate k zero_info"
    using assms(2) by (subst k(1)) (simp add: list_update_append es_def)
  have "upd_info f (int i) r = Inr r'"
    by (simp add: upd_info_def la ai au r'_def)
  moreover have "reg_ok r' \<and> entries r' = es"
    by (rule reg_okI [where k = k])
      (use k assms in \<open>auto simp: r'_def reg_array_def es_def nth_list_update\<close>)
  ultimately show ?thesis by (auto simp: es_def)
qed

lemma same_name_iff: "length nm = length s \<and> strncmp_eq nm s (length nm) \<longleftrightarrow> nm = s"
  by (auto simp: strncmp_eq_def)

lemma comm_mode_do_initialization_hit:
  assumes "reg_ok r" "i < length (entries r)"
    "mi_name (entries r ! i) = Some (ii_name info)"
    "\<forall>j < i. mi_name (entries r ! j) \<noteq> Some (ii_name info)"
  shows "\<exists>r'. comm_mode_do_initialization info ops r = Inr (r', []) \<and> reg_ok r'
     \<and> entries r' = (entries r)[i := init_entry info ops (entries r ! i)]"
proof -
  have e: "\<forall>j < length (entries r). entry_ok j (entries r ! j)"
    using assms(1) by (auto simp: reg_ok_def)
  have nn: "the (mi_name (entries r ! j)) \<noteq> ii_name info" if "j < i" for j
  proof -
    have "entry_ok j (entries r ! j)" using e that assms(2) by auto
    moreover have "mi_name (entries r ! j) \<noteq> Some (ii_name info)" using that assms(4) by blast
    ultimately show ?thesis by (auto simp: entry_ok_def)
  qed
  have s: "search_mode (\<lambda>nm. length nm = length (ii_name info)
        \<and> strncmp_eq nm (ii_name info) (length nm)) r = Inr (Some (int i))"
    unfolding same_name_iff using assms(1-3) nn by (intro search_hit) auto
  obtain r' where "upd_info (init_entry info ops) (int i) r = Inr r'" "reg_ok r'"
    "entries r' = (entries r)[i := init_entry info ops (entries r ! i)]"
    using upd_info_ok [OF assms(1,2), of "init_entry info ops"]
    by (auto simp: entry_ok_def init_entry_def)
  then show ?thesis using s by (simp add: comm_mode_do_initialization_def)
qed

lemma mode_view_name:
  "j < length (entries r) \<Longrightarrow> fst (mode_view r ! j) = the (mi_name (entries r ! j))"
  by (simp add: mode_view_def)

lemma mode_view_notin:
  assumes "k \<notin> fst ` set (mode_view r)" "j < length (entries r)"
  shows "the (mi_name (entries r ! j)) \<noteq> k"
proof -
  have "mode_view r ! j \<in> set (mode_view r)"
    by (rule nth_mem) (simp add: mode_view_def assms(2))
  then have "fst (mode_view r ! j) \<in> fst ` set (mode_view r)" by (rule imageI)
  with assms show ?thesis by (auto simp: mode_view_name)
qed

lemma cons_comm_mode_ok:
  assumes ok: "reg_ok r" and fresh: "ii_name (fst m) \<notin> fst ` set (mode_view r)"
  shows "\<exists>r'. cons_comm_mode granted m r = Inr r' \<and> reg_ok r' \<and> mode_view r' = mode_view r @ [mode_abs m]"
proof -
  obtain r1 where r1: "comm_mode_add True 0 (ii_name (fst m)) r = Inr r1" "reg_ok r1"
    "entries r1 = entries r @ [new_entry (ii_name (fst m)) (reg_count r)]"
    using comm_mode_add_ok [OF ok] by blast
  have nf: "mi_name (entries r ! j) \<noteq> Some (ii_name (fst m))" if "j < length (entries r)" for j
    using mode_view_notin [OF fresh that] by auto
  obtain r2 where r2: "comm_mode_do_initialization (fst m) (snd m) r1 = Inr (r2, [])" "reg_ok r2"
    "entries r2 = (entries r1)[length (entries r) := init_entry (fst m) (snd m)
         (entries r1 ! length (entries r))]"
    using comm_mode_do_initialization_hit [OF r1(2), of "length (entries r)" "fst m" "snd m"] nf
    by (auto simp: r1(3) nth_append new_entry_def)
  have "entries r2 = entries r @ [init_entry (fst m) (snd m) (new_entry (ii_name (fst m)) (reg_count r))]"
    by (simp add: r2(3) r1(3))
  then have "mode_view r2 = mode_view r @ [mode_abs m]"
    by (auto simp: mode_view_def mode_abs_def init_entry_def new_entry_def zero_info_def
        split: option.splits)
  then show ?thesis using r1(1) r2(1,2) by (simp add: cons_comm_mode_def granted_def)
qed

interpretation modes: keyed_table "cons_comm_mode granted"
  "\<lambda>k. search_mode (\<lambda>nm. strcmp k nm = 0)" mode_view mode_abs fst reg_ok
proof unfold_locales
  fix r :: comm_registry and m
  assume "reg_ok r" "fst (mode_abs m) \<notin> fst ` set (mode_view r)"
  then show "\<exists>r'. cons_comm_mode granted m r = Inr r' \<and> reg_ok r' \<and> mode_view r' = mode_view r @ [mode_abs m]"
    by (intro cons_comm_mode_ok) (simp_all add: mode_abs_def)
next
  fix r i k
  assume a: "reg_ok r" "i < length (mode_view r)" "fst (mode_view r ! i) = k"
    "\<forall>j < i. fst (mode_view r ! j) \<noteq> k"
  then show "search_mode (\<lambda>nm. strcmp k nm = 0) r = Inr (Some (int i))"
    by (intro search_hit) (auto simp: mode_view_name mode_view_def)
next
  fix r k
  assume a: "reg_ok r" "k \<notin> fst ` set (mode_view r)"
  have "the (mi_name (entries r ! j)) \<noteq> k" if "j < length (entries r)" for j
    using mode_view_notin [OF a(2) that] .
  then show "search_mode (\<lambda>nm. strcmp k nm = 0) r = Inr None"
    using a(1) by (intro search_miss) auto
qed

section \<open>The whole registry\<close>

lemma verify_loop_iff:
  "\<forall>j < n. i + j < length a \<Longrightarrow>
     verify_loop a n (int i) = Inr (\<forall>j < n. mi_initialized (a ! (i + j)))"
proof (induction n arbitrary: i)
  case 0
  then show ?case by simp
next
  case (Suc n)
  from Suc.prems have i: "i < length a" by (metis add.right_neutral zero_less_Suc)
  have "verify_loop a n (int (Suc i)) = Inr (\<forall>j < n. mi_initialized (a ! (Suc i + j)))"
    using Suc.prems by (intro Suc.IH) auto
  then show ?case using i by (simp add: All_less_Suc2 add.commute)
qed

lemma verify_all_iff:
  assumes "reg_ok r"
  shows "comm_mode_verify_all r = Inr (\<forall>e \<in> set (entries r). mi_initialized e)"
proof -
  have "verify_loop (reg_array r) (nat (reg_count r)) (int 0)
      = Inr (\<forall>j < nat (reg_count r). mi_initialized (reg_array r ! (0 + j)))"
    using reg_ok_entries(3) [OF assms] by (intro verify_loop_iff) auto
  also have "(\<forall>j < nat (reg_count r). mi_initialized (reg_array r ! (0 + j)))
      = (\<forall>e \<in> set (entries r). mi_initialized e)"
    using reg_ok_entries(2,4) [OF assms] by (auto simp: all_set_conv_all_nth)
  finally show ?thesis by (simp add: comm_mode_verify_all_def)
qed

lemma verify_all_view:
  "reg_ok r \<Longrightarrow> comm_mode_verify_all r = Inr (\<forall>v \<in> set (mode_view r). snd (snd (snd v)))"
  by (simp add: verify_all_iff mode_view_def)

lemma run_constructors_ok:
  assumes "distinct (map (ii_name \<circ> fst) ms)"
  shows "\<exists>r. run_constructors ms initial_registry = Inr r \<and> reg_ok r
     \<and> mode_view r = map mode_abs ms"
proof -
  have "mode_view initial_registry = []"
    by (simp add: mode_view_def entries_def initial_registry_def)
  moreover have "fst \<circ> mode_abs = ii_name \<circ> fst" by (auto simp: mode_abs_def)
  ultimately show ?thesis
    using modes.insert_all [OF reg_ok_initial, of ms] assms by (simp add: run_constructors_def)
qed

lemma parse_comm_mode_known:
  assumes "reg_ok r" "distinct (map fst (mode_view r))" "i < length (mode_view r)"
  shows "parse_comm_mode (fst (mode_view r ! i)) r = Inr (int i, int i, [])"
  using modes.lookup_distinct [OF assms] by (simp add: parse_comm_mode_def)

lemma get_name_view:
  assumes "reg_ok r" "i < length (mode_view r)"
  shows "get_comm_mode_name (int i) r = Inr (Some (fst (mode_view r ! i)))"
proof -
  have l: "i < length (entries r)" using assms(2) by (simp add: mode_view_def)
  then have "i < nat (reg_count r)" using reg_ok_entries(2) [OF assms(1)] by simp
  note f = reg_ok_entries(3) [OF assms(1), rule_format, OF this]
    and g = reg_ok_entries(4) [OF assms(1) this]
  show ?thesis using f g l by (auto simp: get_comm_mode_name_def mode_view_def)
qed

lemma cleanup_loop_frees:
  "\<forall>j < n. i + j < length a \<Longrightarrow> cleanup_loop a n (int i)
     = Inr (concat (map (\<lambda>j. (case mi_help_text (a ! j) of None \<Rightarrow> [] | Some h \<Rightarrow> [h])
                         @ (case mi_name (a ! j) of None \<Rightarrow> [] | Some nm \<Rightarrow> [nm])) [i..<i + n]))"
proof (induction n arbitrary: i)
  case 0
  then show ?case by simp
next
  case (Suc n)
  from Suc.prems have i: "i < length a" by (metis add.right_neutral zero_less_Suc)
  have "\<forall>j < n. Suc i + j < length a" using Suc.prems by auto
  note IH = Suc.IH [OF this]
  have "[i..<i + Suc n] = i # [Suc i..<Suc i + n]" by (simp add: upt_conv_Cons)
  then show ?case using i IH by (simp add: add.commute del: upt_Suc)
qed

text \<open>
  The answers of \<^verbatim>\<open>realloc\<close> matter only where the table grows, and there a refusal is an exit.
\<close>

definition refused_at :: "nat \<Rightarrow> (bool \<times> int) list \<Rightarrow> nat \<Rightarrow> bool" where
  "refused_at n answers i \<longleftrightarrow> (n + i) mod COMM_MODE_LIST_INCREMENT = 0 \<and> answers ! i \<noteq> granted"

lemma reg_count_view: "reg_ok r \<Longrightarrow> reg_count r = int (length (mode_view r))"
  using reg_ok_entries(1,2) [of r] by (simp add: mode_view_def)

lemma cons_comm_mode_answer:
  assumes "reg_ok r"
  shows "length (mode_view r) mod COMM_MODE_LIST_INCREMENT \<noteq> 0 \<Longrightarrow> cons_comm_mode a m r = cons_comm_mode granted m r"
    and "length (mode_view r) mod COMM_MODE_LIST_INCREMENT = 0 \<Longrightarrow> a \<noteq> granted \<Longrightarrow>
      cons_comm_mode a m r = Inl (Exit_fail (if fst a then ''errno is nonzero, for some reason: %s''
                                             else ''Unable to reallocate memory''))"
proof -
  have c: "reg_count r mod int COMM_MODE_LIST_INCREMENT = int (length (mode_view r) mod COMM_MODE_LIST_INCREMENT)"
    by (simp only: reg_count_view [OF assms] zmod_int)
  show "cons_comm_mode a m r = cons_comm_mode granted m r" if "length (mode_view r) mod COMM_MODE_LIST_INCREMENT \<noteq> 0"
    using that by (simp add: cons_comm_mode_def comm_mode_add_def comm_mode_grow_def c)
  show "cons_comm_mode a m r = Inl (Exit_fail (if fst a then ''errno is nonzero, for some reason: %s''
      else ''Unable to reallocate memory''))"
    if "length (mode_view r) mod COMM_MODE_LIST_INCREMENT = 0" "a \<noteq> granted"
    using that by (cases a) (simp add: cons_comm_mode_def comm_mode_add_def comm_mode_grow_def granted_def c)
qed

lemma constructors_granted:
  assumes "reg_ok r" "distinct (map fst (mode_view r) @ map (ii_name \<circ> fst) ms)" "length answers = length ms"
    and "\<forall>i < length ms. \<not> refused_at (length (mode_view r)) answers i"
  shows "fold_res (\<lambda>(a, m). cons_comm_mode a m) (zip answers ms) r = fold_res (cons_comm_mode granted) ms r"
  using assms
proof (induction ms arbitrary: r answers)
  case (Cons m ms)
  obtain a as where a: "answers = a # as" "length as = length ms" using Cons.prems(3) by (cases answers) auto
  have "\<not> refused_at (length (mode_view r)) answers 0" using Cons.prems(4) by blast
  then have c: "cons_comm_mode a m r = cons_comm_mode granted m r"
    using cons_comm_mode_answer(1) [OF Cons.prems(1)] by (cases "a = granted") (auto simp: a refused_at_def)
  have "ii_name (fst m) \<notin> fst ` set (mode_view r)" using Cons.prems(2) by auto
  then obtain r1 where r1: "cons_comm_mode granted m r = Inr r1" "reg_ok r1" "mode_view r1 = mode_view r @ [mode_abs m]"
    using cons_comm_mode_ok [OF Cons.prems(1)] by blast
  have d: "distinct (map fst (mode_view r1) @ map (ii_name \<circ> fst) ms)"
    using Cons.prems(2) by (auto simp: r1(3) mode_abs_def comp_def)
  have "\<forall>i < length ms. \<not> refused_at (length (mode_view r1)) as i"
    using Cons.prems(4) by (auto simp: refused_at_def a r1(3))
  from Cons.IH [OF r1(2) d a(2) this] show ?case by (simp add: a c r1(1))
qed simp

lemma constructors_refused:
  assumes "reg_ok r" "distinct (map fst (mode_view r) @ map (ii_name \<circ> fst) ms)" "length answers = length ms"
    and "i < length ms" "refused_at (length (mode_view r)) answers i" "\<forall>j < i. \<not> refused_at (length (mode_view r)) answers j"
  shows "fold_res (\<lambda>(a, m). cons_comm_mode a m) (zip answers ms) r
    = Inl (Exit_fail (if fst (answers ! i) then ''errno is nonzero, for some reason: %s''
                      else ''Unable to reallocate memory''))"
  using assms
proof (induction ms arbitrary: r answers i)
  case (Cons m ms)
  obtain a as where a: "answers = a # as" "length as = length ms" using Cons.prems(3) by (cases answers) auto
  show ?case
  proof (cases i)
    case 0
    then show ?thesis using cons_comm_mode_answer(2) [OF Cons.prems(1), of a m] Cons.prems(5)
      by (simp add: a refused_at_def)
  next
    case (Suc k)
    then have "\<not> refused_at (length (mode_view r)) answers 0" using Cons.prems(6) by blast
    then have c: "cons_comm_mode a m r = cons_comm_mode granted m r"
      using cons_comm_mode_answer(1) [OF Cons.prems(1)] by (cases "a = granted") (auto simp: a refused_at_def)
    have "ii_name (fst m) \<notin> fst ` set (mode_view r)" using Cons.prems(2) by auto
    then obtain r1 where r1: "cons_comm_mode granted m r = Inr r1" "reg_ok r1" "mode_view r1 = mode_view r @ [mode_abs m]"
      using cons_comm_mode_ok [OF Cons.prems(1)] by blast
    have d: "distinct (map fst (mode_view r1) @ map (ii_name \<circ> fst) ms)"
      using Cons.prems(2) by (auto simp: r1(3) mode_abs_def comp_def)
    have sh: "refused_at (length (mode_view r1)) as j = refused_at (length (mode_view r)) answers (Suc j)" for j
      by (simp add: refused_at_def a r1(3))
    have "k < length ms" "refused_at (length (mode_view r1)) as k" "\<forall>j < k. \<not> refused_at (length (mode_view r1)) as j"
      using Cons.prems(4-6) Suc unfolding sh by auto
    from Cons.IH [OF r1(2) d a(2) this] show ?thesis by (simp add: a c r1(1) Suc)
  qed
qed simp

section \<open>Properties\<close>

text \<open>
  C8: running the constructors of modes with distinct names, in any order and from the empty
  registry, with any answers of \<^verbatim>\<open>realloc\<close>: if it grants the memory, without touching \<^verbatim>\<open>errno\<close>, to every
  fifth constructor, which asks for it, no constructor faults, and the registry then holds exactly these
  modes in that order, each with every missing operation replaced by its default, and
  \<^verbatim>\<open>comm_mode_verify_all\<close> reports success; otherwise the program ends at the first of these
  constructors that is refused, with the message that belongs to it.
\<close>

theorem registry_built:
  assumes "distinct (map (ii_name \<circ> fst) ms)" "length answers = length ms"
  shows "if \<forall>i < length ms. i mod COMM_MODE_LIST_INCREMENT = 0 \<longrightarrow> answers ! i = (True, 0)
    then \<exists>r. run_constructors_with (zip answers ms) initial_registry = Inr r \<and> reg_ok r
      \<and> mode_view r = map mode_abs ms \<and> comm_mode_verify_all r = Inr True
    else \<exists>i < length ms. i mod COMM_MODE_LIST_INCREMENT = 0 \<and> answers ! i \<noteq> (True, 0)
      \<and> (\<forall>j < i. j mod COMM_MODE_LIST_INCREMENT = 0 \<longrightarrow> answers ! j = (True, 0))
      \<and> run_constructors_with (zip answers ms) initial_registry
          = Inl (Exit_fail (if fst (answers ! i) then ''errno is nonzero, for some reason: %s''
                            else ''Unable to reallocate memory''))"
proof -
  have v: "mode_view initial_registry = []" by (simp add: mode_view_def entries_def initial_registry_def)
  have d: "distinct (map fst (mode_view initial_registry) @ map (ii_name \<circ> fst) ms)" using assms(1) by (simp add: v)
  obtain r where r: "run_constructors ms initial_registry = Inr r" "reg_ok r" "mode_view r = map mode_abs ms"
    using run_constructors_ok [OF assms(1)] by blast
  have "comm_mode_verify_all r = Inr True" using r(2,3) by (auto simp: verify_all_view mode_abs_def)
  then have ok: "\<exists>r. run_constructors ms initial_registry = Inr r \<and> reg_ok r \<and> mode_view r = map mode_abs ms
      \<and> comm_mode_verify_all r = Inr True"
    using r by blast
  have at: "refused_at (length (mode_view initial_registry)) answers i
      \<longleftrightarrow> i mod COMM_MODE_LIST_INCREMENT = 0 \<and> answers ! i \<noteq> (True, 0)" for i
    by (simp add: v refused_at_def granted_def)
  show ?thesis
  proof (cases "\<forall>i < length ms. i mod COMM_MODE_LIST_INCREMENT = 0 \<longrightarrow> answers ! i = (True, 0)")
    case True
    have "\<forall>i < length ms. \<not> refused_at (length (mode_view initial_registry)) answers i"
    proof (intro allI impI)
      fix i assume "i < length ms"
      then show "\<not> refused_at (length (mode_view initial_registry)) answers i"
        using True by (auto simp: at)
    qed
    from constructors_granted [OF reg_ok_initial d assms(2) this]
    have "run_constructors_with (zip answers ms) initial_registry = run_constructors ms initial_registry"
      by (simp only: run_constructors_def run_constructors_with_def)
    then show ?thesis unfolding if_P [OF True] using ok by (simp only:)
  next
    case False
    let ?P = "\<lambda>i. i < length ms \<and> i mod COMM_MODE_LIST_INCREMENT = 0 \<and> answers ! i \<noteq> (True, 0)"
    have ex: "\<exists>i. ?P i" using False by auto
    define i where "i = (LEAST i. ?P i)"
    have i: "?P i" "\<forall>j < i. \<not> ?P j"
      unfolding i_def by (rule LeastI_ex [OF ex]) (intro allI impI, rule not_less_Least)
    have "run_constructors_with (zip answers ms) initial_registry
        = Inl (Exit_fail (if fst (answers ! i) then ''errno is nonzero, for some reason: %s''
                          else ''Unable to reallocate memory''))"
      unfolding run_constructors_with_def
    proof (rule constructors_refused [OF reg_ok_initial d assms(2)])
      show "i < length ms" using i(1) by simp
      show "refused_at (length (mode_view initial_registry)) answers i" using i(1) by (simp add: at)
      show "\<forall>j < i. \<not> refused_at (length (mode_view initial_registry)) answers j" using i by (auto simp: at)
    qed
    moreover have "\<forall>j < i. j mod COMM_MODE_LIST_INCREMENT = 0 \<longrightarrow> answers ! j = (True, 0)" using i by auto
    ultimately show ?thesis using i by (subst if_not_P [OF False]) (intro exI [of _ i], simp)
  qed
qed

theorem registry_built_witness:
  "(\<exists>r. run_constructors_with [((True, 0), \<lparr>ii_name = ''sem'', ii_help_text = None\<rparr>, no_ops),
         ((False, 12), \<lparr>ii_name = ''busysem'', ii_help_text = Some ''h''\<rparr>, no_ops)]
        initial_registry = Inr r \<and> comm_mode_verify_all r = Inr True)
   \<and> run_constructors_with [((False, 12), \<lparr>ii_name = ''sem'', ii_help_text = None\<rparr>, no_ops)] initial_registry
       = Inl (Exit_fail ''Unable to reallocate memory'')"
proof (intro conjI)
  let ?sem = "(\<lparr>ii_name = ''sem'', ii_help_text = None\<rparr>, no_ops)"
  let ?busy = "(\<lparr>ii_name = ''busysem'', ii_help_text = Some ''h''\<rparr>, no_ops)"
  have d: "distinct (map (ii_name \<circ> fst) [?sem, ?busy])" "length [(True, 0 :: int), (False, 12)] = length [?sem, ?busy]"
    by simp_all
  have p: "\<forall>i < length [?sem, ?busy]. i mod COMM_MODE_LIST_INCREMENT = 0 \<longrightarrow> [(True, 0 :: int), (False, 12)] ! i = (True, 0)"
    by (simp add: less_Suc_eq_0_disj COMM_MODE_LIST_INCREMENT_def)
  obtain r where "run_constructors_with (zip [(True, 0), (False, 12)] [?sem, ?busy]) initial_registry = Inr r"
    "comm_mode_verify_all r = Inr True"
    using registry_built [OF d, unfolded if_P [OF p]] by blast
  then show "\<exists>r. run_constructors_with [((True, 0), ?sem), ((False, 12), ?busy)] initial_registry = Inr r
      \<and> comm_mode_verify_all r = Inr True"
    by simp
  have e: "distinct (map (ii_name \<circ> fst) [?sem])" "length [(False, 12 :: int)] = length [?sem]" by simp_all
  have q: "\<not> (\<forall>i < length [?sem]. i mod COMM_MODE_LIST_INCREMENT = 0 \<longrightarrow> [(False, 12 :: int)] ! i = (True, 0))" by simp
  have "run_constructors_with (zip [(False, 12)] [?sem]) initial_registry = Inl (Exit_fail ''Unable to reallocate memory'')"
    using registry_built [OF e, unfolded if_not_P [OF q]] by (elim exE conjE) simp
  then show "run_constructors_with [((False, 12), ?sem)] initial_registry = Inl (Exit_fail ''Unable to reallocate memory'')"
    by simp
qed

text \<open>
  In a registry built by the constructors, looking a mode up by its name returns its index
  with no output, and the name stored at that index is the one looked up: the two lookups are
  inverse to each other.
\<close>

lemma mode_lookup_roundtrip:
  assumes "distinct (map (ii_name \<circ> fst) ms)" and "run_constructors ms initial_registry = Inr r"
    and "i < length ms"
  shows "parse_comm_mode (ii_name (fst (ms ! i))) r = Inr (int i, int i, [])
       \<and> get_comm_mode_name (int i) r = Inr (Some (ii_name (fst (ms ! i))))"
proof -
  have ok: "reg_ok r" and v: "mode_view r = map mode_abs ms"
    using run_constructors_ok [OF assms(1)] assms(2) by auto
  have f: "fst (mode_view r ! i) = ii_name (fst (ms ! i))"
    using assms(3) by (simp add: v mode_abs_def)
  have "distinct (map fst (mode_view r))"
    using assms(1) by (simp add: v mode_abs_def comp_def)
  then show ?thesis
    using parse_comm_mode_known [OF ok, of i] get_name_view [OF ok, of i] assms(3) f
    by (simp add: v)
qed

text \<open>
  A mode name that no entry has leaves the default: the return value is \<open>-1\<close>, the configured
  index is 0 and the message names the argument.
\<close>

lemma parse_unknown_mode:
  assumes "reg_ok r" and "arg \<notin> fst ` set (mode_view r)"
  shows "\<exists>msg. parse_comm_mode arg r = Inr (-1, 0, [msg])"
  using modes.lookup_miss [OF assms] by (simp add: parse_comm_mode_def)

text \<open>
  \<^verbatim>\<open>comm_mode_mark_initialized\<close> compares only as many characters as the entry's name has, so
  it marks the first entry whose name is a \<^emph>\<open>prefix\<close> of its argument, whatever entry has the
  argument itself as its name.
\<close>

lemma mark_initialized_prefix:
  assumes "reg_ok r" and "i < length (mode_view r)"
    and "take (length (fst (mode_view r ! i))) arg = fst (mode_view r ! i)"
    and "\<forall>j < i. take (length (fst (mode_view r ! j))) arg \<noteq> fst (mode_view r ! j)"
  shows "\<exists>r'. comm_mode_mark_initialized arg r = Inr (r', []) \<and> reg_ok r'
     \<and> entries r' = (entries r)[i := (entries r ! i)\<lparr>mi_initialized := True\<rparr>]"
proof -
  have l: "i < length (entries r)" using assms(2) by (simp add: mode_view_def)
  have "\<forall>j < i. take (length (the (mi_name (entries r ! j)))) arg \<noteq> the (mi_name (entries r ! j))"
    using assms(4) l by (auto simp: mode_view_name)
  then have "search_mode (\<lambda>nm. strncmp_eq nm arg (length nm)) r = Inr (Some (int i))"
    using assms(3) l by (intro search_hit [OF assms(1) l])
      (simp_all add: strncmp_eq_def mode_view_name eq_commute [of _ "take _ arg"])
  moreover obtain r' where "upd_info (\<lambda>e. e\<lparr>mi_initialized := True\<rparr>) (int i) r = Inr r'" "reg_ok r'"
    "entries r' = (entries r)[i := (entries r ! i)\<lparr>mi_initialized := True\<rparr>]"
    using upd_info_ok [OF assms(1) l, of "\<lambda>e. e\<lparr>mi_initialized := True\<rparr>"]
    by (auto simp: entry_ok_def)
  ultimately show ?thesis by (simp add: comm_mode_mark_initialized_def)
qed

text \<open>
  The destructor of a registry built by the constructors frees the help text and the name of
  every mode exactly once, in order, and leaves the empty registry, so a second run frees nothing.
\<close>

lemma cleanup_frees_once:
  assumes "distinct (map (ii_name \<circ> fst) ms)" and "run_constructors ms initial_registry = Inr r"
    and "ms \<noteq> []"
  shows "cleanup_comm_mode_info r = Inr (initial_registry,
           concat (map (\<lambda>m. (case ii_help_text (fst m) of None \<Rightarrow> [] | Some h \<Rightarrow> [h])
                            @ [ii_name (fst m)]) ms))
     \<and> cleanup_comm_mode_info initial_registry = Inr (initial_registry, [])"
proof -
  have ok: "reg_ok r" and v: "mode_view r = map mode_abs ms"
    using run_constructors_ok [OF assms(1)] assms(2) by auto
  define n where "n = nat (reg_count r)"
  have n: "length (entries r) = n" "n = length ms"
    using reg_ok_entries(2) [OF ok] arg_cong [OF v, of length] by (simp_all add: n_def mode_view_def)
  have "0 < nat (reg_count r)" using n assms(3) by (simp add: n_def)
  from reg_ok_entries(3) [OF ok, rule_format, OF this] have "reg_array r \<noteq> []" by auto
  then obtain a where a: "reg_info r = Some a" "reg_array r = a" by (auto simp: reg_array_def split: option.splits)
  let ?f = "\<lambda>e. (case mi_help_text e of None \<Rightarrow> [] | Some h \<Rightarrow> [h])
             @ (case mi_name e of None \<Rightarrow> [] | Some nm \<Rightarrow> [nm])"
  let ?g = "\<lambda>m. (case ii_help_text (fst m) of None \<Rightarrow> [] | Some h \<Rightarrow> [h]) @ [ii_name (fst m)]"
  have el: "?f (a ! j) = ?g (ms ! j)" if "j < n" for j
  proof -
    have j: "a ! j = entries r ! j" "mi_name (a ! j) \<noteq> None"
      using reg_ok_entries(3,4) [OF ok] that by (auto simp: n_def a(2))
    have "mode_view r ! j = mode_abs (ms ! j)" using that n(2) by (simp add: v)
    then have "the (mi_name (a ! j)) = ii_name (fst (ms ! j))"
      "mi_help_text (a ! j) = ii_help_text (fst (ms ! j))"
      using that n(1) by (simp_all add: mode_view_def mode_abs_def j(1))
    then show ?thesis using j(2) by auto
  qed
  have "cleanup_loop a n (int 0) = Inr (concat (map (\<lambda>j. ?f (a ! j)) [0..<0 + n]))"
    by (rule cleanup_loop_frees) (use reg_ok_entries(3) [OF ok] in \<open>auto simp: n_def a(2)\<close>)
  also have "map (\<lambda>j. ?f (a ! j)) [0..<0 + n] = map ?g ms"
    using el n(2) by (intro nth_equalityI) simp_all
  finally show ?thesis
    by (simp add: cleanup_comm_mode_info_def a(1) n_def [symmetric] initial_registry_def)
qed

end
