(* ===== verification/Common.thy ===== *)
theory Common
  imports Prelude
begin

text \<open>
  \<^verbatim>\<open>common.c\<close> and \<^verbatim>\<open>common.h\<close>: time arithmetic, page alignment, the fixed-point conversion
  used by the statistics, the volatile byte copy, and the checked write. Results of system
  calls are arguments. \<open>long double\<close> values are rationals; where an operation rounds, the
  rounding of the machine is the argument \<open>rnd\<close>.
\<close>

section \<open>Time\<close>

record timespec =
  ts_sec :: int
  ts_nsec :: int

record timeval =
  tv_sec :: int
  tv_usec :: int

definition elapsed_time :: "timespec \<Rightarrow> timespec \<Rightarrow> timespec" where
  "elapsed_time start stop =
     (if ts_nsec stop - ts_nsec start < 0
      then \<lparr>ts_sec = ts_sec stop - ts_sec start - 1,
            ts_nsec = 1000000000 + ts_nsec stop - ts_nsec start\<rparr>
      else \<lparr>ts_sec = ts_sec stop - ts_sec start, ts_nsec = ts_nsec stop - ts_nsec start\<rparr>)"

definition elapsed_time_timeval :: "timeval \<Rightarrow> timeval \<Rightarrow> timeval" where
  "elapsed_time_timeval start stop =
     (if tv_usec stop - tv_usec start < 0
      then \<lparr>tv_sec = tv_sec stop - tv_sec start - 1,
            tv_usec = 1000000 + tv_usec stop - tv_usec start\<rparr>
      else \<lparr>tv_sec = tv_sec stop - tv_sec start, tv_usec = tv_usec stop - tv_usec start\<rparr>)"

text \<open>
  \<^verbatim>\<open>do_sleep\<close> adds the interval to the clock reading and sleeps until that absolute time: the
  value is the deadline handed to \<^verbatim>\<open>clock_nanosleep\<close>.
\<close>

definition do_sleep :: "timespec \<Rightarrow> int \<Rightarrow> int \<Rightarrow> timespec" where
  "do_sleep now sec nsec =
     (let s = ts_sec now + sec; n = ts_nsec now + nsec
      in if 1000000000 \<le> n then \<lparr>ts_sec = s + 1, ts_nsec = n - 1000000000\<rparr>
         else \<lparr>ts_sec = s, ts_nsec = n\<rparr>)"

definition get_time :: "timespec \<Rightarrow> rat" where
  "get_time ts = of_int (ts_sec ts) + of_int (ts_nsec ts) / 10 ^ 9"

text \<open>
  \<^verbatim>\<open>estimate_cpu_mhz\<close>: two readings of the cycle counter and of the clock, one second apart.
\<close>

definition estimate_cpu_mhz :: "64 word \<Rightarrow> rat \<Rightarrow> 64 word \<Rightarrow> rat \<Rightarrow> rat" where
  "estimate_cpu_mhz start_tsc start_time end_tsc end_time =
     of_int (uint (end_tsc - start_tsc)) / (end_time - start_time) / 10 ^ 3 / 10 ^ 3"

definition rdtsc :: "32 word \<Rightarrow> 32 word \<Rightarrow> 64 word" where
  "rdtsc high low = or (push_bit 32 (ucast high)) (ucast low)"

text \<open>
  \<^verbatim>\<open>str_to_timeval\<close>: \<^verbatim>\<open>tv\<close> is an uninitialised local, so on the early returns the field that
  was not stored is indeterminate (\<open>None\<close>). The second component is the diagnostic printed.
\<close>

datatype tv_diag = No_diag | Unable_to_parse | Unable_to_parse_fraction

definition str_to_timeval :: "string \<Rightarrow> (int \<times> int option) \<times> tv_diag" where
  "str_to_timeval s =
     (let (sec, ptr1) = strtol s
      in if sec = 0 \<and> ptr1 = s then ((sec, None), Unable_to_parse)
         else if ptr1 = [] \<or> hd ptr1 \<noteq> CHR ''.'' then ((sec, None), No_diag)
         else (let (usec, ptr2) = strtol ptr1
               in ((sec, Some usec),
                   if usec = 0 \<and> ptr2 = ptr1 then Unable_to_parse_fraction else No_diag)))"

definition ts_total :: "timespec \<Rightarrow> int" where
  "ts_total t = ts_sec t * 1000000000 + ts_nsec t"

definition tv_total :: "timeval \<Rightarrow> int" where
  "tv_total t = tv_sec t * 1000000 + tv_usec t"

definition ts_norm :: "timespec \<Rightarrow> bool" where
  "ts_norm t \<longleftrightarrow> 0 \<le> ts_nsec t \<and> ts_nsec t < 1000000000"

definition tv_norm :: "timeval \<Rightarrow> bool" where
  "tv_norm t \<longleftrightarrow> 0 \<le> tv_usec t \<and> tv_usec t < 1000000"

lemma elapsed_time_total: "ts_total (elapsed_time a b) = ts_total b - ts_total a"
  by (simp add: elapsed_time_def ts_total_def algebra_simps)

lemma elapsed_time_norm: "ts_norm a \<Longrightarrow> ts_norm b \<Longrightarrow> ts_norm (elapsed_time a b)"
  by (auto simp: elapsed_time_def ts_norm_def)

lemma elapsed_timeval_total: "tv_total (elapsed_time_timeval a b) = tv_total b - tv_total a"
  by (simp add: elapsed_time_timeval_def tv_total_def algebra_simps)

lemma elapsed_timeval_norm: "tv_norm a \<Longrightarrow> tv_norm b \<Longrightarrow> tv_norm (elapsed_time_timeval a b)"
  by (auto simp: elapsed_time_timeval_def tv_norm_def)

lemma do_sleep_total: "ts_total (do_sleep now s n) = ts_total now + s * 1000000000 + n"
  by (simp add: do_sleep_def ts_total_def Let_def algebra_simps)

lemma do_sleep_norm:
  "ts_norm now \<Longrightarrow> 0 \<le> n \<Longrightarrow> n < 1000000000 \<Longrightarrow> ts_norm (do_sleep now s n)"
  by (auto simp: do_sleep_def ts_norm_def Let_def)

lemma ts_norm_div_mod:
  "ts_norm t \<Longrightarrow> ts_total t div 1000000000 = ts_sec t \<and> ts_total t mod 1000000000 = ts_nsec t"
  by (simp add: ts_norm_def ts_total_def)

lemma ts_norm_eqI:
  assumes "ts_norm a" "ts_norm b" "ts_total a = ts_total b"
  shows "a = (b::timespec)"
  using ts_norm_div_mod [OF assms(1)] ts_norm_div_mod [OF assms(2)] assms(3) by simp

lemma rdtsc_uint: "uint (rdtsc hi lo) = uint hi * 2 ^ 32 + uint lo"
proof -
  have "rdtsc hi lo = push_bit 32 (ucast hi) + ucast lo"
    unfolding rdtsc_def
  proof (rule disjunctive_add [symmetric], goal_cases)
    case (1 n)
    have "\<not> (bit (ucast lo :: 64 word) n \<and> 32 \<le> n)"
      by (auto simp: bit_ucast_iff dest: bit_imp_le_length)
    then show ?case by (auto simp: bit_push_bit_iff)
  qed
  also have "uint \<dots> = uint hi * 2 ^ 32 + uint lo"
  proof -
    have h: "uint hi < 2 ^ 32" and l: "uint lo < 2 ^ 32"
      using uint_lt2p [of hi] uint_lt2p [of lo] by simp_all
    have "uint (push_bit 32 (ucast hi :: 64 word)) = uint hi * 2 ^ 32"
      using h by (simp add: push_bit_eq_mult uint_word_ariths unsigned_ucast_eq take_bit_eq_mod)
    moreover have "uint (ucast lo :: 64 word) = uint lo"
      using l by (simp add: unsigned_ucast_eq take_bit_eq_mod)
    ultimately show ?thesis using h l
      by (simp add: uint_word_ariths take_bit_eq_mod)
  qed
  finally show ?thesis .
qed

lemma strtol_dot: "strtol (CHR ''.'' # r) = (0, CHR ''.'' # r)"
  by (rule strtol_no_digits) (simp_all add: is_digit_def is_space_def)

section \<open>Pages\<close>

definition page_align_size :: "32 word \<Rightarrow> int \<Rightarrow> 32 word" where
  "page_align_size len flag =
     (if flag = 0 then len
      else let page_size = (if flag = 1 then 4096 else 2 * 1024 * 1024)
           in if len mod page_size = 0 then len else (len div page_size + 1) * page_size)"

definition page_size_of :: "int \<Rightarrow> int" where
  "page_size_of flag = (if flag = 0 then 1 else if flag = 1 then 4096 else 2097152)"

text \<open>
  \<^verbatim>\<open>map_shared_area\<close> is the mapping call with the aligned length; the address is the kernel's.
\<close>

definition map_shared_area :: "(32 word \<Rightarrow> 'p) \<Rightarrow> 32 word \<Rightarrow> int \<Rightarrow> 'p" where
  "map_shared_area mmap len flag = mmap (page_align_size len flag)"

lemma round_up_arith:
  fixes l p m :: int
  assumes "0 < p" "l mod p \<noteq> 0" "0 \<le> l"
  shows "l < (l div p + 1) * p \<and> (l div p + 1) * p < l + p"
proof -
  have e: "(l div p + 1) * p = l div p * p + p" by (simp add: algebra_simps)
  have "l = l div p * p + l mod p" by simp
  moreover have "0 \<le> l mod p" "l mod p < p" using assms by simp_all
  ultimately show ?thesis using assms(2) unfolding e by linarith
qed

lemma page_align_uint:
  assumes "uint len + page_size_of flag \<le> 2 ^ 32"
  shows "uint (page_align_size len flag) mod page_size_of flag = 0
       \<and> uint len \<le> uint (page_align_size len flag)
       \<and> uint (page_align_size len flag) < uint len + page_size_of flag"
proof (cases "flag = 0")
  case True
  then show ?thesis by (simp add: page_align_size_def page_size_of_def)
next
  case False
  define p :: "32 word" where "p = (if flag = 1 then 4096 else 2 * 1024 * 1024)"
  have up: "uint p = page_size_of flag" and p0: "0 < page_size_of flag"
    using False by (simp_all add: p_def page_size_of_def)
  have res: "page_align_size len flag = (if len mod p = 0 then len else (len div p + 1) * p)"
    using False by (simp add: page_align_size_def p_def Let_def)
  have modp: "len mod p = 0 \<longleftrightarrow> uint len mod page_size_of flag = 0"
    by (simp add: uint_mod flip: up uint_0_iff)
  show ?thesis
  proof (cases "len mod p = 0")
    case True
    then show ?thesis using modp res p0 by simp
  next
    case False
    then have nz: "uint len mod page_size_of flag \<noteq> 0" using modp by simp
    let ?r = "(uint len div page_size_of flag + 1) * page_size_of flag"
    have b: "uint len < ?r \<and> ?r < uint len + page_size_of flag"
      by (rule round_up_arith [OF p0 nz]) simp
    have "uint ((len div p + 1) * p) = ?r"
    proof -
      have d: "uint (len div p) = uint len div page_size_of flag"
        using uint_div [of len p] up by simp
      have q0: "0 \<le> uint len div page_size_of flag"
        using p0 by (simp add: pos_imp_zdiv_nonneg_iff)
      have d1: "uint len div page_size_of flag + 1 \<le> ?r"
        using p0 q0 mult_left_mono [of 1 "page_size_of flag" "uint len div page_size_of flag + 1"]
        by simp
      have "uint (len div p + 1) = uint len div page_size_of flag + 1"
      proof -
        have "uint len div page_size_of flag + 1 < 2 ^ 32" using d1 b assms by linarith
        then show ?thesis using d
          by (simp add: uint_word_ariths take_bit_eq_mod pos_imp_zdiv_nonneg_iff p0)
      qed
      then show ?thesis using up b assms
        by (simp add: uint_word_ariths take_bit_eq_mod p0 pos_imp_zdiv_nonneg_iff)
    qed
    then show ?thesis using False res b by simp
  qed
qed

section \<open>Fixed point\<close>

text \<open>
  \<^verbatim>\<open>f_to_fp\<close>. \<^verbatim>\<open>llroundl\<close> rounds half away from zero; outside \<open>long long\<close> (and for a
  multiplier outside \<open>unsigned long\<close>) its result is unspecified. The integer fields are 64-bit
  words.
\<close>

record integer_fixed_point =
  fp_i :: "64 word"
  fp_dec :: "64 word"
  fp_prec :: int

definition llround :: "rat \<Rightarrow> int" where
  "llround x = (if 0 \<le> x then \<lfloor>x + 1 / 2\<rfloor> else - \<lfloor>1 / 2 - x\<rfloor>)"

definition pow10 :: "int \<Rightarrow> rat" where
  "pow10 p = (if 0 \<le> p then 10 ^ nat p else 1 / 10 ^ nat (- p))"

definition f_to_fp :: "(rat \<Rightarrow> rat) \<Rightarrow> int \<Rightarrow> rat \<Rightarrow> integer_fixed_point res" where
  "f_to_fp rnd prec f =
     (let fmult = rnd (pow10 prec); m = \<lfloor>fmult\<rfloor>; i = llround (rnd (f * fmult))
      in if fmult < 0 \<or> 2 ^ 64 \<le> m \<or> i \<le> - (2 ^ 63) \<or> 2 ^ 63 \<le> i then Inl Unspecified
         else if m = 0 then Inl Division_by_zero
         else (let mult = word_of_int m :: 64 word;
                   i2 = word_of_int (if i < 0 then 0 - i else i) :: 64 word;
                   q = i2 div mult
               in Inr \<lparr>fp_i = q, fp_dec = i2 - q * mult, fp_prec = prec\<rparr>))"

lemma word_div_mod_uint:
  fixes a b :: "64 word"
  shows "uint (a div b) = uint a div uint b" "uint (a - a div b * b) = uint a mod uint b"
  by (simp_all add: uint_div uint_mod minus_div_mult_eq_mod)

lemma f_to_fp_split:
  assumes "f_to_fp rnd prec f = Inr fp"
  shows "uint (fp_i fp) * \<lfloor>rnd (pow10 prec)\<rfloor> + uint (fp_dec fp)
           = \<bar>llround (rnd (f * rnd (pow10 prec)))\<bar>
       \<and> uint (fp_dec fp) < \<lfloor>rnd (pow10 prec)\<rfloor>"
proof -
  define fm where "fm = rnd (pow10 prec)"
  define m where "m = \<lfloor>fm\<rfloor>"
  define i where "i = llround (rnd (f * fm))"
  define a :: "64 word" where "a = word_of_int \<bar>i\<bar>"
  define b :: "64 word" where "b = word_of_int m"
  have r: "0 \<le> fm" "m < 2 ^ 64" "- (2 ^ 63) < i" "i < 2 ^ 63" "m \<noteq> 0"
    and fp: "fp = \<lparr>fp_i = a div b, fp_dec = a - a div b * b, fp_prec = prec\<rparr>"
    using assms
    by (auto simp: f_to_fp_def Let_def fm_def m_def i_def a_def b_def abs_if split: if_splits)
  have m0: "0 < m" using r(1,5) unfolding m_def by (metis floor_less_zero linorder_neqE_linordered_idom not_less)
  have a: "uint a = \<bar>i\<bar>" and b: "uint b = m"
    using r m0 unfolding a_def b_def by (simp_all add: uint_word_of_int)
  have "uint (fp_i fp) * m + uint (fp_dec fp) = uint a"
    unfolding fp by (simp add: word_div_mod_uint a b)
  moreover have "uint (fp_dec fp) < m"
    unfolding fp using m0 by (simp add: word_div_mod_uint a b)
  ultimately show ?thesis using a by (simp add: fm_def m_def i_def)
qed

lemma llround_error: "\<bar>of_int (llround x) - x\<bar> \<le> 1 / 2"
  unfolding llround_def by (auto simp: abs_if) linarith+

lemma llround_of_int [simp]: "llround (of_int n) = n"
proof -
  have "\<lfloor>of_int n + 1 / 2 :: rat\<rfloor> = n" by linarith
  moreover have "\<lfloor>1 / 2 - of_int n :: rat\<rfloor> = - n" by linarith
  ultimately show ?thesis by (simp add: llround_def)
qed

lemma llround_nonneg: "0 \<le> x \<Longrightarrow> 0 \<le> llround x"
  by (simp add: llround_def)

section \<open>Byte copy\<close>

text \<open>\<^verbatim>\<open>while (bytes-- > 0)\<close> copies the highest byte first.\<close>

fun bytecopy :: "(nat \<Rightarrow> 8 word) \<Rightarrow> nat \<Rightarrow> nat \<Rightarrow> nat \<Rightarrow> (nat \<Rightarrow> 8 word)" where
  "bytecopy mem dest src 0 = mem"
| "bytecopy mem dest src (Suc bytes) =
     bytecopy (mem(dest + bytes := mem (src + bytes))) dest src bytes"

lemma bytecopy_outside:
  "a < dest \<or> dest + n \<le> a \<Longrightarrow> bytecopy mem dest src n a = mem a"
  by (induction n arbitrary: mem) auto

lemma bytecopy_copies:
  assumes "src \<le> dest \<or> dest + n \<le> src" and "k < n"
  shows "bytecopy mem dest src n (dest + k) = mem (src + k)"
  using assms
proof (induction n arbitrary: mem)
  case 0
  then show ?case by simp
next
  case (Suc n)
  show ?case
  proof (cases "k = n")
    case True
    then show ?thesis by (simp add: bytecopy_outside)
  next
    case False
    with Suc.prems have k: "k < n" "src \<le> dest \<or> dest + n \<le> src" "src + k \<noteq> dest + n" by auto
    then show ?thesis by (simp add: Suc.IH)
  qed
qed

section \<open>Checked output\<close>

text \<open>
  \<^verbatim>\<open>vsnprintf\<close> with a positive size: the length of the whole text and as much of it as fits
  with its NUL; \<open>None\<close> is an encoding error, which leaves the buffer as it was.
\<close>

definition vsnprintf :: "string \<Rightarrow> int \<Rightarrow> string option \<Rightarrow> int \<times> string" where
  "vsnprintf buffer buffer_len text =
     (case text of None \<Rightarrow> (-1, buffer)
      | Some t \<Rightarrow> (int (length t), take (nat (buffer_len - 1)) t))"

text \<open>
  \<^verbatim>\<open>safe_write\<close>: the result, the list of \<^verbatim>\<open>write\<close> calls it makes (descriptor and bytes), and
  the buffer it leaves. \<open>wr\<close> is the return value of the caller's \<^verbatim>\<open>write\<close>.
\<close>

definition safe_write ::
    "int \<Rightarrow> string \<Rightarrow> int \<Rightarrow> string option \<Rightarrow> (string \<Rightarrow> int) \<Rightarrow> string
      \<Rightarrow> int \<times> (int \<times> string) list \<times> string" where
  "safe_write fd buffer buffer_len text wr strerror =
     (let (ret, buf) = vsnprintf buffer buffer_len text;
          str_len = int (length buf);
          diag1 = (if ret < 0 \<or> buffer_len \<le> ret \<or> buffer_len \<le> str_len \<or> ret \<noteq> str_len
                   then [(1, take 99 (''Error with vsnprintf...  snprintf returned '' @ dec_int ret
                              @ '', but strlen is '' @ dec_int str_len @ [CHR 0x0A]))]
                   else []);
          ret2 = wr buf;
          diag2 = (if ret2 < 0
                   then [(1, take 199 (''Error with write('' @ dec_int fd
                              @ '')...  expected to write '' @ dec_int str_len @ '': '' @ strerror
                              @ [CHR 0x0A]))]
                   else [])
      in (ret2, diag1 @ [(fd, buf)] @ diag2, buf))"

lemma safe_write_fits:
  assumes "int (length t) < buffer_len" and "0 \<le> wr t"
  shows "safe_write fd buffer buffer_len (Some t) wr e = (wr t, [(fd, t)], t)"
  using assms by (simp add: safe_write_def vsnprintf_def Let_def)

lemma safe_write_truncates:
  assumes "buffer_len \<le> int (length t)" and "0 < buffer_len"
    and "safe_write fd buffer buffer_len (Some t) wr e = (r, ws, b)"
  shows "b = take (nat (buffer_len - 1)) t \<and> int (length b) = buffer_len - 1
       \<and> (\<exists>d ds. ws = (1, d) # (fd, b) # ds \<and> length d \<le> 99 \<and> length ds \<le> 1)"
proof -
  have l: "int (length (take (nat (buffer_len - 1)) t)) = buffer_len - 1" using assms(1,2) by simp
  show ?thesis using assms l
    by (auto simp: safe_write_def vsnprintf_def Let_def split: if_splits)
qed

section \<open>Process attributes\<close>

text \<open>
  \<^verbatim>\<open>rename_thread\<close> gives the kernel at most 16 characters; \<^verbatim>\<open>get_min_stack_size\<close>,
  \<^verbatim>\<open>set_affinity\<close> and \<^verbatim>\<open>init_mlockall\<close> turn the result of one system call into the
  function's result or exit.
\<close>

definition rename_thread :: "(string \<Rightarrow> int) \<Rightarrow> string \<Rightarrow> int" where
  "rename_thread prctl thread_name = (if prctl (take 16 thread_name) = -1 then -1 else 0)"

definition get_min_stack_size :: "int \<Rightarrow> int res" where
  "get_min_stack_size sysconf =
     (if sysconf = -1 then Inl (Exit_status 1) else Inr (to_int sysconf))"

definition set_affinity :: "(int \<Rightarrow> int) \<Rightarrow> int \<Rightarrow> unit res" where
  "set_affinity sched_setaffinity cpu =
     (if sched_setaffinity cpu = -1 then Inl (Exit_fail ''Error setting affinity: %s'')
      else Inr ())"

definition init_mlockall :: "int \<Rightarrow> int" where
  "init_mlockall mlockall = (if mlockall \<noteq> 0 then 1 else 0)"

section \<open>Properties\<close>

text \<open>
  C39: the clock arithmetic is exact and keeps the normal form \<open>0 \<le> nsec < 10 ^ 9\<close>: the deadline
  \<^verbatim>\<open>do_sleep\<close> computes lies exactly the interval after the reading, so the elapsed time from the
  reading to the deadline is the interval again, carry and borrow included; and the elapsed time
  of two readings in either unit is the difference of their totals.
\<close>

theorem clock_arithmetic:
  assumes "ts_norm now" "0 \<le> nsec" "nsec < 1000000000" "ts_norm later" "tv_norm u" "tv_norm v"
  shows "ts_norm (do_sleep now sec nsec)
    \<and> elapsed_time now (do_sleep now sec nsec) = \<lparr>ts_sec = sec, ts_nsec = nsec\<rparr>
    \<and> ts_total (elapsed_time now later) = ts_total later - ts_total now
    \<and> ts_norm (elapsed_time now later)
    \<and> tv_total (elapsed_time_timeval u v) = tv_total v - tv_total u
    \<and> tv_norm (elapsed_time_timeval u v)"
proof -
  have n: "ts_norm (do_sleep now sec nsec)" by (rule do_sleep_norm) fact+
  moreover have "elapsed_time now (do_sleep now sec nsec) = \<lparr>ts_sec = sec, ts_nsec = nsec\<rparr>"
  proof (rule ts_norm_eqI)
    show "ts_norm (elapsed_time now (do_sleep now sec nsec))"
      by (rule elapsed_time_norm) fact+
    show "ts_norm \<lparr>ts_sec = sec, ts_nsec = nsec\<rparr>" using assms by (simp add: ts_norm_def)
    show "ts_total (elapsed_time now (do_sleep now sec nsec)) = ts_total \<lparr>ts_sec = sec, ts_nsec = nsec\<rparr>"
      unfolding elapsed_time_total do_sleep_total by (simp add: ts_total_def)
  qed
  ultimately show ?thesis
    using assms by (simp add: elapsed_time_total elapsed_time_norm elapsed_timeval_total elapsed_timeval_norm)
qed

theorem clock_arithmetic_witness:
  "elapsed_time \<lparr>ts_sec = 7, ts_nsec = 900000000\<rparr> (do_sleep \<lparr>ts_sec = 7, ts_nsec = 900000000\<rparr> 1 250000000)
     = \<lparr>ts_sec = 1, ts_nsec = 250000000\<rparr>
   \<and> do_sleep \<lparr>ts_sec = 7, ts_nsec = 900000000\<rparr> 1 250000000 = \<lparr>ts_sec = 9, ts_nsec = 150000000\<rparr>
   \<and> tv_total (elapsed_time_timeval \<lparr>tv_sec = 3, tv_usec = 999999\<rparr> \<lparr>tv_sec = 4, tv_usec = 1\<rparr>) = 2"
  using clock_arithmetic [of "\<lparr>ts_sec = 7, ts_nsec = 900000000\<rparr>" 250000000
      "\<lparr>ts_sec = 8, ts_nsec = 0\<rparr>" "\<lparr>tv_sec = 3, tv_usec = 999999\<rparr>" "\<lparr>tv_sec = 4, tv_usec = 1\<rparr>" 1]
  by (simp add: ts_norm_def tv_norm_def do_sleep_def tv_total_def)

text \<open>
  \<^verbatim>\<open>str_to_timeval\<close> never reads a fraction: what follows the whole seconds starts at the
  decimal point, on which \<^verbatim>\<open>strtol\<close> stops at once, so any fraction gives 0 microseconds and a
  diagnostic; and without a point the microseconds are left uninitialised.
\<close>

lemma str_to_timeval_no_fraction:
  assumes "int n \<le> long_max"
  shows "str_to_timeval (dec_nat n @ CHR ''.'' # fraction) = ((int n, Some 0), Unable_to_parse_fraction)
       \<and> str_to_timeval (dec_nat n) = ((int n, None), No_diag)"
proof -
  have a: "strtol (dec_nat n @ CHR ''.'' # fraction) = (int n, CHR ''.'' # fraction)"
    using assms by (intro strtol_dec_nat) (simp_all add: is_digit_def)
  have b: "strtol (dec_nat n) = (int n, [])"
    using strtol_dec_nat [where r = "[]" and n = n] assms by simp
  have ne: "dec_nat n \<noteq> []" by (subst dec_nat.simps) simp
  show ?thesis unfolding str_to_timeval_def a b using ne ne [symmetric] by (simp add: strtol_dot Let_def)
qed

text \<open>
  \<^verbatim>\<open>page_align_size\<close> rounds up to the next multiple of the page size, and to no more, for every
  length that leaves room for it in an unsigned int; above that the addition wraps and the
  "aligned" length is 0.
\<close>

lemma page_align_rounds_up:
  "if uint len + page_size_of flag \<le> 2 ^ 32
   then uint (page_align_size len flag) mod page_size_of flag = 0
      \<and> uint len \<le> uint (page_align_size len flag)
      \<and> uint (page_align_size len flag) < uint len + page_size_of flag
   else flag \<noteq> 0 \<and> (page_align_size len flag = 0)"
proof (cases "uint len + page_size_of flag \<le> 2 ^ 32")
  case True
  then show ?thesis using page_align_uint by simp
next
  case False
  have l: "uint len < 2 ^ 32" using uint_lt2p [of len] by simp
  then have f: "flag \<noteq> 0" using False by (auto simp: page_size_of_def)
  have wrap: "(len div p + 1) * p = 0 \<and> len mod p \<noteq> 0" if p: "uint p * k = 2 ^ 32" "2 ^ 32 - uint p < uint len" "0 < uint p"
      for p :: "32 word" and k
  proof -
    have k: "2 ^ 32 = k * uint p" using p(1) by (simp add: mult.commute)
    have "uint len div uint p = k - 1"
    proof (rule int_div_pos_eq [where r = "uint len - (k - 1) * uint p"])
      show "uint len = uint p * (k - 1) + (uint len - (k - 1) * uint p)" by simp
      show "0 \<le> uint len - (k - 1) * uint p" using p(2) k by (simp add: left_diff_distrib)
      show "uint len - (k - 1) * uint p < uint p" using l k by (simp add: left_diff_distrib)
    qed
    moreover from this have "uint len mod uint p = uint len - (k - 1) * uint p"
      by (simp add: minus_div_mult_eq_mod [symmetric])
    then have "uint (len mod p) \<noteq> 0" using p(2) k by (simp add: uint_mod left_diff_distrib)
    then have nz: "len mod p \<noteq> 0" by (metis uint_0_eq)
    ultimately have "uint (len div p) = k - 1" by (simp only: uint_div)
    then have "len div p = word_of_int (k - 1)" using word_of_int_uint [of "len div p"] by simp
    then have d: "len div p + 1 = word_of_int k" by (simp add: wi_hom_syms)
    have "(len div p + 1) * p = word_of_int k * word_of_int (uint p)" unfolding d by simp
    also have "\<dots> = word_of_int (k * uint p)" by (simp only: wi_hom_mult)
    also have "\<dots> = word_of_int (2 ^ 32)" by (simp only: k)
    also have "\<dots> = 0" by simp
    finally show ?thesis using nz by simp
  qed
  show ?thesis
  proof (cases "flag = 1")
    case True
    with False have "2 ^ 32 - uint (4096 :: 32 word) < uint len" by (simp add: page_size_of_def)
    from wrap [of 4096 1048576, OF _ this] True show ?thesis using False f by (simp add: page_align_size_def)
  next
    case no: False
    with False f have "2 ^ 32 - uint (2097152 :: 32 word) < uint len" by (simp add: page_size_of_def)
    from wrap [of 2097152 2048, OF _ this] no show ?thesis using False f by (simp add: page_align_size_def)
  qed
qed

text \<open>
  The fixed-point conversion rounds to nearest: with exact products the integer part and the
  decimals together are within half a unit of the last decimal of the absolute value, and the
  decimals are below one. The sign is dropped.
\<close>

lemma f_to_fp_rounds:
  assumes "f_to_fp (\<lambda>x. x) prec f = Inr fp" "0 \<le> prec"
  shows "\<bar>of_int (uint (fp_i fp)) + of_int (uint (fp_dec fp)) / 10 ^ nat prec - \<bar>f\<bar>\<bar> \<le> 1 / (2 * 10 ^ nat prec)
       \<and> uint (fp_dec fp) < 10 ^ nat prec"
proof -
  define m :: rat where "m = 10 ^ nat prec"
  have m: "0 < m" and fl: "\<lfloor>m\<rfloor> = 10 ^ nat prec" and p: "pow10 prec = m"
    using assms(2) by (auto simp: m_def pow10_def)
  note s = f_to_fp_split [OF assms(1), unfolded p fl]
  have i: "of_int (uint (fp_i fp)) * m + of_int (uint (fp_dec fp)) = \<bar>of_int (llround (f * m)) :: rat\<bar>"
    using arg_cong [OF conjunct1 [OF s], of "of_int :: int \<Rightarrow> rat"] by (simp add: m_def)
  have "\<bar>\<bar>of_int (llround (f * m))\<bar> - \<bar>f * m\<bar>\<bar> \<le> 1 / 2"
    using llround_error [of "f * m"] abs_triangle_ineq3 [of "of_int (llround (f * m))" "f * m"] by linarith
  then have "\<bar>of_int (uint (fp_i fp)) * m + of_int (uint (fp_dec fp)) - \<bar>f\<bar> * m\<bar> \<le> 1 / 2"
    using i m by (simp add: abs_mult)
  then have "\<bar>of_int (uint (fp_i fp)) + of_int (uint (fp_dec fp)) / m - \<bar>f\<bar>\<bar> * m \<le> 1 / 2"
    using m by (simp add: abs_mult_pos field_simps flip: abs_mult_pos)
  then have "\<bar>of_int (uint (fp_i fp)) + of_int (uint (fp_dec fp)) / m - \<bar>f\<bar>\<bar> \<le> 1 / (2 * m)"
    using m by (simp add: field_simps)
  then show ?thesis using s by (simp add: m_def)
qed

text \<open>
  \<^verbatim>\<open>bytecopy\<close> changes exactly the destination and leaves there the bytes the source had, also
  for overlapping areas as long as the destination does not start below the source; if it does,
  the copy from the top overwrites source bytes before they are read.
\<close>

lemma bytecopy_correct:
  assumes "src \<le> dest \<or> dest + n \<le> src"
  shows "bytecopy mem dest src n a =
     (if dest \<le> a \<and> a < dest + n then mem (src + (a - dest)) else mem a)"
proof (cases "dest \<le> a \<and> a < dest + n")
  case True
  then have "a - dest < n" by linarith
  from bytecopy_copies [OF assms this, of mem] True show ?thesis by simp
next
  case False
  then show ?thesis by (simp add: bytecopy_outside) (meson bytecopy_outside not_le)
qed

text \<open>
  \<^verbatim>\<open>safe_write\<close> writes a text that fits the buffer as it is and says nothing; a longer one is
  cut to the buffer, never beyond it, after a diagnostic of at most 99 characters on standard
  output.
\<close>

lemma safe_write_bounded:
  assumes "0 < buffer_len" "0 \<le> wr t" "safe_write fd buffer buffer_len (Some t) wr err = (r, ws, b)"
  shows "if int (length t) < buffer_len then r = wr t \<and> ws = [(fd, t)] \<and> b = t
    else b = take (nat (buffer_len - 1)) t \<and> int (length b) = buffer_len - 1
       \<and> (\<exists>d ds. ws = (1, d) # (fd, b) # ds \<and> length d \<le> 99 \<and> length ds \<le> 1)"
proof (cases "int (length t) < buffer_len")
  case True
  then show ?thesis using safe_write_fits [of t buffer_len wr fd buffer err, OF True assms(2)] assms(3) by simp
next
  case False
  then have "buffer_len \<le> int (length t)" by simp
  from safe_write_truncates [OF this assms(1,3)] show ?thesis unfolding if_not_P [OF False] .
qed

end
