(* ===== verification/Units.thy ===== *)
theory Units
  imports Common
begin

text \<open>
  \<^verbatim>\<open>units.c\<close>: \<^verbatim>\<open>subsec_string\<close> prints a duration with a unit from seconds to femtoseconds.
  A \<open>long double\<close> is a rational, an infinity or a NaN; \<open>rnd\<close> is the machine's rounding of
  each product and difference (the identity where they are exact). The result is the string
  up to its NUL.
\<close>

datatype long_double = Fin rat | Infinite bool | NaN

definition ld_trunc :: "rat \<Rightarrow> int" where
  "ld_trunc x = (if 0 \<le> x then \<lfloor>x\<rfloor> else \<lceil>x\<rceil>)"

definition unit_strings_sub :: "string list" where
  "unit_strings_sub = [''s'', ''ms'', ''us'', ''ns'', ''ps'', ''fs'']"

definition max_mult :: nat where
  "max_mult = length unit_strings_sub"

text \<open>The loop \<^verbatim>\<open>while ((size < 1.0L) && (mult < max_mult))\<close>.\<close>

function subsec_scale :: "(rat \<Rightarrow> rat) \<Rightarrow> nat \<Rightarrow> rat \<Rightarrow> nat \<times> rat" where
  "subsec_scale rnd mult sz =
     (if sz < 1 \<and> mult < max_mult then subsec_scale rnd (mult + 1) (rnd (sz * 1000))
      else (mult, sz))"
  by pat_completeness auto
termination
  by (relation "measure (\<lambda>(rnd, mult, sz). max_mult - mult)") auto

declare subsec_scale.simps [simp del]

text \<open>
  The loop over the decimals: \<^verbatim>\<open>(char)(size + '0')\<close> is defined for values that fit a \<open>char\<close>.
\<close>

fun subsec_digits :: "(rat \<Rightarrow> rat) \<Rightarrow> nat \<Rightarrow> rat \<Rightarrow> string res" where
  "subsec_digits rnd 0 sz = Inr []"
| "subsec_digits rnd (Suc n) sz =
     (let s = rnd (sz * 10); v = ld_trunc (rnd (s + 48))
      in if v < 0 \<or> 127 < v then Inl Unspecified
         else bind_res (subsec_digits rnd n (rnd (s - of_int (ld_trunc s))))
                (\<lambda>ds. Inr (char_of (nat v) # ds)))"

definition subsec_whole :: "int \<Rightarrow> rat \<Rightarrow> string" where
  "subsec_whole i sz =
     (if 100 \<le> i then [digit_chr (i div 100 mod 10)] else [])
     @ (if 10 \<le> sz then [digit_chr (i div 10 mod 10)] else [])
     @ [digit_chr (i mod 10)]"

definition subsec_frac :: "(rat \<Rightarrow> rat) \<Rightarrow> int \<Rightarrow> rat \<Rightarrow> string res" where
  "subsec_frac rnd dec_pts sz =
     (if 0 < dec_pts
      then bind_res (subsec_digits rnd (nat dec_pts) (rnd (sz - of_int (ld_trunc sz))))
             (\<lambda>ds. Inr (CHR ''.'' # ds))
      else Inr [])"

text \<open>The unit index and the scaled value, after the reset of a value too small for any unit.\<close>

definition subsec_unit :: "(rat \<Rightarrow> rat) \<Rightarrow> rat \<Rightarrow> nat \<times> rat" where
  "subsec_unit rnd sz =
     (let (mult, sz1) = subsec_scale rnd (if sz \<le> 0 then max_mult else 0) sz
      in if max_mult \<le> mult then (0, 0) else (mult, sz1))"

definition subsec_print :: "(rat \<Rightarrow> rat) \<Rightarrow> int \<Rightarrow> nat \<Rightarrow> rat \<Rightarrow> string res" where
  "subsec_print rnd dec_pts mult sz =
     bind_res (f_to_fp rnd dec_pts sz) (\<lambda>int_fp.
       bind_res (subsec_frac rnd dec_pts sz) (\<lambda>frac.
         Inr (subsec_whole (uint (fp_i int_fp)) sz @ frac @ CHR '' '' # unit_strings_sub ! mult)))"

definition subsec_string :: "(rat \<Rightarrow> rat) \<Rightarrow> long_double \<Rightarrow> int \<Rightarrow> string res" where
  "subsec_string rnd sz dec_pts =
     (case sz of
        Infinite _ \<Rightarrow> Inr [CHR 0xE2, CHR 0x88, CHR 0x9E]
      | NaN \<Rightarrow> Inl Unspecified
      | Fin x \<Rightarrow>
          (if f_to_fp rnd dec_pts x = Inl Division_by_zero then Inl Division_by_zero
           else subsec_print rnd dec_pts (fst (subsec_unit rnd x)) (snd (subsec_unit rnd x))))"

section \<open>Lengths\<close>

lemma subsec_digits_length: "subsec_digits rnd n sz = Inr ds \<Longrightarrow> length ds = n"
  by (induction n arbitrary: sz ds)
    (auto simp: Let_def bind_res_Inr_iff split: if_splits)

lemma unit_length: "m < max_mult \<Longrightarrow> length (unit_strings_sub ! m) \<le> 2"
  unfolding max_mult_def unit_strings_sub_def
  by (auto simp: less_Suc_eq nth_Cons split: nat.splits)

lemma max_mult_6: "max_mult = 6"
  by (simp add: max_mult_def unit_strings_sub_def)

lemma subsec_whole_length: "length (subsec_whole i x) \<le> 3"
  by (simp add: subsec_whole_def)

lemma subsec_frac_length: "subsec_frac rnd d x = Inr fr \<Longrightarrow> length fr \<le> nat d + 1"
  by (auto simp: subsec_frac_def bind_res_Inr_iff dest: subsec_digits_length split: if_splits)

lemma subsec_unit_less: "fst (subsec_unit rnd x) < max_mult"
  by (auto simp: subsec_unit_def Let_def max_mult_6 split: prod.split)

lemma subsec_print_length:
  assumes "subsec_print rnd d m x = Inr s" and "m < max_mult"
  shows "length s \<le> nat d + 7"
proof -
  from assms(1) obtain i fr where
    "s = subsec_whole i x @ fr @ CHR '' '' # unit_strings_sub ! m" "length fr \<le> nat d + 1"
    by (auto simp: subsec_print_def bind_res_Inr_iff dest: subsec_frac_length)
  then show ?thesis using unit_length [OF assms(2)] subsec_whole_length [of i x] by simp
qed

lemma subsec_string_length_aux:
  "subsec_string rnd sz d = Inr s \<Longrightarrow> length s \<le> nat d + 7"
  by (auto simp: subsec_string_def dest: subsec_print_length [OF _ subsec_unit_less]
      split: long_double.splits if_splits)

section \<open>Exact arithmetic\<close>

lemma floor_numeral_fraction [simp]: "\<lfloor>numeral a / numeral b :: rat\<rfloor> = numeral a div numeral b"
  by (metis floor_divide_of_int_eq of_int_numeral)

lemma subsec_scale_done: "1 \<le> sz \<Longrightarrow> subsec_scale rnd m sz = (m, sz)"
  by (subst subsec_scale.simps) simp

lemma subsec_scale_max: "subsec_scale rnd max_mult sz = (max_mult, sz)"
  by (subst subsec_scale.simps) simp

text \<open>With exact products the scaling stops at the first unit that makes the value at least 1.\<close>

lemma subsec_scale_exact:
  assumes "\<forall>j < k. sz * 1000 ^ j < 1" and "1 \<le> sz * 1000 ^ k \<or> m + k = max_mult"
    and "m + k \<le> max_mult"
  shows "subsec_scale (\<lambda>x. x) m sz = (m + k, sz * 1000 ^ k)"
  using assms
proof (induction k arbitrary: m sz)
  case 0
  then show ?case by (subst subsec_scale.simps) auto
next
  case (Suc k)
  from Suc.prems(1) have lt: "sz < 1" by force
  have pre: "\<forall>j < k. sz * 1000 * 1000 ^ j < 1"
  proof (intro allI impI)
    fix j assume "j < k"
    then have "sz * 1000 ^ Suc j < 1" using Suc.prems(1) by blast
    then show "sz * 1000 * 1000 ^ j < 1" by (simp add: mult.assoc)
  qed
  have "subsec_scale (\<lambda>x. x) (m + 1) (sz * 1000) = (m + 1 + k, sz * 1000 * 1000 ^ k)"
    by (rule Suc.IH) (use pre Suc.prems in \<open>auto simp: mult.assoc\<close>)
  then show ?case using lt Suc.prems(3)
    by (subst subsec_scale.simps) (simp add: mult.assoc)
qed

text \<open>The decimals printed are the digits of the decimal expansion, cut off, not rounded.\<close>

lemma floor_digit: "\<lfloor>(10::rat) * (x - of_int \<lfloor>x\<rfloor>)\<rfloor> = \<lfloor>10 * x\<rfloor> mod 10"
proof -
  have "\<lfloor>10 * (x - of_int \<lfloor>x\<rfloor>)\<rfloor> = \<lfloor>10 * x - of_int (10 * \<lfloor>x\<rfloor>)\<rfloor>"
    by (simp add: algebra_simps)
  also have "\<dots> = \<lfloor>10 * x\<rfloor> - 10 * \<lfloor>x\<rfloor>" by (simp only: floor_diff_of_int)
  finally have e: "\<lfloor>10 * (x - of_int \<lfloor>x\<rfloor>)\<rfloor> = \<lfloor>10 * x\<rfloor> - 10 * \<lfloor>x\<rfloor>" .
  have f: "of_int \<lfloor>x\<rfloor> \<le> x" "x < of_int \<lfloor>x\<rfloor> + 1" by linarith+
  then have "0 \<le> \<lfloor>10 * (x - of_int \<lfloor>x\<rfloor>)\<rfloor>" "\<lfloor>10 * (x - of_int \<lfloor>x\<rfloor>)\<rfloor> < 10"
    by (auto simp: floor_less_iff)
  then have "(\<lfloor>10 * x\<rfloor> - 10 * \<lfloor>x\<rfloor>) mod 10 = \<lfloor>10 * (x - of_int \<lfloor>x\<rfloor>)\<rfloor>"
    unfolding e by simp
  then show ?thesis by (simp add: mod_diff_right_eq [symmetric])
qed

lemma subsec_digits_exact:
  "0 \<le> x \<Longrightarrow> subsec_digits (\<lambda>r. r) n (x - of_int \<lfloor>x\<rfloor>)
     = Inr (map (\<lambda>k. digit_chr (\<lfloor>x * 10 ^ Suc k\<rfloor> mod 10)) [0..<n])"
proof (induction n arbitrary: x)
  case 0
  then show ?case by simp
next
  case (Suc n)
  let ?s = "(x - of_int \<lfloor>x\<rfloor>) * 10"
  have lo: "0 \<le> ?s" by simp
  have "x - of_int \<lfloor>x\<rfloor> < 1" by linarith
  then have hi: "?s < 10" by simp
  note s0 = lo hi
  have tr: "ld_trunc ?s = \<lfloor>10 * x\<rfloor> mod 10"
    using s0 floor_digit [of x] by (simp add: ld_trunc_def mult.commute)
  have v: "ld_trunc (?s + 48) = \<lfloor>10 * x\<rfloor> mod 10 + 48"
    using s0 tr by (simp add: ld_trunc_def)
  have rest: "?s - of_int (ld_trunc ?s) = 10 * x - of_int \<lfloor>10 * x\<rfloor>"
  proof -
    have "?s = 10 * x - of_int (10 * \<lfloor>x\<rfloor>)" by (simp add: algebra_simps)
    moreover from this have "\<lfloor>?s\<rfloor> = \<lfloor>10 * x\<rfloor> - 10 * \<lfloor>x\<rfloor>"
      by (simp only: floor_diff_of_int)
    then have "ld_trunc ?s = \<lfloor>10 * x\<rfloor> - 10 * \<lfloor>x\<rfloor>"
      using s0(1) by (simp only: ld_trunc_def if_True)
    ultimately show ?thesis by simp
  qed
  have m: "0 \<le> \<lfloor>10 * x\<rfloor> mod 10" "\<lfloor>10 * x\<rfloor> mod 10 < 10" by simp_all
  have c: "char_of (nat (\<lfloor>10 * x\<rfloor> mod 10 + 48)) = digit_chr (\<lfloor>10 * x\<rfloor> mod 10)"
    using m by (simp add: digit_chr_def nat_add_distrib)
  have IH: "subsec_digits (\<lambda>r. r) n (10 * x - of_int \<lfloor>10 * x\<rfloor>)
      = Inr (map (\<lambda>k. digit_chr (\<lfloor>10 * x * 10 ^ Suc k\<rfloor> mod 10)) [0..<n])"
    by (rule Suc.IH) (use Suc.prems in simp)
  have sh: "10 * x * 10 ^ Suc k = x * 10 ^ Suc (Suc k)" for k by simp
  define s where "s = ?s"
  note facts = v [folded s_def] rest [folded s_def]
  have "subsec_digits (\<lambda>r. r) (Suc n) (x - of_int \<lfloor>x\<rfloor>)
      = Inr (digit_chr (\<lfloor>10 * x\<rfloor> mod 10)
              # map (\<lambda>k. digit_chr (\<lfloor>x * 10 ^ Suc (Suc k)\<rfloor> mod 10)) [0..<n])"
    unfolding subsec_digits.simps s_def [symmetric] Let_def facts IH sh c
    using m by auto
  also have "\<lfloor>10 * x\<rfloor> = \<lfloor>x * 10 ^ Suc 0\<rfloor>" by (simp add: mult.commute)
  finally show ?case by (simp add: upt_conv_Cons map_Suc_upt [symmetric] del: upt_Suc power_Suc)
qed

lemma subsec_unit_exact:
  assumes "0 < x" and "\<forall>j < k. x * 1000 ^ j < 1" and "1 \<le> x * 1000 ^ k" and "k < max_mult"
  shows "subsec_unit (\<lambda>r. r) x = (k, x * 1000 ^ k)"
  using subsec_scale_exact [of k x 0] assms by (simp add: subsec_unit_def)

lemma subsec_unit_tiny:
  assumes "0 < x" and "\<forall>j < max_mult. x * 1000 ^ j < 1"
  shows "subsec_unit (\<lambda>r. r) x = (0, 0)"
  using subsec_scale_exact [of max_mult x 0] assms by (simp add: subsec_unit_def)

lemma subsec_unit_nonpos: "x \<le> 0 \<Longrightarrow> subsec_unit rnd x = (0, 0)"
  by (simp add: subsec_unit_def subsec_scale_max)

lemma dec_nat_small:
  "n < 1000 \<Longrightarrow> dec_nat n =
     (if 100 \<le> n then [digit_chr (int (n div 100))] else [])
     @ (if 10 \<le> n then [digit_chr (int (n div 10 mod 10))] else [])
     @ [digit_chr (int (n mod 10))]"
  using dec_nat.simps [of n] dec_nat.simps [of "n div 10"] dec_nat.simps [of "n div 10 div 10"]
  by (auto simp: div_mult2_eq [symmetric])

lemma subsec_whole_floor:
  assumes "0 \<le> y" "y < 1000"
  shows "subsec_whole \<lfloor>y\<rfloor> y = dec_nat (nat \<lfloor>y\<rfloor>)"
proof -
  define n where "n = nat \<lfloor>y\<rfloor>"
  have i: "\<lfloor>y\<rfloor> = int n" using assms(1) by (simp add: n_def)
  have n: "n < 1000" using assms i by linarith
  have t: "10 \<le> y \<longleftrightarrow> 10 \<le> n" using i by linarith
  have h: "n div 100 mod 10 = n div 100" using n by simp
  show ?thesis unfolding n_def [symmetric] i subsec_whole_def dec_nat_small [OF n]
    using t h by (auto simp: zdiv_int zmod_int dec_nat_small [OF n])
qed

lemma f_to_fp_exact:
  assumes "0 \<le> y" "y * 10 ^ nat d \<le> 10 ^ 18" "0 \<le> d" "d \<le> 18"
  shows "\<exists>fp. f_to_fp (\<lambda>r. r) d y = Inr fp
           \<and> uint (fp_i fp) = llround (y * 10 ^ nat d) div 10 ^ nat d"
proof -
  define m :: int where "m = 10 ^ nat d"
  define i where "i = llround (y * 10 ^ nat d)"
  have p: "pow10 d = 10 ^ nat d" using assms(3) by (simp add: pow10_def)
  have fl: "\<lfloor>pow10 d\<rfloor> = m" unfolding p m_def
    by (metis floor_of_int of_int_numeral of_int_power)
  have "m \<le> 10 ^ 18" unfolding m_def by (rule power_increasing) (use assms in auto)
  then have m: "0 < m" "m \<le> 10 ^ 18" by (simp_all add: m_def)
  have "\<bar>of_int i - y * 10 ^ nat d\<bar> \<le> 1 / 2"
    unfolding i_def by (rule llround_error)
  then have "of_int i \<le> (10 ^ 18 + 1 :: rat)" using assms(2) by linarith
  then have "of_int i \<le> (of_int (10 ^ 18 + 1) :: rat)" by simp
  then have ib: "i \<le> 10 ^ 18 + 1" by (simp only: of_int_le_iff)
  have i0: "0 \<le> i" unfolding i_def using assms(1) by (intro llround_nonneg) simp
  let ?a = "word_of_int i :: 64 word" and ?b = "word_of_int m :: 64 word"
  have ab: "uint ?a = i" "uint ?b = m"
    using ib i0 m by (simp_all add: uint_word_of_int)
  have "f_to_fp (\<lambda>r. r) d y = Inr \<lparr>fp_i = ?a div ?b, fp_dec = ?a - ?a div ?b * ?b, fp_prec = d\<rparr>"
    unfolding f_to_fp_def Let_def fl using m i0 ib by (simp add: p i_def [symmetric])
  moreover have "uint (?a div ?b) = i div m" using ab by (simp add: uint_div)
  ultimately show ?thesis by (simp add: i_def m_def)
qed

text \<open>The point and the decimals of a value, cut off after the last one.\<close>

definition cut_decimals :: "int \<Rightarrow> rat \<Rightarrow> string" where
  "cut_decimals d y = (if d = 0 then [] else CHR ''.'' # map (\<lambda>j. digit_chr (\<lfloor>y * 10 ^ Suc j\<rfloor> mod 10)) [0..<nat d])"

lemma subsec_frac_exact: "0 \<le> y \<Longrightarrow> 0 \<le> d \<Longrightarrow> subsec_frac (\<lambda>r. r) d y = Inr (cut_decimals d y)"
  using subsec_digits_exact [of y "nat d"] by (simp add: subsec_frac_def cut_decimals_def ld_trunc_def del: power_Suc)

lemma f_to_fp_multiplier: "0 \<le> d \<Longrightarrow> f_to_fp (\<lambda>r. r) d x \<noteq> Inl Division_by_zero"
proof -
  assume "0 \<le> d"
  then have "\<lfloor>pow10 d\<rfloor> \<noteq> 0" by (simp add: pow10_def floor_eq_iff)
  then show ?thesis by (auto simp: f_to_fp_def Let_def)
qed

text \<open>
  The general shape of the output for the value \<open>y\<close> after the scaling: whole part from the
  \<^emph>\<open>rounded\<close> fixed-point value, decimals from the \<^emph>\<open>truncated\<close> one.
\<close>

lemma subsec_string_shape:
  assumes u: "subsec_unit (\<lambda>r. r) x = (k, y)" and y: "0 \<le> y" "y * 10 ^ nat d \<le> 10 ^ 18" and d: "0 \<le> d" "d \<le> 18"
  shows "subsec_string (\<lambda>r. r) (Fin x) d =
    Inr (subsec_whole (llround (y * 10 ^ nat d) div 10 ^ nat d) y @ cut_decimals d y @ CHR '' '' # unit_strings_sub ! k)"
proof -
  obtain fp where fp: "f_to_fp (\<lambda>r. r) d y = Inr fp"
    "uint (fp_i fp) = llround (y * 10 ^ nat d) div 10 ^ nat d"
    using f_to_fp_exact [OF y d] by blast
  show ?thesis using f_to_fp_multiplier [OF d(1)]
    by (simp add: subsec_string_def subsec_print_def u fp subsec_frac_exact [OF y(1) d(1)])
qed

lemma subsec_string_exact:
  assumes x: "0 < x" "\<forall>j < k. x * 1000 ^ j < 1" "k < max_mult"
    and y: "y = x * 1000 ^ k" "1 \<le> y" "y < 1000"
    and d: "0 < d" "d \<le> 15"
  shows "subsec_string (\<lambda>r. r) (Fin x) d =
    Inr (subsec_whole (llround (y * 10 ^ nat d) div 10 ^ nat d) y
         @ CHR ''.'' # map (\<lambda>j. digit_chr (\<lfloor>y * 10 ^ Suc j\<rfloor> mod 10)) [0..<nat d]
         @ CHR '' '' # unit_strings_sub ! k)"
proof -
  have "y * 10 ^ nat d \<le> 1000 * 10 ^ 15"
    by (rule mult_mono) (use y d power_increasing [of "nat d" 15 "10::rat"] in auto)
  then show ?thesis using subsec_string_shape [of x k y d] subsec_unit_exact [OF x(1,2) _ x(3)] y d
    by (simp add: cut_decimals_def del: power_Suc)
qed

text \<open>
  The whole part of the rounded value is that of the value, or one more: the carry.
\<close>

definition rounded_whole :: "int \<Rightarrow> rat \<Rightarrow> int" where
  "rounded_whole d y = (if llround (y * 10 ^ nat d) < (\<lfloor>y\<rfloor> + 1) * 10 ^ nat d then \<lfloor>y\<rfloor> else \<lfloor>y\<rfloor> + 1)"

lemma rounded_whole_div:
  assumes "0 \<le> y"
  shows "llround (y * 10 ^ nat d) div 10 ^ nat d = rounded_whole d y"
proof -
  define m :: int where "m = 10 ^ nat d"
  let ?i = "llround (y * of_int m)"
  have m: "0 < m" "(of_int m :: rat) = 10 ^ nat d" by (simp_all add: m_def)
  have i: "?i = \<lfloor>y * of_int m + 1 / 2\<rfloor>" using assms m(1) by (simp add: llround_def)
  have "of_int (\<lfloor>y\<rfloor> * m) \<le> y * of_int m" using m(1) by (simp add: mult_right_mono)
  then have lo: "\<lfloor>y\<rfloor> * m \<le> ?i" unfolding i le_floor_iff by linarith
  have "y * of_int m < (of_int \<lfloor>y\<rfloor> + 1) * of_int m" by (rule mult_strict_right_mono) (use m(1) in \<open>linarith, simp\<close>)
  then have "y * of_int m < of_int ((\<lfloor>y\<rfloor> + 1) * m)" by simp
  then have hi: "?i \<le> (\<lfloor>y\<rfloor> + 1) * m" unfolding i by linarith
  have "?i div m = (if ?i < (\<lfloor>y\<rfloor> + 1) * m then \<lfloor>y\<rfloor> else \<lfloor>y\<rfloor> + 1)"
  proof (cases "?i < (\<lfloor>y\<rfloor> + 1) * m")
    case True
    then have "?i - \<lfloor>y\<rfloor> * m < m" by (simp add: algebra_simps)
    then have "(?i - \<lfloor>y\<rfloor> * m) div m = 0" using lo by simp
    moreover have "?i = (?i - \<lfloor>y\<rfloor> * m) + \<lfloor>y\<rfloor> * m" by simp
    ultimately have "?i div m = \<lfloor>y\<rfloor>" using m(1) by (metis add_0 div_mult_self1 less_irrefl add.commute)
    then show ?thesis using True by simp
  next
    case False
    then have "?i = (\<lfloor>y\<rfloor> + 1) * m" using hi by simp
    then show ?thesis using False m(1) by simp
  qed
  then show ?thesis by (simp add: rounded_whole_def m_def)
qed

text \<open>
  The digits printed of the whole part: the decimal numeral, of which the thousands are lost, and so is
  the 1 of a 10 that a carry makes of a value below 10.
\<close>

lemma subsec_whole_rounded:
  assumes "1 \<le> y" "r = \<lfloor>y\<rfloor> \<or> r = \<lfloor>y\<rfloor> + 1"
  shows "subsec_whole r y =
    (if 1000 \<le> r then [digit_chr (r div 100 mod 10), digit_chr (r div 10 mod 10), digit_chr (r mod 10)]
     else if r = 10 \<and> y < 10 then ''0'' else dec_nat (nat r))"
proof -
  define n where "n = nat r"
  have "1 \<le> \<lfloor>y\<rfloor>" using assms(1) by (simp add: le_floor_iff)
  then have r: "r = int n" "1 \<le> n" using assms(2) unfolding n_def by linarith+
  have t: "10 \<le> y \<longleftrightarrow> 10 \<le> n \<and> \<not> (r = 10 \<and> y < 10)" using assms(2) r by linarith
  consider "1000 \<le> r" | "r < 1000" "r = 10 \<and> y < 10" | "r < 1000" "\<not> (r = 10 \<and> y < 10)" by linarith
  then show ?thesis
  proof cases
    case 1
    then have "10 \<le> y" using assms(2) by linarith
    then show ?thesis using 1 by (simp add: subsec_whole_def)
  next
    case 2
    then show ?thesis by (simp add: subsec_whole_def)
  next
    case 3
    have n: "n < 1000" using 3(1) r(1) by simp
    have h: "n div 100 mod 10 = n div 100" using n by simp
    have "subsec_whole r y = dec_nat n" unfolding r(1) subsec_whole_def dec_nat_small [OF n]
      using t 3(2) h by (auto simp: zdiv_int zmod_int dec_nat_small [OF n])
    then show ?thesis using 3 unfolding n_def by (metis not_less)
  qed
qed

lemma subsec_string_zero:
  assumes "x \<le> 0 \<or> x * 1000 ^ 5 < 1" "0 \<le> d" "d \<le> 18"
  shows "subsec_string (\<lambda>r. r) (Fin x) d = Inr (''0'' @ (if d = 0 then [] else CHR ''.'' # replicate (nat d) (CHR ''0'')) @ '' s'')"
proof -
  have "subsec_unit (\<lambda>r. r) x = (0, 0)"
  proof (cases "x \<le> 0")
    case False
    have "x * 1000 ^ j < 1" if "j < max_mult" for j
    proof -
      have "(1000::rat) ^ j \<le> 1000 ^ 5" by (rule power_increasing) (use that in \<open>simp_all add: max_mult_6\<close>)
      then have "x * 1000 ^ j \<le> x * 1000 ^ 5" using False by (intro mult_left_mono) auto
      then show ?thesis using assms(1) False by linarith
    qed
    then show ?thesis using False by (intro subsec_unit_tiny) simp_all
  qed (rule subsec_unit_nonpos)
  moreover have "map (\<lambda>j. CHR ''0'') [0..<nat d] = replicate (nat d) (CHR ''0'')" by (simp add: map_replicate_trivial map_replicate_const)
  moreover have "\<lfloor>1 / 2 :: rat\<rfloor> = 0" by (simp add: floor_eq_iff)
  ultimately show ?thesis using subsec_string_shape [of x 0 0 d] assms(2,3)
    by (simp add: cut_decimals_def subsec_whole_def llround_def unit_strings_sub_def)
qed

section \<open>Properties\<close>

text \<open>
  The string of \<^verbatim>\<open>subsec_string\<close> with its NUL fits the 32-byte buffer for every value, every
  rounding of the machine and up to 24 decimals.
\<close>

lemma subsec_string_fits:
  assumes "subsec_string rnd sz dec_pts = Inr s" "dec_pts \<le> 24"
  shows "length s + 1 \<le> 32"
  using subsec_string_length_aux [OF assms(1)] assms(2) by simp

text \<open>
  C38: what \<^verbatim>\<open>subsec_string\<close> prints when the long double arithmetic is exact, for up to 18 decimals. A value that is
  not positive, or below a femtosecond, prints as zero seconds. Any other one is scaled to the
  first unit in which it is at least 1 (and must be in the range of the conversion, \<open>10\<^sup>1\<^sup>8\<close> in units of the last decimal). Its
  decimals are cut, not rounded; its whole part is that of the value rounded to the decimals, so one more when
  the rounding carries. The whole part prints as its decimal numeral, except that of 1000 and more only the last
  three digits are printed, and that a carry from 9 to 10 prints as 0.
\<close>

theorem subsec_string_value:
  assumes "0 \<le> d" "d \<le> 18"
  shows "(x \<le> 0 \<or> x * 1000 ^ 5 < 1 \<longrightarrow> subsec_string (\<lambda>r. r) (Fin x) d =
        Inr (''0'' @ (if d = 0 then [] else CHR ''.'' # replicate (nat d) (CHR ''0'')) @ '' s''))
    \<and> (\<forall>k y r. k < max_mult \<and> 0 < x \<and> (\<forall>j < k. x * 1000 ^ j < 1) \<and> y = x * 1000 ^ k \<and> 1 \<le> y \<and> y * 10 ^ nat d \<le> 10 ^ 18
        \<and> r = (if llround (y * 10 ^ nat d) < (\<lfloor>y\<rfloor> + 1) * 10 ^ nat d then \<lfloor>y\<rfloor> else \<lfloor>y\<rfloor> + 1)
      \<longrightarrow> subsec_string (\<lambda>r. r) (Fin x) d =
        Inr ((if 1000 \<le> r then [digit_chr (r div 100 mod 10), digit_chr (r div 10 mod 10), digit_chr (r mod 10)]
              else if r = 10 \<and> y < 10 then ''0'' else dec_nat (nat r))
          @ (if d = 0 then [] else CHR ''.'' # map (\<lambda>j. digit_chr (\<lfloor>y * 10 ^ Suc j\<rfloor> mod 10)) [0..<nat d])
          @ CHR '' '' # unit_strings_sub ! k))"
proof (intro conjI allI impI; (elim conjE)?)
  assume "x \<le> 0 \<or> x * 1000 ^ 5 < 1"
  then show "subsec_string (\<lambda>r. r) (Fin x) d =
      Inr (''0'' @ (if d = 0 then [] else CHR ''.'' # replicate (nat d) (CHR ''0'')) @ '' s'')"
    by (rule subsec_string_zero [OF _ assms])
next
  fix k :: nat and y :: rat and r :: int
  assume k: "k < max_mult" "0 < x" "\<forall>j < k. x * 1000 ^ j < 1" and y: "y = x * 1000 ^ k" "1 \<le> y" "y * 10 ^ nat d \<le> 10 ^ 18"
    and r: "r = (if llround (y * 10 ^ nat d) < (\<lfloor>y\<rfloor> + 1) * 10 ^ nat d then \<lfloor>y\<rfloor> else \<lfloor>y\<rfloor> + 1)"
  have u: "subsec_unit (\<lambda>r. r) x = (k, y)" using subsec_unit_exact [OF k(2,3) _ k(1)] y by simp
  have "rounded_whole d y = r" using r by (simp only: rounded_whole_def)
  then have "subsec_string (\<lambda>r. r) (Fin x) d = Inr (subsec_whole r y @ cut_decimals d y @ CHR '' '' # unit_strings_sub ! k)"
    using subsec_string_shape [OF u _ y(3) assms] rounded_whole_div [of y d] y(2) by simp
  moreover have "r = \<lfloor>y\<rfloor> \<or> r = \<lfloor>y\<rfloor> + 1" using r by (simp split: if_splits)
  ultimately show "subsec_string (\<lambda>r. r) (Fin x) d =
      Inr ((if 1000 \<le> r then [digit_chr (r div 100 mod 10), digit_chr (r div 10 mod 10), digit_chr (r mod 10)]
            else if r = 10 \<and> y < 10 then ''0'' else dec_nat (nat r))
        @ (if d = 0 then [] else CHR ''.'' # map (\<lambda>j. digit_chr (\<lfloor>y * 10 ^ Suc j\<rfloor> mod 10)) [0..<nat d])
        @ CHR '' '' # unit_strings_sub ! k)"
    using subsec_whole_rounded [OF y(2)] by (simp only: cut_decimals_def)
qed

theorem subsec_string_value_witness:
  "subsec_string (\<lambda>r. r) (Fin (1 / 64)) 3 = Inr ''15.625 ms''
   \<and> subsec_string (\<lambda>r. r) (Fin (319 / 32)) 1 = Inr ''0.9 s'' \<and> subsec_string (\<lambda>r. r) (Fin 1234) 1 = Inr ''234.0 s''
   \<and> subsec_string (\<lambda>r. r) (Fin (1 / 10 ^ 16)) 2 = Inr ''0.00 s''"
proof (intro conjI)
  note v = subsec_string_value [THEN conjunct2, rule_format, OF _ _ conjI [OF _ conjI [OF _ conjI [OF _ conjI [OF refl conjI [OF _ conjI [OF _ refl]]]]]]]
  show "subsec_string (\<lambda>r. r) (Fin (1 / 64)) 3 = Inr ''15.625 ms''"
    using v [of 3 1 "1 / 64"] by (simp add: max_mult_6 unit_strings_sub_def llround_def dec_nat_small numeral_3_eq_3)
  show "subsec_string (\<lambda>r. r) (Fin (319 / 32)) 1 = Inr ''0.9 s''"
    using v [of 1 0 "319 / 32"] by (simp add: max_mult_6 unit_strings_sub_def llround_def)
  show "subsec_string (\<lambda>r. r) (Fin 1234) 1 = Inr ''234.0 s''"
    using v [of 1 0 1234] by (simp add: max_mult_6 unit_strings_sub_def llround_def)
  show "subsec_string (\<lambda>r. r) (Fin (1 / 10 ^ 16)) 2 = Inr ''0.00 s''"
    using subsec_string_value [of 2 "1 / 10 ^ 16"] by (simp add: numeral_2_eq_2)
qed

text \<open>
  The whole part is printed from the rounded value but the decimals from the cut one: 1.96875 s
  with one decimal prints as 2.9 s, 9.96875 s as 0.9 s (the tens digit of the carry is not printed),
  and a value of a thousand seconds or more loses its thousands.
\<close>

lemma subsec_string_carry:
  "subsec_string (\<lambda>r. r) (Fin (63 / 32)) 1 = Inr ''2.9 s''
   \<and> subsec_string (\<lambda>r. r) (Fin (319 / 32)) 1 = Inr ''0.9 s''
   \<and> subsec_string (\<lambda>r. r) (Fin 1234) 0 = Inr ''234 s''"
proof (intro conjI)
  show "subsec_string (\<lambda>r. r) (Fin (63 / 32)) 1 = Inr ''2.9 s''"
    by (subst subsec_string_exact [of _ 0 "63 / 32"])
      (simp_all add: max_mult_6 unit_strings_sub_def llround_def subsec_whole_def)
  show "subsec_string (\<lambda>r. r) (Fin (319 / 32)) 1 = Inr ''0.9 s''"
    by (subst subsec_string_exact [of _ 0 "319 / 32"])
      (simp_all add: max_mult_6 unit_strings_sub_def llround_def subsec_whole_def)
  show "subsec_string (\<lambda>r. r) (Fin 1234) 0 = Inr ''234 s''"
    by (simp add: subsec_string_def subsec_print_def subsec_unit_def subsec_scale_done max_mult_6
        f_to_fp_def pow10_def llround_def subsec_frac_def subsec_whole_def unit_strings_sub_def
        Let_def)
qed

end
