(* ===== verification/Setup.thy ===== *)
theory Setup
  imports Fd_Modes Comms Units
begin

text \<open>
  \<^verbatim>\<open>setup.c\<close> and \<^verbatim>\<open>sched.c\<close>: the configuration record, its defaults, the command line, the scheduling
  calls and the communication setup. \<^verbatim>\<open>getopt_long\<close> of the C library is modelled on options that are
  already split from their arguments; \<^verbatim>\<open>strtod\<close> is an argument. The usage text and the
  announcement of the run are in the theory \<open>Usage\<close>.
\<close>

section \<open>The configuration\<close>

text \<open>
  \<^verbatim>\<open>config_struct\<close>, less the fields that only carry texts (\<^verbatim>\<open>argv0\<close>, \<^verbatim>\<open>sched_string\<close>), that nothing sets
  (\<^verbatim>\<open>verbosity\<close>) or reads (\<^verbatim>\<open>cur_sched_policy\<close>, \<^verbatim>\<open>cur_sched_prio\<close>, \<^verbatim>\<open>sched_rr_quantum\<close>), and with the
  descriptors as the wiring of the two threads.
\<close>

datatype thread_mode = Thread_fork | Thread_thread | Thread_pthread | Thread_context

record config =
  thread_mode :: thread_mode
  stats_summary :: bool
  cfg_set_affinity :: bool
  num_cpus :: int
  num_online_cpus :: int
  cpu :: "tid \<Rightarrow> int"
  comm_mode_index :: int
  uid :: int
  gid :: int
  euid :: int
  egid :: int
  wires :: wiring
  min_stack :: int
  sched_policy :: int
  sched_prio :: int
  size_align_flag :: int
  monitor_check_frequency :: int
  stats_interval :: timeval
  runtime :: int
  stats_headers_frequency :: int
  output_fd :: int
  cpu_dma_latency :: int
  cfg_ops :: comm_mode_ops
  cpu_mhz :: rat
  cpu_cycle_time :: rat

definition SCHED_OTHER :: int where "SCHED_OTHER = 0"
definition SCHED_FIFO :: int where "SCHED_FIFO = 1"
definition SCHED_RR :: int where "SCHED_RR = 2"

definition DEFAULT_STATS_INTERVAL :: timeval where
  "DEFAULT_STATS_INTERVAL = \<lparr>tv_sec = 1, tv_usec = 0\<rparr>"

text \<open>What the system answers to the calls of \<^verbatim>\<open>setup_defaults\<close>.\<close>

record sys_env =
  env_uid :: int
  env_gid :: int
  env_euid :: int
  env_egid :: int
  env_nproc_conf :: int
  env_nproc_onln :: int
  env_min_stack :: int

definition num_cpus_call :: "int \<Rightarrow> int res" where
  "num_cpus_call sysconf =
     (if to_int sysconf = -1 then Inl (Exit_fail ''sysconf(_SC_NPROCESSORS_CONF): error: %s'')
      else Inr (to_int sysconf))"

definition num_online_cpus_call :: "int \<Rightarrow> int res" where
  "num_online_cpus_call sysconf =
     (if to_int sysconf = -1 then Inl (Exit_fail ''sysconf(_SC_NPROCESSORS_ONLN): error: %s'')
      else Inr (to_int sysconf))"

text \<open>The zeroed configuration before \<^verbatim>\<open>main\<close>, and the defaults.\<close>

definition zero_config :: config where
  "zero_config = \<lparr>thread_mode = Thread_fork, stats_summary = False, cfg_set_affinity = False,
     num_cpus = 0, num_online_cpus = 0, cpu = (\<lambda>_. 0), comm_mode_index = 0, uid = 0, gid = 0, euid = 0, egid = 0,
     wires = \<lparr>mouth = (\<lambda>_. 0), ear = (\<lambda>_. 0)\<rparr>, min_stack = 0, sched_policy = 0, sched_prio = 0,
     size_align_flag = 0, monitor_check_frequency = 0, stats_interval = \<lparr>tv_sec = 0, tv_usec = 0\<rparr>,
     runtime = 0, stats_headers_frequency = 0, output_fd = 0, cpu_dma_latency = 0,
     cfg_ops = no_ops, cpu_mhz = 0, cpu_cycle_time = 0\<rparr>"

definition setup_defaults :: "sys_env \<Rightarrow> config \<Rightarrow> config res" where
  "setup_defaults env c =
     bind_res (num_cpus_call (env_nproc_conf env)) (\<lambda>n.
     bind_res (num_online_cpus_call (env_nproc_onln env)) (\<lambda>onln.
     bind_res (get_min_stack_size (env_min_stack env)) (\<lambda>stk.
       Inr (c\<lparr>output_fd := 1, monitor_check_frequency := 250, runtime := 10,
              stats_interval := DEFAULT_STATS_INTERVAL, stats_headers_frequency := 10,
              thread_mode := Thread_thread, comm_mode_index := 0,
              cfg_ops := (cfg_ops c)\<lparr>comm_ping := Some F_comm_ping_generic,
                comm_pong := Some F_comm_pong_generic, comm_do_send := Some F_comm_do_send_generic,
                comm_do_recv := Some F_comm_do_recv_generic, comm_cleanup := Some F_comm_no_cleanup\<rparr>,
              cpu_dma_latency := -1, sched_policy := SCHED_FIFO, sched_prio := 1,
              size_align_flag := 2, uid := env_uid env, gid := env_gid env,
              euid := env_euid env, egid := env_egid env,
              num_cpus := to_short n, num_online_cpus := to_short onln, min_stack := stk,
              cpu := (\<lambda>_. -1)\<rparr>))))"

section \<open>Scheduling (sched.c)\<close>

text \<open>\<^verbatim>\<open>strcmp(tok, ...)\<close> on the NULL that \<^verbatim>\<open>strtok_r\<close> returns for an argument with no token is a fault.\<close>

definition parse_sched :: "string \<Rightarrow> config \<Rightarrow> config res" where
  "parse_sched arg c =
     (case strtok_r arg '':'' of
        (None, saveptr) \<Rightarrow> Inl Null_pointer
      | (Some tok, saveptr) \<Rightarrow>
          if strcmp tok ''fifo'' = 0
          then Inr (c\<lparr>sched_policy := SCHED_FIFO, sched_prio := to_int (fst (strtol saveptr))\<rparr>)
          else if strcmp tok ''rr'' = 0
          then Inr (c\<lparr>sched_policy := SCHED_RR, sched_prio := to_int (fst (strtol saveptr))\<rparr>)
          else Inr c)"

text \<open>The call \<^verbatim>\<open>set_priorities\<close> makes: policy and priority, for root only.\<close>

definition set_priorities :: "config \<Rightarrow> (int \<times> int) option" where
  "set_priorities c = (if euid c = 0 then Some (sched_policy c, sched_prio c) else None)"

text \<open>\<^verbatim>\<open>get_sched_interval\<close>: the new \<^verbatim>\<open>sched_rr_quantum\<close>, given the kernel's answer.\<close>

definition get_sched_interval :: "timespec option \<Rightarrow> rat \<Rightarrow> rat" where
  "get_sched_interval ans old =
     (case ans of None \<Rightarrow> old | Some tp \<Rightarrow> (of_int (ts_sec tp) + of_int (ts_nsec tp)) / 10 ^ 9)"

section \<open>The command line\<close>

definition parse_thread_mode :: "string \<Rightarrow> config \<Rightarrow> config" where
  "parse_thread_mode arg c =
     (if strcmp arg ''fork'' = 0 then c\<lparr>thread_mode := Thread_fork\<rparr>
      else if strcmp arg ''pthread'' = 0 then c\<lparr>thread_mode := Thread_pthread\<rparr>
      else if strcmp arg ''clone'' = 0 then c\<lparr>thread_mode := Thread_thread\<rparr>
      else if strcmp arg ''thread'' = 0 then c\<lparr>thread_mode := Thread_thread\<rparr>
      else c)"

text \<open>The long options with whether they take an argument and their letter, and the short ones.\<close>

definition long_options :: "(string \<times> bool \<times> char) list" where
  "long_options =
     [(''runtime'', True, CHR ''r''), (''update'', True, CHR ''u''), (''mode'', True, CHR ''m''),
      (''thread'', True, CHR ''t''), (''thread_mode'', True, CHR ''t''), (''sched'', True, CHR ''p''),
      (''latency'', True, CHR ''l''), (''option'', True, CHR ''o''), (''secret_sauce'', False, CHR ''z'')]"

definition short_options :: "(char \<times> bool) list" where
  "short_options =
     [(CHR ''m'', True), (CHR ''t'', True), (CHR ''p'', True), (CHR ''r'', True), (CHR ''u'', True),
      (CHR ''l'', True), (CHR ''z'', False), (CHR ''o'', True)]"

text \<open>
  One option of the command line as given, with its argument if it has one, and what \<^verbatim>\<open>getopt_long\<close>
  returns for it: the letter and \<^verbatim>\<open>optarg\<close>, or \<^verbatim>\<open>'?'\<close> (\<open>None\<close>). A long name matches exactly, or as a
  prefix of options that all mean the same.
\<close>

datatype cmd_opt = Short char "string option" | Long string "string option"

definition accept_opt :: "bool \<Rightarrow> char \<Rightarrow> string option \<Rightarrow> (char \<times> string) option" where
  "accept_opt has_arg c arg =
     (case arg of
        Some a \<Rightarrow> if has_arg then Some (c, a) else None
      | None \<Rightarrow> if has_arg then None else Some (c, []))"

definition is_prefix :: "string \<Rightarrow> string \<Rightarrow> bool" where
  "is_prefix p s \<longleftrightarrow> take (length p) s = p"

definition getopt_long :: "cmd_opt \<Rightarrow> (char \<times> string) option" where
  "getopt_long x =
     (case x of
        Short c arg \<Rightarrow>
          (case map_of short_options c of None \<Rightarrow> None | Some has_arg \<Rightarrow> accept_opt has_arg c arg)
      | Long name arg \<Rightarrow>
          (case map_of long_options name of
             Some (has_arg, c) \<Rightarrow> accept_opt has_arg c arg
           | None \<Rightarrow>
               (case remdups (map snd (filter (\<lambda>l. is_prefix name (fst l)) long_options)) of
                  [(has_arg, c)] \<Rightarrow> accept_opt has_arg c arg
                | _ \<Rightarrow> None)))"

text \<open>\<^verbatim>\<open>llrintl\<close> in the default rounding mode: to nearest, ties to even.\<close>

definition llrint :: "rat \<Rightarrow> int" where
  "llrint x =
     (let f = \<lfloor>x\<rfloor>; d = x - of_int f
      in if d < 1 / 2 then f else if 1 / 2 < d then f + 1 else if even f then f else f + 1)"

definition set_update :: "(rat \<Rightarrow> rat) \<Rightarrow> long_double \<Rightarrow> config \<Rightarrow> config res" where
  "set_update rnd arg_ld c =
     (case arg_ld of
        NaN \<Rightarrow> Inl Unspecified
      | Infinite neg \<Rightarrow> if neg then Inr (c\<lparr>stats_interval := DEFAULT_STATS_INTERVAL\<rparr>) else Inl Unspecified
      | Fin x \<Rightarrow>
          if x < 0 then Inr (c\<lparr>stats_interval := DEFAULT_STATS_INTERVAL\<rparr>)
          else if x = 0 then Inr (c\<lparr>stats_summary := True\<rparr>)
          else (let arg_ll = llrint (rnd (x * 1000000))
                in if arg_ll < long_min \<or> long_max < arg_ll then Inl Unspecified
                   else Inr (c\<lparr>stats_interval :=
                     \<lparr>tv_sec = c_div arg_ll 1000000, tv_usec = c_mod arg_ll 1000000\<rparr>\<rparr>)))"

text \<open>
  The state of the option loop: the configuration and \<^verbatim>\<open>comm_option_string\<close>. One round of the
  \<^verbatim>\<open>switch\<close>; an option that is not recognised prints the usage and exits.
\<close>

definition opt_step :: "(rat \<Rightarrow> rat) \<Rightarrow> (string \<Rightarrow> long_double) \<Rightarrow> comm_registry \<Rightarrow> cmd_opt
    \<Rightarrow> config \<times> string option \<Rightarrow> (config \<times> string option) res" where
  "opt_step rnd strtod reg x s =
     (case s of (c, comm_option_string) \<Rightarrow>
      case getopt_long x of
        None \<Rightarrow> Inl (Exit_status 1)
      | Some (opt, optarg) \<Rightarrow>
          if opt = CHR ''m'' then
            bind_res (parse_comm_mode optarg reg) (\<lambda>(ret, idx, out).
              Inr (c\<lparr>comm_mode_index := idx\<rparr>, comm_option_string))
          else if opt = CHR ''t'' then Inr (parse_thread_mode optarg c, comm_option_string)
          else if opt = CHR ''p'' then
            bind_res (parse_sched optarg c) (\<lambda>c1. Inr (c1, comm_option_string))
          else if opt = CHR ''r'' then Inr (c\<lparr>runtime := strtoul optarg\<rparr>, comm_option_string)
          else if opt = CHR ''u'' then
            bind_res (set_update rnd (strtod optarg) c) (\<lambda>c1. Inr (c1, comm_option_string))
          else if opt = CHR ''z'' then Inr (c\<lparr>cpu_dma_latency := 0\<rparr>, comm_option_string)
          else if opt = CHR ''o'' then Inr (c, Some optarg)
          else if opt = CHR ''l'' then
            Inr (c\<lparr>cpu_dma_latency := max (-1) (fst (strtol optarg))\<rparr>, comm_option_string)
          else Inl (Exit_status 1))"

text \<open>
  \<^verbatim>\<open>parse_opts\<close>: the options in order, the option string to the mode chosen last (\<open>parse_options\<close>,
  over the state of the modes), and two remaining arguments as the cpus.
\<close>

definition set_cpus :: "string list \<Rightarrow> config \<Rightarrow> config" where
  "set_cpus rest c =
     (case rest of
        [a, b] \<Rightarrow> c\<lparr>cfg_set_affinity := True,
                   cpu := (\<lambda>t. case t of Ping \<Rightarrow> to_short (fst (strtol a)) | Pong \<Rightarrow> to_short (fst (strtol b)))\<rparr>
      | _ \<Rightarrow> c)"

definition parse_opts :: "(rat \<Rightarrow> rat) \<Rightarrow> (string \<Rightarrow> long_double) \<Rightarrow> comm_registry
    \<Rightarrow> (int \<Rightarrow> string \<Rightarrow> 'm \<Rightarrow> 'm res) \<Rightarrow> cmd_opt list \<times> string list \<Rightarrow> config \<times> 'm \<Rightarrow> (config \<times> 'm) res" where
  "parse_opts rnd strtod reg parse_options args s =
     bind_res (fold_res (opt_step rnd strtod reg) (fst args) (fst s, None)) (\<lambda>(c, comm_option_string).
       bind_res (case comm_option_string of
                   None \<Rightarrow> Inr (snd s)
                 | Some str \<Rightarrow> parse_options (comm_mode_index c) str (snd s)) (\<lambda>m.
         Inr (set_cpus (snd args) c, m)))"

section \<open>The communication setup\<close>

text \<open>
  \<^verbatim>\<open>do_comm_setup\<close>: the frequency estimate (\<open>mhz\<close>), the operations of the chosen mode, the shared
  area (its mapping is \<open>len\<close> aligned), the pairs, and the scheduling call at the end.
\<close>

definition do_comm_setup :: "rat \<Rightarrow> comm_registry \<Rightarrow> (comm_fn \<Rightarrow> 'w \<Rightarrow> ((int \<times> int) \<times> 'w) res) \<Rightarrow> 32 word
    \<Rightarrow> config \<times> 'w \<Rightarrow> (config \<times> 'w \<times> 32 word \<times> (int \<times> int) option) res" where
  "do_comm_setup mhz reg run_pair run_data_size s =
     (case s of (c, w) \<Rightarrow>
      bind_res (aget (reg_array reg) (comm_mode_index c)) (\<lambda>e.
        let c1 = c\<lparr>cpu_mhz := mhz, cpu_cycle_time := 1 / mhz / 10 ^ 6,
                   cfg_ops := (mi_ops e)\<lparr>comm_show_options := comm_show_options (cfg_ops c),
                                        comm_parse_options := comm_parse_options (cfg_ops c)\<rparr>\<rparr>
        in bind_res (make_pairs (case comm_make_pair (cfg_ops c1) of
                                    None \<Rightarrow> (\<lambda>_. Inl Null_pointer) | Some f \<Rightarrow> run_pair f) w) (\<lambda>(wi, w1).
             Inr (c1\<lparr>wires := wi\<rparr>, w1, map_shared_area (\<lambda>len. len) run_data_size (size_align_flag c1),
                  set_priorities c1))))"

section \<open>Lemmas\<close>

lemma llrint_error: "\<bar>of_int (llrint x) - x\<bar> \<le> 1 / 2"
proof -
  define f where "f = \<lfloor>x\<rfloor>"
  have "of_int f \<le> x" "x < of_int f + 1" unfolding f_def by linarith+
  then show ?thesis unfolding llrint_def f_def [symmetric] Let_def by (auto simp: abs_le_iff)
qed

lemma llrint_nonneg: "0 \<le> x \<Longrightarrow> 0 \<le> llrint x"
  by (auto simp: llrint_def Let_def)

lemma usec_split:
  assumes "0 \<le> n"
  shows "tv_norm \<lparr>tv_sec = c_div n 1000000, tv_usec = c_mod n 1000000\<rparr>
       \<and> tv_total \<lparr>tv_sec = c_div n 1000000, tv_usec = c_mod n 1000000\<rparr> = n"
  using assms by (simp add: tv_norm_def tv_total_def)

lemma strtok_r_token:
  assumes "\<forall>c \<in> set a. c \<noteq> CHR '':''" "a \<noteq> []"
  shows "strtok_r (a @ CHR '':'' # r) '':'' = (Some a, r)"
proof -
  have d: "dropWhile (\<lambda>c. c \<in> set '':'') (a @ CHR '':'' # r) = a @ CHR '':'' # r"
    using assms by (cases a) simp_all
  have "takeWhile (\<lambda>c. c \<notin> set '':'') (a @ CHR '':'' # r) = a"
    "dropWhile (\<lambda>c. c \<notin> set '':'') (a @ CHR '':'' # r) = CHR '':'' # r"
    using assms(1) by (simp_all add: takeWhile_append dropWhile_append)
  then show ?thesis using d by (simp add: strtok_r_def)
qed

lemma strtok_r_none: "\<forall>c \<in> set a. c = CHR '':'' \<Longrightarrow> strtok_r a '':'' = (None, [])"
proof -
  assume "\<forall>c \<in> set a. c = CHR '':''"
  then have "dropWhile (\<lambda>c. c \<in> set '':'') a = []" by simp
  then show ?thesis by (simp add: strtok_r_def)
qed

lemma strtol_prio: "int n < 2 ^ 31 \<Longrightarrow> to_int (fst (strtol (dec_nat n))) = int n"
  using strtol_dec_nat [of "[]" n] by (simp add: long_max_def to_int_id)

lemma opt_step_mode:
  "opt_step rnd strtod reg (Short (CHR ''m'') (Some name)) (c, str) =
     bind_res (parse_comm_mode name reg) (\<lambda>(ret, idx, out). Inr (c\<lparr>comm_mode_index := idx\<rparr>, str))"
  by (simp add: opt_step_def getopt_long_def short_options_def accept_opt_def)

lemma fold_res_append:
  "fold_res f (xs @ ys) s = bind_res (fold_res f xs s) (fold_res f ys)"
proof (induction xs arbitrary: s)
  case (Cons x xs)
  then show ?case by (cases "f x s") simp_all
qed simp

text \<open>The entry of a mode in a registry built by the constructors.\<close>

lemma built_entry:
  assumes "distinct (map (ii_name \<circ> fst) ms)" "run_constructors ms initial_registry = Inr r"
    "i < length ms"
  shows "\<exists>e. aget (reg_array r) (int i) = Inr e \<and> mi_ops e = fill_ops (snd (ms ! i))"
    and "parse_comm_mode (ii_name (fst (ms ! i))) r = Inr (int i, int i, [])"
proof -
  have ok: "reg_ok r" and v: "mode_view r = map mode_abs ms"
    using run_constructors_ok [OF assms(1)] assms(2) by auto
  have l: "i < length (entries r)" using arg_cong [OF v, of length] assms(3) by (simp add: mode_view_def)
  then have "i < nat (reg_count r)" using reg_ok_entries(2) [OF ok] by simp
  note f = reg_ok_entries(3) [OF ok, rule_format, OF this] and g = reg_ok_entries(4) [OF ok this]
  have "mode_view r ! i = mode_abs (ms ! i)" using v assms(3) by simp
  then have "mi_ops (entries r ! i) = fill_ops (snd (ms ! i))"
    using l by (simp add: mode_view_def mode_abs_def)
  then show "\<exists>e. aget (reg_array r) (int i) = Inr e \<and> mi_ops e = fill_ops (snd (ms ! i))"
    using f g l by auto
  have "distinct (map fst (mode_view r))" using assms(1) by (simp add: v mode_abs_def comp_def)
  then show "parse_comm_mode (ii_name (fst (ms ! i))) r = Inr (int i, int i, [])"
    using parse_comm_mode_known [OF ok, of i] assms(3) by (simp add: v mode_abs_def)
qed

section \<open>Well-formed configurations\<close>

text \<open>
  The types of the fields in the code and what the rest of the program relies on: the chosen mode is
  an entry of the table, the interval is one that \<^verbatim>\<open>setitimer\<close> accepts, and so on.
\<close>

definition config_ok :: "comm_registry \<Rightarrow> config \<Rightarrow> bool" where
  "config_ok reg c \<longleftrightarrow> 0 \<le> comm_mode_index c \<and> comm_mode_index c < reg_count reg
     \<and> thread_mode c \<noteq> Thread_context
     \<and> 0 \<le> runtime c \<and> runtime c \<le> ulong_max
     \<and> tv_norm (stats_interval c) \<and> 0 \<le> tv_sec (stats_interval c)
     \<and> -1 \<le> cpu_dma_latency c \<and> cpu_dma_latency c \<le> long_max
     \<and> (sched_policy c = SCHED_FIFO \<or> sched_policy c = SCHED_RR)
     \<and> - (2 ^ 31) \<le> sched_prio c \<and> sched_prio c < 2 ^ 31
     \<and> (\<forall>t. - (2 ^ 15) \<le> cpu c t \<and> cpu c t < 2 ^ 15)
     \<and> stats_headers_frequency c = 10 \<and> output_fd c = 1"

lemma to_short_range: "- (2 ^ 15) \<le> to_short v \<and> to_short v < 2 ^ 15"
  unfolding to_short_def
  using signed_take_bit_int_greater_eq_minus_exp [of 15 v] signed_take_bit_int_less_exp [of 15 v] by simp

lemma digit_val_nonneg: "is_digit c \<Longrightarrow> 0 \<le> digit_val c"
  using of_nat_of_char [of c, where 'a = int] by (simp add: is_digit_def digit_val_def)

lemma digits_val_nonneg: "\<forall>c \<in> set ds. is_digit c \<Longrightarrow> 0 \<le> digits_val ds"
proof -
  have "0 \<le> a \<Longrightarrow> \<forall>c \<in> set ds. is_digit c \<Longrightarrow> 0 \<le> foldl (\<lambda>a d. 10 * a + digit_val d) a ds" for a
    by (induction ds arbitrary: a) (simp_all add: digit_val_nonneg)
  then show "\<forall>c \<in> set ds. is_digit c \<Longrightarrow> 0 \<le> digits_val ds" by (simp add: digits_val_def)
qed

lemma strtoul_range: "0 \<le> strtoul s \<and> strtoul s \<le> ulong_max"
proof (cases "scan_dec s")
  case (Some x)
  then obtain neg v r where x: "scan_dec s = Some (neg, v, r)" by (cases x) auto
  then obtain s2 where "v = digits_val (takeWhile is_digit s2)"
    by (auto simp: scan_dec_def Let_def split: prod.splits if_splits)
  then have "0 \<le> v" using digits_val_nonneg set_takeWhileD by metis
  moreover have "(- v) mod 2 ^ 64 \<le> ulong_max" "0 \<le> (- v) mod 2 ^ 64"
    using pos_mod_bound [of "2 ^ 64" "- v"] by (simp_all add: ulong_max_def)
  ultimately show ?thesis using x by (auto simp: strtoul_def ulong_max_def)
qed (simp add: strtoul_def ulong_max_def)

lemma parse_mode_index:
  assumes "reg_ok r" "0 < reg_count r" "parse_comm_mode arg r = Inr (ret, idx, out)"
  shows "0 \<le> idx \<and> idx < reg_count r"
proof (cases "\<exists>k < length (entries r). strcmp arg (the (mi_name (entries r ! k))) = 0")
  case True
  then obtain k where k: "k < length (entries r)" "strcmp arg (the (mi_name (entries r ! k))) = 0"
    "\<forall>j < k. \<not> strcmp arg (the (mi_name (entries r ! j))) = 0"
    using exists_least_iff [of "\<lambda>k. k < length (entries r) \<and> strcmp arg (the (mi_name (entries r ! k))) = 0"]
    by (metis order.strict_trans)
  have "search_mode (\<lambda>nm. strcmp arg nm = 0) r = Inr (Some (int k))" using k by (intro search_hit [OF assms(1)]) auto
  with assms(3) k(1) reg_ok_entries(1,2) [OF assms(1)] show ?thesis by (auto simp: parse_comm_mode_def)
next
  case False
  then have "search_mode (\<lambda>nm. strcmp arg nm = 0) r = Inr None" by (intro search_miss [OF assms(1)]) auto
  with assms(2,3) show ?thesis by (simp add: parse_comm_mode_def)
qed

lemma set_update_interval:
  assumes "set_update rnd x c = Inr c'" "\<And>y. 0 \<le> y \<Longrightarrow> 0 \<le> rnd y" "tv_norm (stats_interval c)" "0 \<le> tv_sec (stats_interval c)"
  shows "tv_norm (stats_interval c') \<and> 0 \<le> tv_sec (stats_interval c')
    \<and> c'\<lparr>stats_interval := stats_interval c, stats_summary := stats_summary c\<rparr> = c"
proof -
  have "tv_norm \<lparr>tv_sec = c_div n 1000000, tv_usec = c_mod n 1000000\<rparr> \<and> 0 \<le> c_div n 1000000"
    if "n = llrint (rnd (y * 1000000))" "0 < y" for n y
  proof -
    have "0 \<le> n" using that assms(2) [of "y * 1000000"] by (simp add: llrint_nonneg)
    then show ?thesis using usec_split [of n] by simp
  qed
  then show ?thesis using assms(1,3,4)
    by (auto simp: set_update_def DEFAULT_STATS_INTERVAL_def tv_norm_def Let_def split: long_double.splits if_splits)
qed

lemma parse_sched_ok:
  "parse_sched arg c = Inr c' \<Longrightarrow> config_ok reg c \<Longrightarrow> config_ok reg c'"
  using to_int_range by (auto simp: parse_sched_def config_ok_def split: option.splits prod.splits if_splits)

lemma opt_step_ok:
  assumes "opt_step rnd strtod reg x (c, str) = Inr (c', str')" "config_ok reg c" "reg_ok reg" "0 < reg_count reg"
    and "\<And>y. 0 \<le> y \<Longrightarrow> 0 \<le> rnd y"
  shows "config_ok reg c'"
proof -
  have u: "config_ok reg c1" if "set_update rnd v c = Inr c1" for v c1
    using set_update_interval [OF that assms(5)] assms(2) that
    by (auto simp: config_ok_def set_update_def Let_def split: long_double.splits if_splits)
  have m: "config_ok reg (c\<lparr>comm_mode_index := i\<rparr>)" if "parse_comm_mode arg reg = Inr (r, i, out)" for arg r i out
    using parse_mode_index [OF assms(3,4) that] assms(2) by (simp add: config_ok_def)
  have r: "config_ok reg (c\<lparr>runtime := strtoul arg\<rparr>)" "config_ok reg (c\<lparr>cpu_dma_latency := 0\<rparr>)"
    "config_ok reg (c\<lparr>cpu_dma_latency := max (-1) (fst (strtol arg))\<rparr>)" "config_ok reg (parse_thread_mode arg c)" for arg
    using strtoul_range [of arg] strtol_range [of arg] assms(2)
    by (simp_all add: config_ok_def parse_thread_mode_def long_max_def)
  show ?thesis
    using assms(1,2) u m r parse_sched_ok
    by (auto simp: opt_step_def bind_res_Inr_iff split: option.splits prod.splits if_splits)
qed

lemma opt_steps_ok:
  assumes "fold_res (opt_step rnd strtod reg) xs (c, str) = Inr (c', str')" "config_ok reg c" "reg_ok reg" "0 < reg_count reg"
    and "\<And>y. 0 \<le> y \<Longrightarrow> 0 \<le> rnd y"
  shows "config_ok reg c'"
  using assms
proof (induction xs arbitrary: c str)
  case (Cons x xs)
  then obtain c1 str1 where "opt_step rnd strtod reg x (c, str) = Inr (c1, str1)"
    "fold_res (opt_step rnd strtod reg) xs (c1, str1) = Inr (c', str')" by (auto simp: bind_res_Inr_iff)
  with Cons opt_step_ok show ?case by blast
qed simp

lemma defaults_ok: "setup_defaults env c = Inr c0 \<Longrightarrow> 0 < reg_count reg \<Longrightarrow> config_ok reg c0"
  by (auto simp: setup_defaults_def bind_res_Inr_iff config_ok_def DEFAULT_STATS_INTERVAL_def tv_norm_def
      ulong_max_def long_max_def)

section \<open>Properties\<close>

text \<open>
  The option \<^verbatim>\<open>-m\<close> with the name of a built mode selects that mode, and the setup then installs
  its operations, with the generic ones where the mode has none, and wires the pairs its own pair
  function makes; a mode without a pair function ends in a call of NULL.
\<close>

lemma chosen_mode_installed:
  assumes "distinct (map (ii_name \<circ> fst) ms)" "run_constructors ms initial_registry = Inr r"
    and "i < length ms"
  shows "\<exists>c1. opt_step rnd strtod r (Short (CHR ''m'') (Some (ii_name (fst (ms ! i))))) (c, str) = Inr (c1, str)
    \<and> comm_mode_index c1 = int i
    \<and> (case do_comm_setup mhz r run_pair sz (c1, w) of
         Inl e \<Rightarrow>
           (case comm_make_pair (snd (ms ! i)) of
              None \<Rightarrow> e = Null_pointer | Some f \<Rightarrow> make_pairs (run_pair f) w = Inl e)
       | Inr (c2, w2, len, call) \<Rightarrow>
           comm_ping (cfg_ops c2) = comm_ping (fill_ops (snd (ms ! i)))
           \<and> comm_pong (cfg_ops c2) = comm_pong (fill_ops (snd (ms ! i)))
           \<and> comm_cleanup (cfg_ops c2) = comm_cleanup (fill_ops (snd (ms ! i)))
           \<and> (\<exists>f. comm_make_pair (snd (ms ! i)) = Some f \<and> make_pairs (run_pair f) w = Inr (wires c2, w2))
           \<and> call = (if euid c = 0 then Some (sched_policy c, sched_prio c) else None))"
proof -
  note b = built_entry [OF assms]
  obtain e where e: "aget (reg_array r) (int i) = Inr e" "mi_ops e = fill_ops (snd (ms ! i))"
    using b(1) by blast
  show ?thesis
    using e b(2) by (intro exI [of _ "c\<lparr>comm_mode_index := int i\<rparr>"])
      (auto simp: opt_step_mode do_comm_setup_def Let_def fill_ops_def make_pairs_def set_priorities_def
        bind_res_def split: option.splits sum.splits prod.splits)
qed

text \<open>
  \<^verbatim>\<open>-p fifo:N\<close> and \<^verbatim>\<open>-p rr:N\<close> set exactly the policy and the priority \<open>N\<close>; an argument without a
  token (empty, or only colons) is not refused: the missing token is compared as a string.
\<close>

lemma parse_sched_policies:
  assumes "int n < 2 ^ 31" "\<forall>ch \<in> set blank. ch = CHR '':''"
  shows "parse_sched (''fifo:'' @ dec_nat n) c = Inr (c\<lparr>sched_policy := SCHED_FIFO, sched_prio := int n\<rparr>)
    \<and> parse_sched (''rr:'' @ dec_nat n) c = Inr (c\<lparr>sched_policy := SCHED_RR, sched_prio := int n\<rparr>)
    \<and> parse_sched blank c = Inl Null_pointer"
  using strtok_r_token [of "''fifo''" "dec_nat n"] strtok_r_token [of "''rr''" "dec_nat n"]
    strtok_r_none [OF assms(2)] strtol_prio [OF assms(1)]
  by (simp add: parse_sched_def)

text \<open>
  The update option: a positive number of seconds becomes a normalised interval within half a
  microsecond of it; a negative one gives the default; and 0, documented to switch the
  intermediate statistics off, leaves the interval and only sets a flag that nothing reads.
\<close>

lemma update_interval:
  "(0 < x \<and> x * 1000000 \<le> 10 ^ 18 \<longrightarrow>
      (\<exists>tv. set_update (\<lambda>y. y) (Fin x) c = Inr (c\<lparr>stats_interval := tv\<rparr>)
         \<and> tv_norm tv \<and> \<bar>of_int (tv_total tv) - x * 1000000\<bar> \<le> 1 / 2))
   \<and> (x < 0 \<longrightarrow> set_update rnd (Fin x) c = Inr (c\<lparr>stats_interval := DEFAULT_STATS_INTERVAL\<rparr>))
   \<and> set_update rnd (Fin 0) c = Inr (c\<lparr>stats_summary := True\<rparr>)"
proof (intro conjI impI)
  assume x: "0 < x \<and> x * 1000000 \<le> 10 ^ 18"
  define n where "n = llrint (x * 1000000)"
  have n0: "0 \<le> n" unfolding n_def using x by (intro llrint_nonneg) simp
  have err: "\<bar>of_int n - x * 1000000\<bar> \<le> 1 / 2" unfolding n_def by (rule llrint_error)
  then have "of_int n \<le> (10 ^ 18 + 1 :: rat)" using x by linarith
  then have "of_int n \<le> (of_int (10 ^ 18 + 1) :: rat)" by simp
  then have n1: "n \<le> 10 ^ 18 + 1" by (simp only: of_int_le_iff)
  have r: "\<not> (n < long_min \<or> long_max < n)" using n0 n1 by (simp add: long_min_def long_max_def)
  show "\<exists>tv. set_update (\<lambda>y. y) (Fin x) c = Inr (c\<lparr>stats_interval := tv\<rparr>)
         \<and> tv_norm tv \<and> \<bar>of_int (tv_total tv) - x * 1000000\<bar> \<le> 1 / 2"
    using x r usec_split [OF n0] err
    by (intro exI [of _ "\<lparr>tv_sec = c_div n 1000000, tv_usec = c_mod n 1000000\<rparr>"])
      (simp add: set_update_def Let_def flip: n_def)
qed (simp_all add: set_update_def)

text \<open>
  The documented options \<^verbatim>\<open>-s\<close>, \<^verbatim>\<open>--stats\<close>, \<^verbatim>\<open>--nostats\<close> and \<^verbatim>\<open>--priority\<close> are in no option table: after any
  options that are accepted, each of them ends the program with the usage text and status 1.
\<close>

lemma documented_options_refused:
  assumes "fold_res (opt_step rnd strtod reg) pre (fst s, None) = Inr s1"
    and "x \<in> {Short (CHR ''s'') arg, Long ''stats'' arg, Long ''nostats'' arg, Long ''priority'' arg}"
  shows "parse_opts rnd strtod reg parse_options (pre @ x # post, rest) s = Inl (Exit_status 1)"
proof -
  have "getopt_long x = None"
    using assms(2) by (auto simp: getopt_long_def short_options_def long_options_def is_prefix_def)
  then have "opt_step rnd strtod reg x s1 = Inl (Exit_status 1)"
    by (simp add: opt_step_def split: prod.splits)
  then show ?thesis by (simp add: parse_opts_def fold_res_append assms(1))
qed

text \<open>
  C19: every command line that is accepted leaves a well-formed configuration, whatever its options are and in
  whatever order: the mode is an entry of the table (an unknown name falls back to the first), so
  that the accesses to it are in bounds; the interval is one \<^verbatim>\<open>setitimer\<close> accepts, the policy is one of the two, and
  all numbers fit the types of their fields. (Rounding keeps numbers nonnegative.)
\<close>

theorem command_line_well_formed:
  assumes "reg_ok reg" "0 < reg_count reg" "setup_defaults env c = Inr c0" "\<And>y. 0 \<le> y \<Longrightarrow> 0 \<le> rnd y"
    and "parse_opts rnd strtod reg parse_options args (c0, m) = Inr (c', m')"
  shows "config_ok reg c' \<and> (\<exists>e. aget (reg_array reg) (comm_mode_index c') = Inr e \<and> mi_name e \<noteq> None)"
proof -
  obtain c1 str where c1: "fold_res (opt_step rnd strtod reg) (fst args) (c0, None) = Inr (c1, str)"
    "c' = set_cpus (snd args) c1"
    using assms(5) by (auto simp: parse_opts_def bind_res_Inr_iff)
  have "config_ok reg c1" using opt_steps_ok [OF c1(1) defaults_ok [OF assms(3,2)] assms(1,2,4)] .
  then have ok: "config_ok reg c'" using to_short_range
    by (auto simp: c1(2) set_cpus_def config_ok_def split: list.splits tid.splits)
  then have i: "0 \<le> comm_mode_index c'" "nat (comm_mode_index c') < nat (reg_count reg)" by (simp_all add: config_ok_def)
  with reg_ok_entries(3) [OF assms(1), rule_format, OF i(2)] ok show ?thesis by (auto simp: aget_Inr_iff)
qed

theorem command_line_well_formed_witness:
  "\<exists>r c0 c'. run_constructors [(\<lparr>ii_name = ''socketpair'', ii_help_text = None\<rparr>, no_ops)] initial_registry = Inr r
     \<and> parse_opts (\<lambda>y. y) (\<lambda>_. NaN) r (\<lambda>_ _ m. Inr m) ([Short (CHR ''m'') (Some ''nosuch'')], []) (c0, ()) = Inr (c', ())
     \<and> config_ok r c'"
proof -
  let ?ms = "[(\<lparr>ii_name = ''socketpair'', ii_help_text = None\<rparr>, no_ops)]"
  let ?env = "\<lparr>env_uid = 0, env_gid = 0, env_euid = 0, env_egid = 0, env_nproc_conf = 4, env_nproc_onln = 4, env_min_stack = 16384\<rparr>"
  have d: "distinct (map (ii_name \<circ> fst) ?ms)" by simp
  obtain r where r: "run_constructors ?ms initial_registry = Inr r" "reg_ok r" "mode_view r = map mode_abs ?ms"
    using run_constructors_ok [OF d] by blast
  have n: "0 < reg_count r" using reg_ok_entries(2) [OF r(2)] arg_cong [OF r(3), of length] by (simp add: mode_view_def)
  obtain c0 where c0: "setup_defaults ?env zero_config = Inr c0"
    by (simp add: setup_defaults_def num_cpus_call_def num_online_cpus_call_def get_min_stack_size_def to_int_id)
  have "fst ` set (mode_view r) = {''socketpair''}" using r(3) by (simp add: mode_abs_def)
  then obtain msg where u: "parse_comm_mode ''nosuch'' r = Inr (-1, 0, [msg])"
    using modes.lookup_miss [OF r(2), of "''nosuch''"] by (auto simp: parse_comm_mode_def)
  then obtain c' where p: "parse_opts (\<lambda>y. y) (\<lambda>_. NaN) r (\<lambda>_ _ m. Inr m) ([Short (CHR ''m'') (Some ''nosuch'')], []) (c0, ()) = Inr (c', ())"
    by (simp add: parse_opts_def opt_step_mode)
  from command_line_well_formed [OF r(2) n c0 _ p] r(1) p show ?thesis by auto
qed

end
