(* ===== verification/Threads.thy ===== *)
theory Threads
  imports Setup Sync_Modes
begin

text \<open>
  The life of a run: \<^verbatim>\<open>threads_startup.c\<close> creates the two children, \<^verbatim>\<open>threads_children.c\<close> is what they
  do until they ping and pong and when they are interrupted, \<^verbatim>\<open>threads_monitor.c\<close> is the parent:
  start barrier, statistics timer, death of children, stop. The handlers are functions on the
  state; what can happen next is the step relation \<open>lstep\<close>. A handler runs as one step, except
  the stop handler, which waits for the children.
\<close>

section \<open>State\<close>

record thread_info =
  ti_num :: int
  ti_pid :: int
  ti_tid :: int
  ti_name :: string
  ti_stack :: bool

text \<open>
  A child is not there, starting, ready (waiting for the start flag), running, dead but not waited
  for, or reaped. The monitor waits for the children to be ready, tests the stop flag, is about to
  suspend itself, is suspended, waits in the stop handler, or has exited.
\<close>

datatype child_state = Absent | Starting | Ready | Running | Zombie | Reaped
datatype monitor_phase = M_ready_wait | M_test | M_about | M_suspended | M_stopping | M_exited

record life =
  info :: "tid \<Rightarrow> thread_info"
  ready :: "tid \<Rightarrow> bool"
  start :: bool
  stop :: bool
  start_time :: rat
  last_stats_time :: rat
  timeout_time :: rat
  timer :: bool
  visited :: bool
  in_interrupt :: bool
  phase :: monitor_phase
  final_stats :: bool
  child :: "tid \<Rightarrow> child_state"
  proc :: "tid \<Rightarrow> int"
  interrupt_pending :: "tid \<Rightarrow> bool"
  sigchld_pending :: bool

definition pid :: "life \<Rightarrow> tid \<Rightarrow> int" where
  "pid s t = ti_pid (info s t)"

definition set_pid :: "tid \<Rightarrow> int \<Rightarrow> life \<Rightarrow> life" where
  "set_pid t p s = s\<lparr>info := (info s)(t := (info s t)\<lparr>ti_pid := p\<rparr>)\<rparr>"

definition set_child :: "tid \<Rightarrow> child_state \<Rightarrow> life \<Rightarrow> life" where
  "set_child t x s = s\<lparr>child := (child s)(t := x)\<rparr>"

definition alive :: "child_state \<Rightarrow> bool" where
  "alive x \<longleftrightarrow> x = Starting \<or> x = Ready \<or> x = Running"

section \<open>Starting the threads\<close>

text \<open>\<^verbatim>\<open>init_threads\<close>: the shared area is cleared, the numbers and names are set.\<close>

definition init_threads :: life where
  "init_threads = \<lparr>info = (\<lambda>t. \<lparr>ti_num = (if t = Ping then 0 else 1), ti_pid = 0, ti_tid = 0,
       ti_name = (if t = Ping then ''ping_thread'' else ''pong_thread''), ti_stack = False\<rparr>),
     ready = (\<lambda>_. False), start = False, stop = False, start_time = 0, last_stats_time = 0,
     timeout_time = 0, timer = False, visited = False, in_interrupt = False, phase = M_ready_wait,
     final_stats = False, child = (\<lambda>_. Absent), proc = (\<lambda>_. 0), interrupt_pending = (\<lambda>_. False),
     sigchld_pending = False\<rparr>"

definition spawn :: "tid \<Rightarrow> int \<Rightarrow> life \<Rightarrow> life" where
  "spawn t p s = s\<lparr>child := (child s)(t := Starting), proc := (proc s)(t := p)\<rparr>"

text \<open>\<^verbatim>\<open>do_fork\<close> in the parent, with the two results of \<^verbatim>\<open>fork\<close>.\<close>

definition do_fork :: "int \<times> int \<Rightarrow> life \<Rightarrow> life res" where
  "do_fork forks s =
     (if 0 < fst forks then
        (let s1 = set_pid Ping (fst forks) (spawn Ping (fst forks) s)
         in if 0 < snd forks then Inr (set_pid Pong (snd forks) (spawn Pong (snd forks) s1))
            else Inl (Exit_fail ''Error while trying to fork: %d: %s''))
      else Inl (Exit_fail ''Error while trying to fork: %d: %s''))"

text \<open>
  \<^verbatim>\<open>do_clone\<close> stores the results of \<^verbatim>\<open>clone\<close> as thread ids and then tests the process ids, which the
  children themselves will set.
\<close>

definition set_tid :: "tid \<Rightarrow> int \<Rightarrow> life \<Rightarrow> life" where
  "set_tid t p s = s\<lparr>info := (info s)(t := (info s t)\<lparr>ti_tid := p\<rparr>)\<rparr>"

definition clone_one :: "tid \<Rightarrow> int \<Rightarrow> life \<Rightarrow> life" where
  "clone_one t r s = set_tid t r (if 0 < r then spawn t r s else s)"

definition do_clone :: "bool \<times> bool \<Rightarrow> int \<times> int \<Rightarrow> life \<Rightarrow> life res" where
  "do_clone stacks clones s =
     (if \<not> fst stacks \<or> \<not> snd stacks
      then Inl (Exit_fail ''calloc: could not allocate stack: %s'')
      else (let s0 = s\<lparr>info := (\<lambda>t. (info s t)\<lparr>ti_stack := True\<rparr>)\<rparr>;
                s2 = clone_one Pong (snd clones) (clone_one Ping (fst clones) s0)
            in if pid s2 Ping = -1 \<or> pid s2 Pong = -1
               then Inl (Exit_fail ''clone: could not clone child thread: %s'') else Inr s2))"

text \<open>\<^verbatim>\<open>do_pthread\<close>, with the results of its five calls; that of the second creation is dropped.\<close>

record pthread_env =
  pt_attr_init :: int
  pt_detach :: int
  pt_create0 :: int
  pt_create1 :: int
  pt_destroy :: int

definition do_pthread :: "pthread_env \<Rightarrow> int \<Rightarrow> life \<Rightarrow> life res" where
  "do_pthread e self s =
     bind_res (first_failure
       [(pt_attr_init e \<noteq> 0, ''pthread_attr_init: error: %s''),
        (pt_detach e \<noteq> 0, ''pthread_attr_setdetachstate: error: %s''),
        (pt_create0 e \<noteq> 0, ''Error occurred while starting 'ping' thread: %s''),
        (pt_destroy e \<noteq> 0, ''pthread_attr_destroy: error: %s'')]) (\<lambda>_.
       let s1 = spawn Ping self s in Inr (if pt_create1 e = 0 then spawn Pong self s1 else s1))"

record start_env =
  se_forks :: "int \<times> int"
  se_stacks :: "bool \<times> bool"
  se_clones :: "int \<times> int"
  se_pthread :: pthread_env
  se_self :: int

text \<open>\<^verbatim>\<open>start_threads\<close> up to \<^verbatim>\<open>do_monitor_work\<close>.\<close>

definition start_threads :: "thread_mode \<Rightarrow> start_env \<Rightarrow> life res" where
  "start_threads mode e =
     (case mode of
        Thread_fork \<Rightarrow> do_fork (se_forks e) init_threads
      | Thread_thread \<Rightarrow> do_clone (se_stacks e) (se_clones e) init_threads
      | Thread_pthread \<Rightarrow> do_pthread (se_pthread e) (se_self e) init_threads
      | Thread_context \<Rightarrow> Inl (Exit_fail ''No thread mode specified?''))"

section \<open>The children\<close>

text \<open>
  \<^verbatim>\<open>do_thread_work\<close> up to its wait for the start flag: the ids it fills in if they are still zero,
  and the ready flag. The name, the session and group ids, the cpu latency, the affinity and the
  handlers it sets on the way are not part of this state; a call among them that ends the child
  is one of the deaths of \<open>lstep\<close>, and so is the end of its loop.
\<close>

definition thread_ready :: "tid \<Rightarrow> life \<Rightarrow> life" where
  "thread_ready t s =
     (let s1 = (if ti_tid (info s t) = 0 then set_tid t (proc s t) s else s);
          s2 = (if pid s1 t = 0 then set_pid t (proc s1 t) s1 else s1)
      in set_child t Ready (s2\<lparr>ready := (ready s2)(t := True)\<rparr>))"

definition child_dies :: "tid \<Rightarrow> life \<Rightarrow> life" where
  "child_dies t s = (set_child t Zombie s)\<lparr>sigchld_pending := True\<rparr>"

text \<open>
  \<^verbatim>\<open>interrupt_thread\<close>: no statistics are ever requested; with the stop flag the child cleans up and
  exits. A child that has not installed the handler yet is killed by the signal.
\<close>

definition interrupt_thread :: "tid \<Rightarrow> life \<Rightarrow> life" where
  "interrupt_thread t s =
     (let s1 = s\<lparr>interrupt_pending := (interrupt_pending s)(t := False)\<rparr>
      in if child s t = Starting \<or> stop s then child_dies t s1 else s1)"

section \<open>The monitor\<close>

definition kill_child :: "int \<Rightarrow> int \<Rightarrow> life \<Rightarrow> int \<times> life" where
  "kill_child p sig s =
     (0, s\<lparr>interrupt_pending := (\<lambda>t. interrupt_pending s t \<or> proc s t = p \<and> alive (child s t))\<rparr>)"

definition stop_threads :: "life \<Rightarrow> life" where
  "stop_threads s =
     (let s1 = s\<lparr>stop := True\<rparr>;
          s2 = snd (send_sig kill_child (pid s1 Ping) 60 s1)
      in snd (send_sig kill_child (pid s2 Pong) 61 s2))"

definition stop_timer :: "life \<Rightarrow> life" where
  "stop_timer s = s\<lparr>timer := False\<rparr>"

text \<open>\<^verbatim>\<open>stop_handler\<close> up to its wait, and what follows the wait.\<close>

definition stop_handler :: "life \<Rightarrow> life" where
  "stop_handler s =
     (if visited s then s
      else (stop_threads (stop_timer (s\<lparr>visited := True\<rparr>)))\<lparr>phase := M_stopping\<rparr>)"

definition stop_finish :: "bool \<Rightarrow> life \<Rightarrow> life" where
  "stop_finish cleanup_exits s = s\<lparr>final_stats := \<not> cleanup_exits, phase := M_exited\<rparr>"

text \<open>\<^verbatim>\<open>child_handler\<close>: every dead child is waited for and looked up by its process id.\<close>

definition mark_dead :: "tid \<Rightarrow> life \<Rightarrow> life" where
  "mark_dead t s = stop_timer ((set_pid t (-1) s)\<lparr>stop := True\<rparr>)"

definition reap_child :: "tid \<Rightarrow> life \<Rightarrow> life" where
  "reap_child t s =
     (if child s t \<noteq> Zombie then s
      else (let s1 = set_child t Reaped s; p = proc s t
            in if p = pid s1 Ping then mark_dead Ping s1
               else if p = pid s1 Pong then mark_dead Pong s1
               else s1))"

text \<open>
  While a child is alive and none is dead \<^verbatim>\<open>waitpid\<close> returns 0; the loop compares that with the
  recorded process ids before it tests for 0, so an id that is not recorded yet matches.
\<close>

definition wait_none :: "life \<Rightarrow> life" where
  "wait_none s =
     (if alive (child s Ping) \<or> alive (child s Pong)
      then (let s1 = (if 0 = pid s Ping then mark_dead Ping s else s)
            in if 0 = pid s1 Pong then mark_dead Pong s1 else s1)
      else s)"

definition child_handler :: "life \<Rightarrow> life" where
  "child_handler s = (wait_none (reap_child Pong (reap_child Ping s)))\<lparr>sigchld_pending := False\<rparr>"

text \<open>
  The periodic handler. \<^verbatim>\<open>gather_periodic_stats\<close> calls \<^verbatim>\<open>wait4\<close> on both process ids, which reaps a
  child that is dead; -1 and 0 stand for any child. With the stop flag set nothing is shown or stored.
\<close>

definition wait4_nohang :: "int \<Rightarrow> life \<Rightarrow> life" where
  "wait4_nohang p s =
     (if child s Ping = Zombie \<and> (p = -1 \<or> p = 0 \<or> p = proc s Ping) then set_child Ping Reaped s
      else if child s Pong = Zombie \<and> (p = -1 \<or> p = 0 \<or> p = proc s Pong) then set_child Pong Reaped s
      else s)"

definition monitor_interrupt :: "rat \<Rightarrow> life \<Rightarrow> life" where
  "monitor_interrupt now s =
     (if in_interrupt s then s
      else (let s1 = wait4_nohang (pid s Pong) (wait4_nohang (pid s Ping) s);
                s2 = (if stop s1 then s1 else s1\<lparr>last_stats_time := now\<rparr>)
            in if timeout_time s2 \<le> last_stats_time s2 then stop_handler (s2\<lparr>in_interrupt := True\<rparr>)
               else s2))"

text \<open>The timer is set unless the interval is zero; then the children are released.\<close>

record life_cfg =
  lc_interval :: timeval
  lc_runtime :: int
  lc_cleanup_exits :: bool

definition setup_monitor_timer :: "life_cfg \<Rightarrow> life \<Rightarrow> life" where
  "setup_monitor_timer cfg s =
     (if tv_sec (lc_interval cfg) = 0 \<and> tv_usec (lc_interval cfg) = 0 then s else s\<lparr>timer := True\<rparr>)"

definition monitor_start :: "life_cfg \<Rightarrow> rat \<Rightarrow> life \<Rightarrow> life" where
  "monitor_start cfg now s =
     (setup_monitor_timer cfg s)\<lparr>start := True, start_time := now, last_stats_time := now,
        timeout_time := now + of_int (lc_runtime cfg), phase := M_test\<rparr>"

definition monitor_test :: "life \<Rightarrow> life" where
  "monitor_test s = (if stop s then stop_handler s else s\<lparr>phase := M_about\<rparr>)"

text \<open>A handler that returns ends the suspension.\<close>

definition wake :: "life \<Rightarrow> life" where
  "wake s = (if phase s = M_suspended then s\<lparr>phase := M_test\<rparr> else s)"

section \<open>What can happen\<close>

inductive lstep :: "life_cfg \<Rightarrow> life \<Rightarrow> life \<Rightarrow> bool" for cfg where
  L_ready: "child s t = Starting \<Longrightarrow> lstep cfg s (thread_ready t s)"
| L_go: "child s t = Ready \<Longrightarrow> start s \<Longrightarrow> lstep cfg s (set_child t Running s)"
| L_interrupt: "alive (child s t) \<Longrightarrow> interrupt_pending s t \<Longrightarrow> lstep cfg s (interrupt_thread t s)"
| L_dies: "alive (child s t) \<Longrightarrow> lstep cfg s (child_dies t s)"
| L_sigchld: "phase s \<noteq> M_exited \<Longrightarrow> sigchld_pending s \<Longrightarrow> lstep cfg s (wake (child_handler s))"
| L_tick: "phase s \<noteq> M_exited \<Longrightarrow> timer s \<Longrightarrow> lstep cfg s (wake (monitor_interrupt now s))"
| L_sigint: "phase s \<noteq> M_exited \<Longrightarrow> lstep cfg s (wake (stop_handler s))"
| L_start: "phase s = M_ready_wait \<Longrightarrow> ready s Ping \<Longrightarrow> ready s Pong \<Longrightarrow>
    lstep cfg s (monitor_start cfg now s)"
| L_test: "phase s = M_test \<Longrightarrow> lstep cfg s (monitor_test s)"
| L_suspend: "phase s = M_about \<Longrightarrow> lstep cfg s (s\<lparr>phase := M_suspended\<rparr>)"
| L_finish: "phase s = M_stopping \<Longrightarrow> pid s Ping = -1 \<Longrightarrow> pid s Pong = -1 \<Longrightarrow>
    lstep cfg s (stop_finish (lc_cleanup_exits cfg) s)"

inductive_cases lstepE: "lstep cfg s s'"

inductive reach :: "life_cfg \<Rightarrow> life \<Rightarrow> life \<Rightarrow> bool" for cfg s0 where
  R_init: "reach cfg s0 s0"
| R_step: "reach cfg s0 s \<Longrightarrow> lstep cfg s s' \<Longrightarrow> reach cfg s0 s'"

lemma reach_trans: "reach cfg b c \<Longrightarrow> reach cfg a b \<Longrightarrow> reach cfg a c"
  by (induction rule: reach.induct) (auto intro: reach.intros)

lemmas life_ops = set_pid_def set_tid_def set_child_def spawn_def thread_ready_def child_dies_def
  interrupt_thread_def kill_child_def stop_threads_def stop_timer_def stop_handler_def stop_finish_def
  mark_dead_def reap_child_def wait_none_def child_handler_def wait4_nohang_def monitor_interrupt_def setup_monitor_timer_def
  monitor_start_def monitor_test_def wake_def send_sig_def pid_def

section \<open>Invariant\<close>

lemma all_tid: "(\<forall>t. P t) \<longleftrightarrow> P Ping \<and> P Pong"
  by (metis tid.exhaust)

text \<open>The processes: distinct, and a recorded id is unset, the child's, or -1.\<close>

definition procs_ok :: "life \<Rightarrow> bool" where
  "procs_ok s \<longleftrightarrow>
     (\<forall>t. child s t \<noteq> Absent \<longrightarrow> 0 < proc s t) \<and> (\<forall>t. child s t = Absent \<longrightarrow> proc s t = 0)
     \<and> (proc s Ping = proc s Pong \<longrightarrow> proc s Ping = 0)
     \<and> (\<forall>t. pid s t = 0 \<or> pid s t = -1 \<or> pid s t = proc s t)
     \<and> (\<forall>t. child s t = Zombie \<longrightarrow> sigchld_pending s)"

text \<open>The start barrier.\<close>

definition barrier_ok :: "life \<Rightarrow> bool" where
  "barrier_ok s \<longleftrightarrow>
     (start s \<longrightarrow> ready s Ping \<and> ready s Pong) \<and> (\<forall>t. child s t = Running \<longrightarrow> start s)
     \<and> (\<forall>t. ready s t \<longrightarrow> pid s t \<noteq> 0)"

text \<open>The monitor: the stop handler is entered once and leaves no timer running.\<close>

definition monitor_ok :: "life_cfg \<Rightarrow> life \<Rightarrow> bool" where
  "monitor_ok cfg s \<longleftrightarrow>
     (visited s \<longleftrightarrow> phase s = M_stopping \<or> phase s = M_exited)
     \<and> (visited s \<longrightarrow> stop s \<and> \<not> timer s)
     \<and> (phase s = M_exited \<longrightarrow> pid s Ping = -1 \<and> pid s Pong = -1 \<and> final_stats s = (\<not> lc_cleanup_exits cfg))
     \<and> (phase s \<noteq> M_exited \<longrightarrow> \<not> final_stats s)
     \<and> (phase s = M_test \<or> phase s = M_about \<or> phase s = M_suspended \<longrightarrow> start s)"

definition life_ok :: "life_cfg \<Rightarrow> life \<Rightarrow> bool" where
  "life_ok cfg s \<longleftrightarrow> procs_ok s \<and> barrier_ok s \<and> monitor_ok cfg s"

lemmas life_inv = procs_ok_def barrier_ok_def monitor_ok_def all_tid

lemma stop_threads_frame [simp]:
  "info (stop_threads s) = info s" "child (stop_threads s) = child s" "proc (stop_threads s) = proc s"
  "ready (stop_threads s) = ready s" "start (stop_threads s) = start s" "stop (stop_threads s) = True"
  "timer (stop_threads s) = timer s" "visited (stop_threads s) = visited s" "phase (stop_threads s) = phase s"
  "final_stats (stop_threads s) = final_stats s" "sigchld_pending (stop_threads s) = sigchld_pending s"
  by (simp_all add: stop_threads_def send_sig_def kill_child_def Let_def)

lemma stop_handler_ok:
  assumes "life_ok cfg s"
  shows "life_ok cfg (stop_handler s)"
  using assms unfolding life_ok_def life_inv stop_handler_def stop_timer_def pid_def
  by (cases "visited s") auto

lemma thread_ready_frame:
  "proc (thread_ready t s) = proc s" "child (thread_ready t s) = (child s)(t := Ready)"
  "sigchld_pending (thread_ready t s) = sigchld_pending s" "start (thread_ready t s) = start s"
  "ready (thread_ready t s) = (ready s)(t := True)" "visited (thread_ready t s) = visited s"
  "stop (thread_ready t s) = stop s" "timer (thread_ready t s) = timer s" "phase (thread_ready t s) = phase s"
  "final_stats (thread_ready t s) = final_stats s" "in_interrupt (thread_ready t s) = in_interrupt s"
  "interrupt_pending (thread_ready t s) = interrupt_pending s"
  "pid (thread_ready t s) = (pid s)(t := if pid s t = 0 then proc s t else pid s t)"
proof -
  show "pid (thread_ready t s) = (pid s)(t := if pid s t = 0 then proc s t else pid s t)"
  proof
    fix u show "pid (thread_ready t s) u = ((pid s)(t := if pid s t = 0 then proc s t else pid s t)) u"
      by (cases "u = t") (simp_all add: thread_ready_def set_pid_def set_tid_def set_child_def pid_def Let_def)
  qed
qed (simp_all add: thread_ready_def set_pid_def set_tid_def set_child_def Let_def)

lemma thread_ready_ok:
  assumes "life_ok cfg s" "child s t = Starting"
  shows "life_ok cfg (thread_ready t s)"
proof -
  have p: "procs_ok s" and b: "barrier_ok s" and m: "monitor_ok cfg s" using assms(1) by (simp_all add: life_ok_def)
  have "procs_ok (thread_ready t s)"
    using p assms(2) unfolding procs_ok_def all_tid thread_ready_frame by (cases t) auto
  moreover have "barrier_ok (thread_ready t s)"
    using b p assms(2) unfolding barrier_ok_def procs_ok_def all_tid thread_ready_frame by (cases t) auto
  moreover have "monitor_ok cfg (thread_ready t s)"
    using m unfolding monitor_ok_def thread_ready_frame by auto
  ultimately show ?thesis by (simp add: life_ok_def)
qed

lemma go_ok:
  assumes "life_ok cfg s" "child s t = Ready" "start s"
  shows "life_ok cfg (set_child t Running s)"
  using assms unfolding life_ok_def life_inv set_child_def pid_def by (cases t) auto

lemma child_dies_ok:
  assumes "life_ok cfg s" "alive (child s t)"
  shows "life_ok cfg (child_dies t s)"
proof -
  have p: "procs_ok s" and b: "barrier_ok s" and m: "monitor_ok cfg s" using assms(1) by (simp_all add: life_ok_def)
  have "procs_ok (child_dies t s)"
    using p assms(2) unfolding procs_ok_def child_dies_def set_child_def pid_def alive_def by auto
  moreover have "barrier_ok (child_dies t s)"
    using b unfolding barrier_ok_def child_dies_def set_child_def pid_def by auto
  moreover have "monitor_ok cfg (child_dies t s)"
    using m unfolding monitor_ok_def child_dies_def set_child_def pid_def by simp
  ultimately show ?thesis by (simp add: life_ok_def)
qed

lemma clear_pending_ok:
  "life_ok cfg s \<Longrightarrow> life_ok cfg (s\<lparr>interrupt_pending := f\<rparr>)"
  unfolding life_ok_def life_inv pid_def by auto

lemma interrupt_thread_ok:
  assumes "life_ok cfg s" "alive (child s t)"
  shows "life_ok cfg (interrupt_thread t s)"
  using child_dies_ok [OF clear_pending_ok [OF assms(1)]] clear_pending_ok [OF assms(1)] assms(2)
  by (simp add: interrupt_thread_def Let_def)

lemma reap_child_pid:
  assumes "life_ok cfg s" "child s t = Zombie"
  shows "reap_child t s =
     (if pid s t = proc s t then mark_dead t (set_child t Reaped s)
      else set_child t Reaped s)"
proof -
  have p: "procs_ok s" using assms(1) by (simp add: life_ok_def)
  then have pos: "0 < proc s t" and eq: "proc s Ping = proc s Pong \<longrightarrow> proc s Ping = 0"
    and u: "pid s u = 0 \<or> pid s u = -1 \<or> pid s u = proc s u" for u
    using assms(2) unfolding procs_ok_def by auto
  have d: "proc s Ping \<noteq> proc s Pong" using eq pos by (cases t) auto
  show ?thesis
  proof (cases t)
    case Ping
    have "proc s Ping \<noteq> pid s Pong" using u [of Pong] d pos Ping by auto
    then show ?thesis using assms(2) Ping
      by (simp add: reap_child_def Let_def) (auto simp: set_child_def pid_def)
  next
    case Pong
    have "proc s Pong \<noteq> pid s Ping" using u [of Ping] d pos Pong by auto
    then show ?thesis using assms(2) Pong
      by (simp add: reap_child_def Let_def) (auto simp: set_child_def pid_def)
  qed
qed

lemma reaped_ok:
  assumes "life_ok cfg s" "child s t = Zombie"
  shows "life_ok cfg (set_child t Reaped s)"
proof -
  have p: "procs_ok s" and b: "barrier_ok s" and m: "monitor_ok cfg s" using assms(1) by (simp_all add: life_ok_def)
  have "procs_ok (set_child t Reaped s)" using p assms(2) unfolding procs_ok_def set_child_def pid_def by auto
  moreover have "barrier_ok (set_child t Reaped s)" using b unfolding barrier_ok_def set_child_def pid_def by auto
  moreover have "monitor_ok cfg (set_child t Reaped s)" using m unfolding monitor_ok_def set_child_def pid_def by simp
  ultimately show ?thesis by (simp add: life_ok_def)
qed

lemma mark_dead_fields [simp]:
  "pid (mark_dead t s) = (pid s)(t := -1)" "child (mark_dead t s) = child s" "proc (mark_dead t s) = proc s"
  "ready (mark_dead t s) = ready s" "start (mark_dead t s) = start s" "stop (mark_dead t s)"
  "\<not> timer (mark_dead t s)" "visited (mark_dead t s) = visited s" "phase (mark_dead t s) = phase s"
  "final_stats (mark_dead t s) = final_stats s" "sigchld_pending (mark_dead t s) = sigchld_pending s"
  "interrupt_pending (mark_dead t s) = interrupt_pending s" "in_interrupt (mark_dead t s) = in_interrupt s"
  "timeout_time (mark_dead t s) = timeout_time s" "last_stats_time (mark_dead t s) = last_stats_time s"
  "start_time (mark_dead t s) = start_time s"
  by (simp_all add: mark_dead_def stop_timer_def set_pid_def pid_def fun_eq_iff)

lemma mark_dead_ok: "life_ok cfg s \<Longrightarrow> life_ok cfg (mark_dead t s)"
  unfolding life_ok_def procs_ok_def barrier_ok_def monitor_ok_def by simp

lemma reap_child_ok:
  assumes "life_ok cfg s"
  shows "life_ok cfg (reap_child t s)"
  using reap_child_pid [OF assms] reaped_ok [OF assms] mark_dead_ok assms
  by (cases "child s t = Zombie") (simp_all add: reap_child_def)

text \<open>What the comparison with 0 changes: nothing but ids that are not recorded.\<close>

lemma wait_none_known: "\<forall>t. pid s t \<noteq> 0 \<Longrightarrow> wait_none s = s"
  by (simp add: wait_none_def)

lemma wait_none_alone: "\<forall>t. \<not> alive (child s t) \<Longrightarrow> wait_none s = s"
  by (simp add: wait_none_def)

lemma wait_none_cases:
  obtains "wait_none s = s" | t where "pid s t = 0" "wait_none s = mark_dead t s"
    | "pid s Ping = 0" "pid s Pong = 0" "wait_none s = mark_dead Pong (mark_dead Ping s)"
proof -
  let ?p = "alive (child s Ping) \<or> alive (child s Pong)"
  show ?thesis
  proof (cases ?p)
    case True
    then show ?thesis
      using that by (cases "pid s Ping = 0"; cases "pid s Pong = 0") (simp_all add: wait_none_def)
  qed (use that(1) in \<open>simp add: wait_none_def\<close>)
qed

lemma wait_none_fields [simp]:
  "child (wait_none s) = child s" "proc (wait_none s) = proc s" "ready (wait_none s) = ready s"
  "start (wait_none s) = start s" "visited (wait_none s) = visited s" "phase (wait_none s) = phase s"
  "final_stats (wait_none s) = final_stats s" "sigchld_pending (wait_none s) = sigchld_pending s"
  "interrupt_pending (wait_none s) = interrupt_pending s" "in_interrupt (wait_none s) = in_interrupt s"
  "timeout_time (wait_none s) = timeout_time s" "last_stats_time (wait_none s) = last_stats_time s"
  "start_time (wait_none s) = start_time s" "timer (wait_none s) \<Longrightarrow> timer s" "stop s \<Longrightarrow> stop (wait_none s)"
  "pid s u \<noteq> 0 \<Longrightarrow> pid (wait_none s) u = pid s u"
  by (cases rule: wait_none_cases [of s]; auto)+

lemma wait_none_ok: "life_ok cfg s \<Longrightarrow> life_ok cfg (wait_none s)"
  by (cases rule: wait_none_cases [of s]) (simp_all add: mark_dead_ok)

lemma reap_child_child:
  "child (reap_child t s) u = (if u = t \<and> child s t = Zombie then Reaped else child s u)"
  by (simp add: reap_child_def Let_def) (simp add: set_child_def)

lemma child_handler_ok:
  assumes "life_ok cfg s"
  shows "life_ok cfg (child_handler s)"
proof -
  let ?s = "wait_none (reap_child Pong (reap_child Ping s))"
  have ok: "life_ok cfg ?s" by (intro wait_none_ok reap_child_ok assms)
  have "child ?s t \<noteq> Zombie" for t
    by (cases t) (simp_all add: reap_child_child)
  then have "procs_ok (?s\<lparr>sigchld_pending := False\<rparr>)"
    using ok unfolding life_ok_def procs_ok_def pid_def by simp
  then show ?thesis
    using ok unfolding child_handler_def life_ok_def barrier_ok_def monitor_ok_def pid_def by simp
qed

lemma wait4_ok: "life_ok cfg s \<Longrightarrow> life_ok cfg (wait4_nohang p s)"
  by (simp add: wait4_nohang_def reaped_ok)

lemma stats_time_ok:
  "life_ok cfg s \<Longrightarrow> life_ok cfg (s\<lparr>last_stats_time := x\<rparr>)"
  "life_ok cfg s \<Longrightarrow> life_ok cfg (s\<lparr>in_interrupt := b\<rparr>)"
  unfolding life_ok_def procs_ok_def barrier_ok_def monitor_ok_def pid_def by simp_all

lemma monitor_interrupt_ok: "life_ok cfg s \<Longrightarrow> life_ok cfg (monitor_interrupt now s)"
  by (simp add: monitor_interrupt_def Let_def wait4_ok stats_time_ok stop_handler_ok)

lemma wake_ok: "life_ok cfg s \<Longrightarrow> life_ok cfg (wake s)"
  unfolding wake_def life_ok_def procs_ok_def barrier_ok_def monitor_ok_def pid_def by auto

lemma monitor_start_ok:
  assumes "life_ok cfg s" "phase s = M_ready_wait" "ready s Ping" "ready s Pong"
  shows "life_ok cfg (monitor_start cfg now s)"
  using assms unfolding monitor_start_def setup_monitor_timer_def life_ok_def procs_ok_def barrier_ok_def
    monitor_ok_def pid_def by auto

lemma monitor_test_ok:
  assumes "life_ok cfg s" "phase s = M_test"
  shows "life_ok cfg (monitor_test s)"
proof (cases "stop s")
  case True
  then show ?thesis using assms stop_handler_ok by (simp add: monitor_test_def)
next
  case False
  then show ?thesis using assms
    unfolding monitor_test_def life_ok_def procs_ok_def barrier_ok_def monitor_ok_def pid_def by simp
qed

lemma suspend_ok: "life_ok cfg s \<Longrightarrow> phase s = M_about \<Longrightarrow> life_ok cfg (s\<lparr>phase := M_suspended\<rparr>)"
  unfolding life_ok_def procs_ok_def barrier_ok_def monitor_ok_def pid_def by simp

lemma finish_ok:
  assumes "life_ok cfg s" "phase s = M_stopping" "pid s Ping = -1" "pid s Pong = -1"
  shows "life_ok cfg (stop_finish (lc_cleanup_exits cfg) s)"
  using assms unfolding stop_finish_def life_ok_def procs_ok_def barrier_ok_def monitor_ok_def pid_def by simp

lemma lstep_ok: "lstep cfg s s' \<Longrightarrow> life_ok cfg s \<Longrightarrow> life_ok cfg s'"
  by (induction rule: lstep.induct)
    (simp_all add: thread_ready_ok go_ok interrupt_thread_ok child_dies_ok wake_ok child_handler_ok
      monitor_interrupt_ok stop_handler_ok monitor_start_ok monitor_test_ok suspend_ok finish_ok)

lemma reach_ok: "reach cfg s0 s \<Longrightarrow> life_ok cfg s0 \<Longrightarrow> life_ok cfg s"
  by (induction rule: reach.induct) (auto dest: lstep_ok)

text \<open>What the startup leaves satisfies it, in the modes that create processes.\<close>

lemma fork_ok:
  assumes "do_fork forks init_threads = Inr s" "fst forks \<noteq> snd forks"
  shows "life_ok cfg s" "\<forall>t. child s t = Starting \<and> pid s t \<noteq> 0 \<and> pid s t \<noteq> -1"
  using assms
  by (auto simp: do_fork_def Let_def life_ok_def life_inv pid_def set_pid_def spawn_def init_threads_def
      split: if_splits)

lemma clone_ok:
  assumes "do_clone stacks clones init_threads = Inr s" "0 < fst clones \<longrightarrow> fst clones \<noteq> snd clones"
  shows "life_ok cfg s"
  using assms
  by (auto simp: do_clone_def clone_one_def Let_def life_ok_def life_inv pid_def set_pid_def set_tid_def
      spawn_def init_threads_def split: if_splits)

section \<open>Stopping\<close>

text \<open>
  In a run whose process ids are all known, every child alive when the stop handler is waiting has
  the interrupt pending.
\<close>

definition known :: "life \<Rightarrow> bool" where
  "known s \<longleftrightarrow> (\<forall>t. pid s t \<noteq> 0) \<and> (\<forall>t. pid s t = -1 \<longrightarrow> child s t = Reaped)"

definition told :: "life \<Rightarrow> bool" where
  "told s \<longleftrightarrow> known s \<and> (\<forall>t. child s t \<noteq> Absent)
     \<and> (visited s \<longrightarrow> (\<forall>t. alive (child s t) \<longrightarrow> interrupt_pending s t))"

lemma alive_simps [simp]:
  "alive Starting" "alive Ready" "alive Running" "\<not> alive Zombie" "\<not> alive Reaped" "\<not> alive Absent"
  by (simp_all add: alive_def)

lemma stop_handler_told:
  assumes "life_ok cfg s" "told s"
  shows "told (stop_handler s)"
proof (cases "visited s")
  case True
  then show ?thesis using assms by (simp add: stop_handler_def)
next
  case False
  have p: "pid s t = proc s t \<and> 0 < proc s t" if a: "alive (child s t)" for t
  proof -
    have "child s t \<noteq> Absent" "pid s t \<noteq> -1" "pid s t \<noteq> 0"
      using a assms(2) by (auto simp: told_def known_def)
    then show ?thesis using assms(1) unfolding life_ok_def procs_ok_def by blast
  qed
  have "alive (child s t) \<Longrightarrow> interrupt_pending (stop_handler s) t" for t
    using p [of Ping] p [of Pong] False
    by (cases t) (auto simp: stop_handler_def stop_threads_def stop_timer_def send_sig_def kill_child_def pid_def Let_def)
  then show ?thesis using assms(2) False
    by (simp add: told_def known_def stop_handler_def stop_timer_def pid_def)
qed

lemma set_child_fields [simp]:
  "pid (set_child t x s) = pid s" "child (set_child t x s) = (child s)(t := x)" "proc (set_child t x s) = proc s"
  "visited (set_child t x s) = visited s" "interrupt_pending (set_child t x s) = interrupt_pending s"
  "phase (set_child t x s) = phase s" "stop (set_child t x s) = stop s"
  "sigchld_pending (set_child t x s) = sigchld_pending s"
  by (simp_all add: set_child_def pid_def fun_eq_iff)

lemma reap_child_known: "life_ok cfg s \<Longrightarrow> known s \<Longrightarrow> known (reap_child t s)"
  using reap_child_pid [of cfg s t]
  by (cases "child s t = Zombie") (auto simp: known_def reap_child_def)

lemma reap_child_told: "life_ok cfg s \<Longrightarrow> told s \<Longrightarrow> told (reap_child t s)"
  using reap_child_pid [of cfg s t] reap_child_known [of cfg s t]
  by (cases "child s t = Zombie") (auto simp: told_def reap_child_def)

lemma child_handler_known:
  assumes "life_ok cfg s" "known s"
  shows "child_handler s = (reap_child Pong (reap_child Ping s))\<lparr>sigchld_pending := False\<rparr>"
  using reap_child_known [OF reap_child_ok reap_child_known, OF assms(1) assms]
  by (simp add: child_handler_def wait_none_known known_def)

lemma wait4_told: "told s \<Longrightarrow> told (wait4_nohang p s)"
  by (simp add: wait4_nohang_def) (auto simp: told_def known_def)

lemma told_frame:
  "told s \<Longrightarrow> told (s\<lparr>sigchld_pending := b\<rparr>)" "told s \<Longrightarrow> told (s\<lparr>last_stats_time := x\<rparr>)"
  "told s \<Longrightarrow> told (s\<lparr>in_interrupt := b\<rparr>)" "told s \<Longrightarrow> told (s\<lparr>phase := ph\<rparr>)" "told s \<Longrightarrow> told (wake s)"
  by (simp_all add: told_def known_def pid_def wake_def)

lemma child_dies_told: "told s \<Longrightarrow> alive (child s t) \<Longrightarrow> told (child_dies t s)"
  by (auto simp: told_def known_def child_dies_def set_child_def pid_def)

lemma interrupt_thread_told:
  assumes "told s" "life_ok cfg s" "alive (child s t)"
  shows "told (interrupt_thread t s)"
proof -
  have "visited s \<longrightarrow> stop s" using assms(2) by (simp add: life_ok_def monitor_ok_def)
  then show ?thesis using assms(1,3) unfolding told_def known_def
    by (auto simp: interrupt_thread_def child_dies_def set_child_def pid_def Let_def)
qed

lemma monitor_interrupt_told:
  assumes "told s" "life_ok cfg s"
  shows "told (monitor_interrupt now s)"
proof -
  let ?s1 = "wait4_nohang (pid s Pong) (wait4_nohang (pid s Ping) s)"
  have 1: "told ?s1" "life_ok cfg ?s1" by (simp_all add: assms wait4_told wait4_ok)
  show ?thesis
    using stop_handler_told [of cfg "?s1\<lparr>in_interrupt := True\<rparr>"]
      stop_handler_told [of cfg "?s1\<lparr>last_stats_time := now, in_interrupt := True\<rparr>"] 1 assms(1)
    by (simp add: monitor_interrupt_def Let_def told_frame stats_time_ok)
qed

lemma lstep_told: "lstep cfg s s' \<Longrightarrow> told s \<Longrightarrow> life_ok cfg s \<Longrightarrow> told s'"
proof (induction rule: lstep.induct)
  case (L_ready s t)
  then show ?case
    by (auto simp: told_def known_def thread_ready_def set_tid_def set_pid_def set_child_def pid_def Let_def)
next
  case (L_go s t)
  then show ?case by (auto simp: told_def known_def)
next
  case (L_sigchld s)
  then have "known s" by (simp add: told_def)
  with L_sigchld show ?case
    by (simp add: child_handler_known told_frame reap_child_told [OF reap_child_ok] reap_child_told)
next
  case (L_start s now)
  then show ?case by (simp add: told_def known_def monitor_start_def setup_monitor_timer_def pid_def)
next
  case (L_test s)
  then show ?case by (simp add: monitor_test_def told_frame stop_handler_told)
next
  case (L_finish s)
  then show ?case by (simp add: told_def known_def stop_finish_def pid_def)
qed (simp_all add: interrupt_thread_told child_dies_told told_frame monitor_interrupt_told stop_handler_told)

lemma reach_told: "reach cfg s0 s \<Longrightarrow> told s0 \<Longrightarrow> life_ok cfg s0 \<Longrightarrow> told s"
proof (induction rule: reach.induct)
  case (R_step s s')
  then show ?case using lstep_told reach_ok by blast
qed

text \<open>A child that is interrupted while the monitor stops is dead afterwards.\<close>

lemma interrupt_kills:
  assumes "life_ok cfg s" "phase s = M_stopping" "alive (child s t)"
  shows "child (interrupt_thread t s) = (child s)(t := Zombie)" "phase (interrupt_thread t s) = M_stopping"
    "pid (interrupt_thread t s) = pid s" "sigchld_pending (interrupt_thread t s)"
    "u \<noteq> t \<Longrightarrow> interrupt_pending (interrupt_thread t s) u = interrupt_pending s u"
  using assms unfolding life_ok_def monitor_ok_def
  by (auto simp: interrupt_thread_def child_dies_def set_child_def pid_def Let_def fun_eq_iff)

lemma quiesce:
  assumes "life_ok cfg s" "told s" "phase s = M_stopping"
  shows "\<exists>s'. reach cfg s s' \<and> life_ok cfg s' \<and> told s' \<and> phase s' = M_stopping \<and> pid s' = pid s
     \<and> child s' = (\<lambda>t. if alive (child s t) then Zombie else child s t)"
proof -
  have one: "\<exists>s'. reach cfg s s' \<and> life_ok cfg s' \<and> told s' \<and> phase s' = M_stopping \<and> pid s' = pid s
     \<and> child s' = (child s)(t := if alive (child s t) then Zombie else child s t)"
    if s: "life_ok cfg s" "told s" "phase s = M_stopping" for s t
  proof (cases "alive (child s t)")
    case True
    have "visited s" using s(1,3) by (simp add: life_ok_def monitor_ok_def)
    then have "interrupt_pending s t" using s(2) True by (simp add: told_def)
    then have "lstep cfg s (interrupt_thread t s)" using True by (rule L_interrupt [rotated])
    then show ?thesis
      using interrupt_kills [OF s(1,3) True] lstep_ok lstep_told s True
      by (intro exI [of _ "interrupt_thread t s"]) (auto intro: reach.intros)
  next
    case False
    then show ?thesis using s by (intro exI [of _ s]) (auto intro: reach.intros)
  qed
  obtain s1 where s1: "reach cfg s s1" "life_ok cfg s1" "told s1" "phase s1 = M_stopping" "pid s1 = pid s"
    "child s1 = (child s)(Ping := if alive (child s Ping) then Zombie else child s Ping)"
    using one [OF assms, of Ping] by blast
  obtain s2 where s2: "reach cfg s1 s2" "life_ok cfg s2" "told s2" "phase s2 = M_stopping" "pid s2 = pid s1"
    "child s2 = (child s1)(Pong := if alive (child s1 Pong) then Zombie else child s1 Pong)"
    using one [OF s1(2-4), of Pong] by blast
  have "child s2 = (\<lambda>t. if alive (child s t) then Zombie else child s t)"
  proof
    fix t show "child s2 t = (if alive (child s t) then Zombie else child s t)"
      by (cases t) (simp_all add: s2(6) s1(6))
  qed
  then show ?thesis using s1 s2 reach_trans by (intro exI [of _ s2]) auto
qed

text \<open>From there one delivery of SIGCHLD collects the dead, and the stop handler finishes.\<close>

lemma reap_pid:
  assumes "life_ok cfg s" "child s t = Zombie" "known s"
  shows "pid (reap_child t s) = (pid s)(t := -1)" "phase (reap_child t s) = phase s"
proof -
  have "pid s t = 0 \<or> pid s t = -1 \<or> pid s t = proc s t"
    using assms(1) unfolding life_ok_def procs_ok_def by blast
  moreover have "pid s t \<noteq> 0" "pid s t \<noteq> -1" using assms(2,3) by (auto simp: known_def)
  ultimately have "pid s t = proc s t" by blast
  then show "pid (reap_child t s) = (pid s)(t := -1)" "phase (reap_child t s) = phase s"
    using reap_child_pid [OF assms(1,2)] by simp_all
qed

lemma reap_step:
  assumes "life_ok cfg s" "known s"
  shows "pid (reap_child t s) = (pid s)(t := if child s t = Zombie then -1 else pid s t)"
    "phase (reap_child t s) = phase s"
  using reap_pid [OF assms(1), of t] assms(2) by (cases "child s t = Zombie"; simp add: reap_child_def)+

lemma collect:
  assumes "life_ok cfg s" "known s" "phase s = M_stopping"
    "\<forall>t. child s t = Zombie \<or> pid s t = -1"
  shows "pid (wake (child_handler s)) = (\<lambda>_. -1) \<and> phase (wake (child_handler s)) = M_stopping"
proof -
  let ?s1 = "reap_child Ping s"
  have 1: "pid ?s1 = (pid s)(Ping := -1)" "phase ?s1 = M_stopping"
    using reap_step [OF assms(1,2), of Ping] assms(3,4) by (auto simp: fun_eq_iff)
  have c: "child ?s1 Pong = child s Pong" by (simp add: reap_child_child)
  have "life_ok cfg ?s1" "known ?s1" using reap_child_ok reap_child_known assms(1,2) by blast+
  note 2 = reap_step [OF this, of Pong]
  have "pid (reap_child Pong ?s1) t = -1" for t using 2(1) 1(1) c assms(4) by (cases t) auto
  then show ?thesis using 2(2) 1(2)
    by (simp add: child_handler_known [OF assms(1,2)] wake_def pid_def fun_eq_iff)
qed

lemma stop_reaches_exit:
  assumes ok: "life_ok cfg s" and told: "told s" and ph: "phase s = M_stopping"
    and tracked: "\<forall>t. child s t = Reaped \<longrightarrow> pid s t = -1"
  shows "\<exists>s'. reach cfg s s' \<and> phase s' = M_exited"
proof -
  obtain s1 where s1: "reach cfg s s1" "life_ok cfg s1" "told s1" "phase s1 = M_stopping" "pid s1 = pid s"
    "child s1 = (\<lambda>t. if alive (child s t) then Zombie else child s t)"
    using quiesce [OF ok told ph] by blast
  have p0: "known s1" and na: "\<forall>t. child s t \<noteq> Absent" using told s1(3) by (simp_all add: told_def)
  have z: "\<forall>t. child s1 t = Zombie \<or> pid s1 t = -1"
  proof
    fix t show "child s1 t = Zombie \<or> pid s1 t = -1"
      using tracked na s1(5,6) by (cases "child s t") auto
  qed
  have fin: "\<exists>s'. reach cfg s s' \<and> phase s' = M_exited"
    if u: "reach cfg s u" "phase u = M_stopping" "pid u = (\<lambda>_. -1)" for u
  proof -
    have "lstep cfg u (stop_finish (lc_cleanup_exits cfg) u)" using u by (intro L_finish) simp_all
    then show ?thesis using u(1) R_step by (intro exI [of _ "stop_finish (lc_cleanup_exits cfg) u"])
        (auto simp: stop_finish_def)
  qed
  show ?thesis
  proof (cases "\<exists>t. child s1 t = Zombie")
    case True
    then have "sigchld_pending s1" using s1(2) unfolding life_ok_def procs_ok_def by blast
    then have "lstep cfg s1 (wake (child_handler s1))" using s1(4) by (intro L_sigchld) simp_all
    then have "reach cfg s (wake (child_handler s1))" using s1(1) R_step by blast
    then show ?thesis using collect [OF s1(2) p0 s1(4) z] fin by blast
  next
    case False
    then have "pid s1 = (\<lambda>_. -1)" using z by (auto simp: fun_eq_iff)
    then show ?thesis using s1 fin by blast
  qed
qed

text \<open>
  Past that point every step that changes anything brings the exit nearer, so it is also inevitable.
\<close>

definition child_effort :: "child_state \<Rightarrow> nat" where
  "child_effort c = (case c of Absent \<Rightarrow> 0 | Starting \<Rightarrow> 9 | Ready \<Rightarrow> 7 | Running \<Rightarrow> 5 | Zombie \<Rightarrow> 2 | Reaped \<Rightarrow> 0)"

definition effort :: "life \<Rightarrow> nat" where
  "effort s = child_effort (child s Ping) + child_effort (child s Pong) + of_bool (interrupt_pending s Ping)
     + of_bool (interrupt_pending s Pong) + of_bool (sigchld_pending s) + of_bool (phase s \<noteq> M_exited)"

lemma effort_bound: "effort s \<le> 22"
  by (simp add: effort_def child_effort_def of_bool_def split: child_state.split)

lemma effort_child:
  assumes "child s t = c" "child_effort c' + k < child_effort c"
    and "child s' = (child s)(t := c')" "phase s' = phase s"
    and "of_bool (sigchld_pending s') \<le> of_bool (sigchld_pending s) + k"
    and "\<And>u. interrupt_pending s' u \<Longrightarrow> interrupt_pending s u"
  shows "effort s' < effort s"
  using assms(1,2,5) assms(6) [of Ping] assms(6) [of Pong]
  by (cases t) (auto simp: effort_def assms(3,4) of_bool_def split: if_splits)

lemma reap_child_frames:
  "interrupt_pending (reap_child t s) = interrupt_pending s" "phase (reap_child t s) = phase s"
  by (simp_all add: reap_child_def Let_def)

lemma effort_dies: "alive c \<Longrightarrow> child_effort Zombie + 1 < child_effort c"
  by (cases c) (simp_all add: alive_def child_effort_def)

lemma child_handler_fields:
  "child (child_handler s) t = (if child s t = Zombie then Reaped else child s t)"
  "interrupt_pending (child_handler s) = interrupt_pending s" "phase (child_handler s) = phase s"
  "\<not> sigchld_pending (child_handler s)"
  by (cases t; simp add: child_handler_def reap_child_child) (simp_all add: child_handler_def reap_child_frames)

lemma thread_ready_fields:
  "child (thread_ready t s) = (child s)(t := Ready)" "phase (thread_ready t s) = phase s"
  "sigchld_pending (thread_ready t s) = sigchld_pending s" "interrupt_pending (thread_ready t s) = interrupt_pending s"
  "u \<noteq> t \<Longrightarrow> pid (thread_ready t s) u = pid s u"
  by (simp_all add: thread_ready_frame)

definition tracked :: "life \<Rightarrow> bool" where
  "tracked s \<longleftrightarrow> (\<forall>t. child s t = Reaped \<longrightarrow> pid s t = -1)"

lemma tracked_child:
  assumes "tracked s" "child s' = (child s)(t := c)" "c \<noteq> Reaped" "\<And>u. u \<noteq> t \<Longrightarrow> pid s' u = pid s u"
  shows "tracked s'"
  using assms by (simp add: tracked_def)

definition run_stopping :: "life_cfg \<Rightarrow> life \<Rightarrow> bool" where
  "run_stopping cfg s \<longleftrightarrow> life_ok cfg s \<and> told s \<and> tracked s \<and> (phase s = M_stopping \<or> phase s = M_exited)"

lemma child_handler_tracked:
  assumes "life_ok cfg s" "known s" "tracked s"
  shows "tracked (child_handler s)"
proof -
  let ?s1 = "reap_child Ping s"
  note 1 = reap_step [OF assms(1,2), of Ping]
  have c: "child ?s1 Pong = child s Pong" by (simp add: reap_child_child)
  have "life_ok cfg ?s1" "known ?s1" using reap_child_ok reap_child_known assms(1,2) by blast+
  note 2 = reap_step [OF this, of Pong]
  have p: "pid (child_handler s) t = (if child s t = Zombie then -1 else pid s t)" for t
    using 1(1) 2(1) c by (cases t) (simp_all add: child_handler_known [OF assms(1,2)] pid_def fun_eq_iff)
  show ?thesis using assms(3) by (auto simp: tracked_def p child_handler_fields)
qed

lemma stopping_step:
  assumes s: "run_stopping cfg s" and l: "lstep cfg s s'"
  shows "(s' = s \<or> effort s' < effort s) \<and> run_stopping cfg s'"
proof -
  have ok: "life_ok cfg s" "told s" "tracked s" and ph: "phase s = M_stopping \<or> phase s = M_exited"
    using s by (simp_all add: run_stopping_def)
  have v: "visited s" "stop s" "\<not> timer s" using ok(1) ph by (auto simp: life_ok_def monitor_ok_def)
  have inv: "life_ok cfg s'" "told s'" using lstep_ok [OF l ok(1)] lstep_told [OF l ok(2,1)] by simp_all
  have tr: "run_stopping cfg s'" if "tracked s'" "phase s' = phase s \<or> phase s' = M_exited"
    using inv that ph by (auto simp: run_stopping_def)
  from l show ?thesis
  proof (cases rule: lstep.cases)
    case (L_ready t)
    have f: "child s' = (child s)(t := Ready)" "phase s' = phase s" "sigchld_pending s' = sigchld_pending s"
      "interrupt_pending s' = interrupt_pending s" "\<And>u. u \<noteq> t \<Longrightarrow> pid s' u = pid s u"
      unfolding L_ready(1) by (simp_all only: thread_ready_fields(1-4)) (rule thread_ready_fields(5))
    have "effort s' < effort s"
      by (rule effort_child [where c' = Ready and k = 0, OF L_ready(2) _ f(1,2)]) (simp_all add: child_effort_def f)
    moreover have "tracked s'" by (rule tracked_child [OF ok(3) f(1) _ f(5)]) simp_all
    ultimately show ?thesis using tr f(2) by simp
  next
    case (L_go t)
    have f: "child s' = (child s)(t := Running)" "phase s' = phase s" "sigchld_pending s' = sigchld_pending s"
      "interrupt_pending s' = interrupt_pending s" "pid s' = pid s"
      by (simp_all add: L_go(1) set_child_def pid_def fun_eq_iff)
    have "effort s' < effort s"
      by (rule effort_child [where c' = Running and k = 0, OF L_go(2) _ f(1,2)]) (simp_all add: child_effort_def f)
    moreover have "tracked s'" using ok(3) f(1,5) by (simp add: tracked_def)
    ultimately show ?thesis using tr f(2) by simp
  next
    case (L_interrupt t)
    have f: "child s' = (child s)(t := Zombie)" "phase s' = phase s"
      "\<And>u. interrupt_pending s' u \<Longrightarrow> interrupt_pending s u" "pid s' = pid s"
      using v(2) by (auto simp: L_interrupt(1) interrupt_thread_def child_dies_def set_child_def pid_def fun_eq_iff Let_def split: if_splits)
    have "effort s' < effort s"
      by (rule effort_child [where c' = Zombie and k = 1, OF refl effort_dies [OF L_interrupt(2)] f(1,2) _ f(3)]) simp_all
    moreover have "tracked s'" using ok(3) f(1,4) by (simp add: tracked_def)
    ultimately show ?thesis using tr f(2) by simp
  next
    case (L_dies t)
    have f: "child s' = (child s)(t := Zombie)" "phase s' = phase s" "interrupt_pending s' = interrupt_pending s" "pid s' = pid s"
      by (simp_all add: L_dies(1) child_dies_def set_child_def pid_def fun_eq_iff)
    have "effort s' < effort s"
      by (rule effort_child [where c' = Zombie and k = 1, OF refl effort_dies [OF L_dies(2)] f(1,2)]) (simp_all add: f(3))
    moreover have "tracked s'" using ok(3) f(1,4) by (simp add: tracked_def)
    ultimately show ?thesis using tr f(2) by simp
  next
    case L_sigchld
    have p: "phase s = M_stopping" using L_sigchld(2) ph by simp
    then have s': "s' = child_handler s" by (simp add: L_sigchld(1) wake_def child_handler_fields)
    have "child_effort (child s' t) \<le> child_effort (child s t)" for t
      by (simp add: s' child_handler_fields child_effort_def)
    then have "effort s' < effort s"
      using L_sigchld(3) add_mono [of "child_effort (child s' Ping)" "child_effort (child s Ping)"
          "child_effort (child s' Pong)" "child_effort (child s Pong)"]
      by (simp add: effort_def s' child_handler_fields)
    moreover have "tracked s'" unfolding s' by (rule child_handler_tracked [OF ok(1) _ ok(3)]) (use ok(2) in \<open>simp add: told_def\<close>)
    ultimately show ?thesis using tr by (simp add: s' child_handler_fields)
  next
    case L_sigint
    then have "s' = s" using v(1) ph by (auto simp: wake_def stop_handler_def)
    then show ?thesis using s by simp
  next
    case L_finish
    have f: "child s' = child s" "pid s' = pid s" "phase s' = M_exited"
      by (simp_all add: L_finish(1) stop_finish_def pid_def fun_eq_iff)
    have "effort s' < effort s" using L_finish(2) by (simp add: effort_def L_finish(1) stop_finish_def)
    moreover have "tracked s'" using ok(3) f by (simp add: tracked_def)
    ultimately show ?thesis using tr f(3) by simp
  qed (use v(3) ph in auto)
qed

lemma stopping_reach: "reach cfg s s' \<Longrightarrow> run_stopping cfg s \<Longrightarrow> run_stopping cfg s'"
  by (induction rule: reach.induct) (auto dest: stopping_step)

lemma reach_moves: "reach cfg s s' \<Longrightarrow> s' \<noteq> s \<Longrightarrow> \<exists>u. lstep cfg s u \<and> u \<noteq> s"
proof (induction rule: reach.induct)
  case (R_step s' s'')
  then show ?case by (cases "s' = s") auto
qed simp

lemma stopping_never_stuck:
  assumes "run_stopping cfg s"
  shows "phase s = M_exited \<or> (\<exists>u. lstep cfg s u \<and> u \<noteq> s)"
proof (cases "phase s = M_exited")
  case False
  then obtain s' where "reach cfg s s'" "phase s' = M_exited"
    using stop_reaches_exit [of cfg s] assms by (auto simp: run_stopping_def tracked_def)
  then show ?thesis using reach_moves False by metis
qed simp

lemma stopping_run:
  assumes s: "run_stopping cfg (f 0)"
    and r: "\<forall>i. phase (f i) \<noteq> M_exited \<longrightarrow> lstep cfg (f i) (f (Suc i)) \<and> f (Suc i) \<noteq> f i"
  shows "\<exists>i \<le> effort (f 0). phase (f i) = M_exited"
proof (rule ccontr)
  assume n: "\<not> (\<exists>i \<le> effort (f 0). phase (f i) = M_exited)"
  have "i \<le> effort (f 0) \<Longrightarrow> run_stopping cfg (f i) \<and> effort (f i) + i \<le> effort (f 0)" for i
  proof (induction i)
    case (Suc i)
    then have "lstep cfg (f i) (f (Suc i))" "f (Suc i) \<noteq> f i" using n r by auto
    then show ?case using stopping_step [of cfg "f i" "f (Suc i)"] Suc by force
  qed (use s in simp)
  from this [of "effort (f 0)"] have "effort (f (effort (f 0))) = 0" by simp
  then have "phase (f (effort (f 0))) = M_exited" by (simp add: effort_def of_bool_def split: if_splits)
  then show False using n by blast
qed

section \<open>Runs that never end\<close>

text \<open>
  A child that is reaped while its process id is still recorded: nothing clears the id any more.
\<close>

definition lost :: "tid \<Rightarrow> life \<Rightarrow> bool" where
  "lost t s \<longleftrightarrow> child s t = Reaped \<and> pid s t \<noteq> -1 \<and> pid s t \<noteq> 0"

lemma lost_frame:
  "lost t s \<Longrightarrow> lost t (s\<lparr>sigchld_pending := b\<rparr>)" "lost t s \<Longrightarrow> lost t (s\<lparr>last_stats_time := x\<rparr>)"
  "lost t s \<Longrightarrow> lost t (s\<lparr>in_interrupt := b\<rparr>)" "lost t s \<Longrightarrow> lost t (s\<lparr>phase := ph\<rparr>)"
  "lost t s \<Longrightarrow> lost t (wake s)" "lost t s \<Longrightarrow> lost t (stop_handler s)" "lost t s \<Longrightarrow> lost t (wait4_nohang p s)"
  "lost t s \<Longrightarrow> lost t (monitor_start cfg now s)" "lost t s \<Longrightarrow> lost t (stop_finish e s)"
  by (auto simp: lost_def pid_def wake_def stop_handler_def stop_timer_def wait4_nohang_def set_child_def
      monitor_start_def setup_monitor_timer_def stop_finish_def)

lemma lost_other:
  "lost t s \<Longrightarrow> alive (child s u) \<Longrightarrow> lost t (child_dies u s) \<and> lost t (interrupt_thread u s)
     \<and> lost t (thread_ready u s) \<and> lost t (set_child u Running s)"
  by (cases "u = t") (auto simp: lost_def pid_def child_dies_def interrupt_thread_def set_child_def
      thread_ready_def set_tid_def set_pid_def Let_def)

lemma lost_reap: "life_ok cfg s \<Longrightarrow> lost t s \<Longrightarrow> lost t (reap_child u s)"
proof (cases "child s u = Zombie")
  case True
  assume ok: "life_ok cfg s" and l: "lost t s"
  then have "u \<noteq> t" using True by (auto simp: lost_def)
  then show ?thesis using l unfolding reap_child_pid [OF ok True] by (simp add: lost_def)
qed (simp add: reap_child_def)

lemma lstep_lost: "lstep cfg s s' \<Longrightarrow> life_ok cfg s \<Longrightarrow> lost t s \<Longrightarrow> lost t s'"
proof (induction rule: lstep.induct)
  case (L_sigchld s)
  then have "lost t (reap_child Pong (reap_child Ping s))" using lost_reap reap_child_ok by blast
  then have "lost t (wait_none (reap_child Pong (reap_child Ping s)))" by (simp add: lost_def)
  then show ?case by (simp add: child_handler_def lost_frame)
qed (simp_all add: lost_other lost_frame monitor_interrupt_def monitor_test_def Let_def)

lemma lost_never_exits:
  assumes "reach cfg s s'" "life_ok cfg s" "lost t s"
  shows "phase s' \<noteq> M_exited"
proof -
  from assms have "lost t s'" by (induction rule: reach.induct) (auto dest: lstep_lost reach_ok)
  moreover have "life_ok cfg s'" using assms reach_ok by blast
  ultimately show ?thesis unfolding lost_def life_ok_def monitor_ok_def by (cases t) auto
qed

text \<open>
  A child that was never created: its process id stays unset, because there is no SIGCHLD while the
  other child is alive.
\<close>

definition uncreated :: "tid \<Rightarrow> life \<Rightarrow> bool" where
  "uncreated t s \<longleftrightarrow> child s t = Absent \<and> pid s t = 0
     \<and> (sigchld_pending s \<longrightarrow> (\<forall>u. \<not> alive (child s u)))"

lemma uncreated_frame:
  "child s' = child s \<Longrightarrow> pid s' = pid s \<Longrightarrow> sigchld_pending s' = sigchld_pending s \<Longrightarrow> uncreated t s \<Longrightarrow> uncreated t s'"
  by (simp add: uncreated_def)

lemma uncreated_dies:
  assumes "uncreated t s" "alive (child s u)"
  shows "uncreated t (child_dies u s)"
proof -
  have "u \<noteq> t" using assms by (auto simp: uncreated_def)
  then have "v = t \<or> v = u" for v by (cases v; cases t; cases u) auto
  moreover have "child s t = Absent" "pid s t = 0" using assms(1) by (simp_all add: uncreated_def)
  ultimately show ?thesis using \<open>u \<noteq> t\<close>
    by (auto simp: uncreated_def child_dies_def pid_def set_child_def) (metis alive_simps(4,6))
qed

lemma reap_uncreated:
  assumes "life_ok cfg s" "uncreated t s"
  shows "uncreated t (reap_child u s)"
proof (cases "child s u = Zombie")
  case True
  then have "u \<noteq> t" using assms(2) by (auto simp: uncreated_def)
  then show ?thesis using assms(2) reap_child_pid [OF assms(1) True] by (auto simp: uncreated_def)
qed (use assms(2) in \<open>simp add: reap_child_def\<close>)

lemma reap_alive: "alive (child (reap_child u s) v) = alive (child s v)"
  by (auto simp: reap_child_child)

lemma child_handler_uncreated:
  assumes "life_ok cfg s" "uncreated t s" "sigchld_pending s"
  shows "uncreated t (child_handler s)"
proof -
  let ?s = "reap_child Pong (reap_child Ping s)"
  have u: "uncreated t ?s" using reap_uncreated [OF reap_child_ok [OF assms(1)] reap_uncreated [OF assms(1,2)]] .
  have "\<forall>v. \<not> alive (child s v)" using assms(2,3) by (simp add: uncreated_def)
  then have "wait_none ?s = ?s" by (intro wait_none_alone) (simp add: reap_alive)
  then show ?thesis using u by (simp add: child_handler_def uncreated_def pid_def)
qed

lemma wait4_uncreated: "uncreated t s \<Longrightarrow> uncreated t (wait4_nohang p s)"
  by (simp add: wait4_nohang_def) (auto simp: uncreated_def set_child_def pid_def)

lemma stop_handler_frame:
  "child (stop_handler s) = child s" "pid (stop_handler s) = pid s" "sigchld_pending (stop_handler s) = sigchld_pending s"
  by (simp_all add: stop_handler_def stop_timer_def pid_def fun_eq_iff)

lemma wake_frame: "child (wake s) = child s" "pid (wake s) = pid s" "sigchld_pending (wake s) = sigchld_pending s"
  by (simp_all add: wake_def pid_def fun_eq_iff)

lemma monitor_start_frame:
  "child (monitor_start cfg now s) = child s" "pid (monitor_start cfg now s) = pid s" "proc (monitor_start cfg now s) = proc s"
  "stop (monitor_start cfg now s) = stop s" "start (monitor_start cfg now s)" "phase (monitor_start cfg now s) = M_test"
  "visited (monitor_start cfg now s) = visited s" "in_interrupt (monitor_start cfg now s) = in_interrupt s"
  "sigchld_pending (monitor_start cfg now s) = sigchld_pending s" "start_time (monitor_start cfg now s) = now"
  "interrupt_pending (monitor_start cfg now s) = interrupt_pending s" "ready (monitor_start cfg now s) = ready s"
  "timeout_time (monitor_start cfg now s) = now + of_int (lc_runtime cfg)"
  "timer (monitor_start cfg now s) \<longleftrightarrow> timer s \<or> tv_sec (lc_interval cfg) \<noteq> 0 \<or> tv_usec (lc_interval cfg) \<noteq> 0"
  by (simp_all add: monitor_start_def setup_monitor_timer_def pid_def fun_eq_iff)

lemma stop_finish_frame:
  "child (stop_finish e s) = child s" "pid (stop_finish e s) = pid s" "sigchld_pending (stop_finish e s) = sigchld_pending s"
  by (simp_all add: stop_finish_def pid_def fun_eq_iff)

lemma pid_phase: "pid (s\<lparr>phase := ph\<rparr>) = pid s"
  by (simp add: pid_def fun_eq_iff)

lemma lstep_uncreated: "lstep cfg s s' \<Longrightarrow> life_ok cfg s \<Longrightarrow> uncreated t s \<Longrightarrow> uncreated t s'"
proof (induction rule: lstep.induct)
  case (L_ready s u)
  then have "u \<noteq> t" "\<not> sigchld_pending s" by (auto simp: uncreated_def) (metis alive_simps(1))
  with L_ready show ?case by (auto simp: uncreated_def thread_ready_frame)
next
  case (L_go s u)
  then have "u \<noteq> t" "\<not> sigchld_pending s" by (auto simp: uncreated_def) (metis alive_simps(2))
  with L_go show ?case by (auto simp: uncreated_def set_child_def pid_def)
next
  case (L_interrupt s u)
  let ?s = "s\<lparr>interrupt_pending := (interrupt_pending s)(u := False)\<rparr>"
  have "uncreated t ?s" by (rule uncreated_frame [OF _ _ _ L_interrupt(4)]) (simp_all add: pid_def fun_eq_iff)
  with L_interrupt show ?case using uncreated_dies [of t ?s u] by (simp add: interrupt_thread_def Let_def)
next
  case (L_sigchld s)
  from child_handler_uncreated [OF L_sigchld(3,4,2)] show ?case
    by (rule uncreated_frame [rotated 3]) (simp_all add: wake_frame)
next
  case (L_tick s now)
  let ?s = "wait4_nohang (pid s Pong) (wait4_nohang (pid s Ping) s)"
  have "uncreated t ?s" by (intro wait4_uncreated L_tick(4))
  then have "uncreated t (monitor_interrupt now s)" using L_tick(4)
    by (simp add: monitor_interrupt_def Let_def uncreated_def stop_handler_frame) (simp add: pid_def)
  then show ?case by (rule uncreated_frame [rotated 3]) (simp_all add: wake_frame)
next
  case (L_dies s u)
  then show ?case by (simp add: uncreated_dies)
qed (auto simp: uncreated_def wake_frame stop_handler_frame monitor_start_frame
    monitor_test_def stop_finish_frame pid_phase)

lemma uncreated_never_starts:
  assumes "reach cfg s s'" "life_ok cfg s" "uncreated t s"
  shows "\<not> start s' \<and> phase s' \<noteq> M_exited"
proof -
  from assms have "uncreated t s'" by (induction rule: reach.induct) (auto dest: lstep_uncreated reach_ok)
  moreover have "life_ok cfg s'" using assms reach_ok by blast
  ultimately show ?thesis unfolding uncreated_def life_ok_def barrier_ok_def monitor_ok_def by (cases t) auto
qed

text \<open>A child that is dead without having been ready never becomes ready.\<close>

definition stillborn :: "tid \<Rightarrow> life \<Rightarrow> bool" where
  "stillborn t s \<longleftrightarrow> \<not> alive (child s t) \<and> \<not> ready s t"

lemma reap_stillborn: "stillborn t s \<Longrightarrow> stillborn t (reap_child u s)"
  by (auto simp: stillborn_def reap_child_def stop_timer_def set_pid_def set_child_def alive_def Let_def)

lemma stillborn_frame: "child s' = child s \<Longrightarrow> ready s' = ready s \<Longrightarrow> stillborn t s \<Longrightarrow> stillborn t s'"
  by (simp add: stillborn_def)

lemma wait4_stillborn: "stillborn t s \<Longrightarrow> stillborn t (wait4_nohang p s)"
  by (auto simp: stillborn_def wait4_nohang_def set_child_def alive_def)

lemma stop_handler_ready [simp]: "ready (stop_handler s) = ready s" "child (stop_handler s) = child s"
  by (simp_all add: stop_handler_def stop_timer_def stop_threads_def kill_child_def send_sig_def Let_def)

lemma lstep_stillborn: "lstep cfg s s' \<Longrightarrow> stillborn t s \<Longrightarrow> stillborn t s'"
proof (induction rule: lstep.induct)
  case (L_sigchld s)
  then have "stillborn t (reap_child Pong (reap_child Ping s))" by (intro reap_stillborn)
  then show ?case by (rule stillborn_frame [rotated 2]) (simp_all add: child_handler_def wake_def)
next
  case (L_tick s now)
  then have "stillborn t (wait4_nohang (pid s Pong) (wait4_nohang (pid s Ping) s))" by (intro wait4_stillborn)
  with L_tick show ?case by (auto simp: stillborn_def monitor_interrupt_def wake_def Let_def)
qed (auto simp: stillborn_def thread_ready_def set_tid_def set_pid_def set_child_def interrupt_thread_def
    child_dies_def alive_def wake_def monitor_start_def setup_monitor_timer_def monitor_test_def stop_finish_def Let_def)

lemma stillborn_never_starts:
  assumes "reach cfg s s'" "life_ok cfg s" "stillborn t s"
  shows "\<not> start s' \<and> (visited s' \<or> phase s' = M_ready_wait)"
proof -
  from assms(1,3) have "stillborn t s'" by (induction rule: reach.induct) (auto dest: lstep_stillborn)
  moreover have ok: "life_ok cfg s'" using assms reach_ok by blast
  ultimately have "\<not> start s'" unfolding life_ok_def barrier_ok_def stillborn_def by (cases t) auto
  with ok show ?thesis unfolding life_ok_def monitor_ok_def by (cases "phase s'") auto
qed

section \<open>A started run\<close>

text \<open>The state in which both children are ready and the monitor has just released them.\<close>

definition released :: "life_cfg \<Rightarrow> life \<Rightarrow> bool" where
  "released cfg s \<longleftrightarrow> phase s = M_test \<and> start s \<and> \<not> stop s \<and> \<not> visited s \<and> \<not> in_interrupt s
     \<and> \<not> sigchld_pending s \<and> \<not> interrupt_pending s Pong \<and> (\<forall>t. child s t = Ready \<and> pid s t = proc s t \<and> 0 < proc s t)
     \<and> proc s Ping \<noteq> proc s Pong
     \<and> (timer s \<longleftrightarrow> tv_sec (lc_interval cfg) \<noteq> 0 \<or> tv_usec (lc_interval cfg) \<noteq> 0)
     \<and> start_time s = 0 \<and> timeout_time s = of_int (lc_runtime cfg)"

lemma fork_released:
  assumes f: "do_fork forks init_threads = Inr s0" "fst forks \<noteq> snd forks"
  shows "\<exists>s. reach cfg s0 s \<and> released cfg s"
proof -
  let ?s1 = "thread_ready Ping s0" and ?s2 = "thread_ready Pong (thread_ready Ping s0)"
  have i: "child s0 Ping = Starting" "child s0 Pong = Starting" "phase s0 = M_ready_wait" "\<not> stop s0"
    "\<not> visited s0" "\<not> in_interrupt s0" "\<not> sigchld_pending s0" "\<not> timer s0" "\<not> interrupt_pending s0 Pong" "pid s0 Ping = proc s0 Ping"
    "pid s0 Pong = proc s0 Pong" "0 < proc s0 Ping" "0 < proc s0 Pong" "proc s0 Ping \<noteq> proc s0 Pong"
    using f by (auto simp: do_fork_def set_pid_def spawn_def init_threads_def pid_def Let_def split: if_splits)
  have "lstep cfg s0 ?s1" using i(1) by (rule L_ready)
  moreover have "lstep cfg ?s1 ?s2" using i(2)
    by (intro L_ready) (simp add: thread_ready_frame)
  moreover have "lstep cfg ?s2 (monitor_start cfg 0 ?s2)"
    using i(3) by (intro L_start) (simp_all add: thread_ready_frame)
  ultimately have "reach cfg s0 (monitor_start cfg 0 ?s2)" by (meson R_init R_step)
  moreover have "released cfg (monitor_start cfg 0 ?s2)"
    using i by (simp add: released_def all_tid monitor_start_frame thread_ready_frame)
  ultimately show ?thesis by blast
qed

lemma lost_reachable:
  assumes "released cfg s" "timer s" "0 < lc_runtime cfg"
  shows "\<exists>s'. reach cfg s s' \<and> lost Ping s'"
proof -
  let ?d = "child_dies Ping s"
  have r: "child s Ping = Ready" "child s Pong = Ready" "pid s Ping = proc s Ping" "0 < proc s Ping"
    "pid s Pong = proc s Pong" "proc s Ping \<noteq> proc s Pong" "phase s = M_test" "\<not> stop s" "\<not> in_interrupt s"
    "timeout_time s = of_int (lc_runtime cfg)"
    using assms(1) by (auto simp: released_def)
  have "lstep cfg s ?d" using r(1) by (intro L_dies) simp
  moreover have "lstep cfg ?d (wake (monitor_interrupt 0 ?d))"
    using r(7) assms(2) by (intro L_tick) (simp_all add: child_dies_def set_child_def)
  ultimately have "reach cfg s (wake (monitor_interrupt 0 ?d))" by (meson R_init R_step)
  moreover have "lost Ping (wake (monitor_interrupt 0 ?d))"
    using r assms(3) by (simp add: lost_def monitor_interrupt_def wait4_nohang_def child_dies_def set_child_def
        wake_def pid_def Let_def)
  ultimately show ?thesis by blast
qed

text \<open>The state of the lost wakeup: suspended after the stop flag was set.\<close>

definition asleep :: "life \<Rightarrow> bool" where
  "asleep s \<longleftrightarrow> phase s = M_suspended \<and> stop s \<and> \<not> timer s \<and> \<not> sigchld_pending s
     \<and> child s Ping = Reaped \<and> child s Pong = Running \<and> \<not> interrupt_pending s Pong"

lemma asleep_steps:
  assumes "asleep s" "lstep cfg s s'"
  shows "s' = wake (stop_handler s) \<or> s' = child_dies Pong s"
  using assms(2,1)
proof (cases rule: lstep.cases)
  case (L_ready t)
  then show ?thesis using assms(1) by (cases t) (auto simp: asleep_def)
next
  case (L_go t)
  then show ?thesis using assms(1) by (cases t) (auto simp: asleep_def)
next
  case (L_interrupt t)
  then show ?thesis using assms(1) by (cases t) (auto simp: asleep_def)
next
  case (L_dies t)
  then show ?thesis using assms(1) by (cases t) (auto simp: asleep_def)
qed (auto simp: asleep_def)

lemma ping_collected:
  assumes "child s Ping = Zombie" "child s Pong \<noteq> Zombie" "pid s Ping = proc s Ping" "pid s Pong \<noteq> 0"
  shows "child_handler s = (mark_dead Ping (set_child Ping Reaped s))\<lparr>sigchld_pending := False\<rparr>"
proof -
  have 1: "reap_child Ping s = mark_dead Ping (set_child Ping Reaped s)"
    using assms(1,3) by (simp add: reap_child_def Let_def)
  have 2: "reap_child Pong (reap_child Ping s) = reap_child Ping s"
    by (subst reap_child_def) (simp add: reap_child_child assms(2))
  have "\<forall>t. pid (reap_child Ping s) t \<noteq> 0" using assms(4) by (simp add: 1 all_tid)
  then show ?thesis by (simp add: child_handler_def wait_none_known 2) (simp add: 1)
qed

lemma asleep_reachable:
  assumes "released cfg s"
  shows "\<exists>s'. reach cfg s s' \<and> asleep s'"
proof -
  have r: "child s Ping = Ready" "child s Pong = Ready" "pid s Ping = proc s Ping" "0 < proc s Ping"
    "pid s Pong = proc s Pong" "pid s Pong \<noteq> 0" "phase s = M_test" "\<not> stop s" "start s"
    "\<not> interrupt_pending s Pong"
    using assms(1) by (simp_all add: released_def) (metis less_irrefl)
  let ?a = "set_child Pong Running s"
  let ?b = "?a\<lparr>phase := M_about\<rparr>"
  let ?c = "child_dies Ping ?b"
  let ?d = "wake (child_handler ?c)"
  have "lstep cfg s ?a" using r by (intro L_go) simp_all
  moreover have "lstep cfg ?a ?b"
    using L_test [of ?a cfg] r by (simp add: monitor_test_def set_child_def)
  moreover have "lstep cfg ?b ?c" using r by (intro L_dies) (simp add: set_child_def)
  moreover have "lstep cfg ?c ?d" by (intro L_sigchld) (simp_all add: child_dies_def set_child_def)
  moreover have h: "child_handler ?c = (mark_dead Ping (set_child Ping Reaped ?c))\<lparr>sigchld_pending := False\<rparr>"
    using r by (intro ping_collected) (simp_all add: child_dies_def set_child_def pid_def)
  moreover have d: "child ?d = (child s)(Ping := Reaped, Pong := Running)" "phase ?d = M_about" "stop ?d"
    "\<not> timer ?d" "\<not> sigchld_pending ?d" "interrupt_pending ?d = interrupt_pending s"
    using r h by (simp_all add: child_dies_def set_child_def set_pid_def mark_dead_def stop_timer_def
        wake_def pid_def Let_def fun_eq_iff)
  moreover have "lstep cfg ?d (?d\<lparr>phase := M_suspended\<rparr>)" using d(2) by (rule L_suspend)
  ultimately have "reach cfg s (?d\<lparr>phase := M_suspended\<rparr>)" by (meson R_init R_step)
  moreover have "asleep (?d\<lparr>phase := M_suspended\<rparr>)" using d r by (simp add: asleep_def)
  ultimately show ?thesis by blast
qed

section \<open>Properties\<close>

lemma clone_one_pid [simp]: "pid (clone_one t r s) u = pid s u"
  by (simp add: clone_one_def set_tid_def spawn_def pid_def)

lemma clone_one_child: "child (clone_one t r s) = (if 0 < r then (child s)(t := Starting) else child s)"
  by (simp add: clone_one_def set_tid_def spawn_def)

lemma start_ok:
  assumes "start_threads mode e = Inr s0" "mode = Thread_fork \<or> mode = Thread_thread"
    and "fst (se_forks e) \<noteq> snd (se_forks e)" "0 < fst (se_clones e) \<longrightarrow> fst (se_clones e) \<noteq> snd (se_clones e)"
  shows "life_ok cfg s0"
  using assms fork_ok(1) [of "se_forks e" s0 cfg] clone_ok [of "se_stacks e" "se_clones e" s0 cfg]
  by (auto simp: start_threads_def)

lemma clone_fresh:
  assumes "start_threads Thread_thread e = Inr s0"
  shows "pid s0 t = 0" "\<not> sigchld_pending s0" "phase s0 = M_ready_wait" "\<not> visited s0" "\<not> stop s0"
    "child s0 t = (if 0 < (case t of Ping \<Rightarrow> fst (se_clones e) | Pong \<Rightarrow> snd (se_clones e)) then Starting else Absent)"
    "proc s0 t = (if 0 < (case t of Ping \<Rightarrow> fst (se_clones e) | Pong \<Rightarrow> snd (se_clones e))
                  then (case t of Ping \<Rightarrow> fst (se_clones e) | Pong \<Rightarrow> snd (se_clones e)) else 0)"
  using assms
  by (cases t; auto simp: start_threads_def do_clone_def clone_one_def set_tid_def spawn_def init_threads_def pid_def Let_def
      split: if_splits)+

lemma fork_start:
  assumes "start_threads Thread_fork e = Inr s0" "fst (se_forks e) \<noteq> snd (se_forks e)"
  shows "life_ok cfg s0" "told s0" "do_fork (se_forks e) init_threads = Inr s0"
proof -
  show f: "do_fork (se_forks e) init_threads = Inr s0" using assms(1) by (simp add: start_threads_def)
  show "life_ok cfg s0" by (rule fork_ok(1) [OF f assms(2)])
  have "\<not> visited s0" using f
    by (auto simp: do_fork_def set_pid_def spawn_def init_threads_def Let_def split: if_splits)
  then show "told s0" using fork_ok(2) [OF f assms(2)] by (simp add: told_def known_def)
qed

text \<open>
  C3: in every run with forked or cloned children, whatever signals, deaths and timer ticks happen
  in whatever order: no child pings or pongs before both are ready; when the monitor exits both
  process ids have been cleared, the stop flag is set, the timer is off, and the final statistics
  have been shown exactly if the cleanup of the mode returns; and with forked children a process id is
  cleared only when its child has been waited for, so that they are then both gone.
\<close>

theorem lifecycle_safe:
  assumes "start_threads mode e = Inr s0" "mode = Thread_fork \<or> mode = Thread_thread"
    and "fst (se_forks e) \<noteq> snd (se_forks e)" "0 < fst (se_clones e) \<longrightarrow> fst (se_clones e) \<noteq> snd (se_clones e)"
    and "reach cfg s0 s"
  shows "(child s t = Running \<longrightarrow> ready s Ping \<and> ready s Pong)
    \<and> (mode = Thread_fork \<longrightarrow> pid s t = -1 \<longrightarrow> child s t = Reaped)
    \<and> (phase s = M_exited \<longrightarrow> pid s t = -1 \<and> stop s \<and> \<not> timer s
         \<and> final_stats s = (\<not> lc_cleanup_exits cfg))
    \<and> (phase s \<noteq> M_exited \<longrightarrow> \<not> final_stats s)"
proof -
  have ok: "life_ok cfg s" using reach_ok [OF assms(5) start_ok [OF assms(1-4)]] .
  have r: "child s t = Running \<longrightarrow> ready s Ping \<and> ready s Pong"
    using ok unfolding life_ok_def barrier_ok_def by blast
  have p: "pid s t = -1 \<longrightarrow> child s t = Reaped" if "mode = Thread_fork"
  proof -
    have st: "start_threads Thread_fork e = Inr s0" using assms(1) that by simp
    from fork_start [OF this assms(3)] assms(5) have "told s" using reach_told by blast
    then show ?thesis by (simp add: told_def known_def)
  qed
  have "phase s = M_exited \<longrightarrow> pid s t = -1 \<and> stop s \<and> \<not> timer s \<and> final_stats s = (\<not> lc_cleanup_exits cfg)"
    and "phase s \<noteq> M_exited \<longrightarrow> \<not> final_stats s"
    using ok unfolding life_ok_def monitor_ok_def by (cases t; blast)+
  with r p show ?thesis by blast
qed

definition example_env :: start_env where
  "example_env = \<lparr>se_forks = (100, 101), se_stacks = (True, True), se_clones = (-1, 102),
     se_pthread = \<lparr>pt_attr_init = 0, pt_detach = 0, pt_create0 = 0, pt_create1 = 0, pt_destroy = 0\<rparr>, se_self = 99\<rparr>"

definition example_cfg :: life_cfg where
  "example_cfg = \<lparr>lc_interval = \<lparr>tv_sec = 1, tv_usec = 0\<rparr>, lc_runtime = 10, lc_cleanup_exits = False\<rparr>"

lemma example_fork: "\<exists>s0. start_threads Thread_fork example_env = Inr s0"
  by (simp add: start_threads_def do_fork_def example_env_def Let_def)

theorem lifecycle_safe_witness:
  "\<exists>s0. start_threads Thread_fork example_env = Inr s0 \<and> (pid s0 Ping = -1 \<longrightarrow> child s0 Ping = Reaped)"
proof -
  obtain s0 where s: "start_threads Thread_fork example_env = Inr s0" using example_fork by blast
  have "pid s0 Ping = -1 \<longrightarrow> child s0 Ping = Reaped"
    using lifecycle_safe [OF s _ _ _ R_init, where cfg = example_cfg and t = Ping] by (simp add: example_env_def)
  with s show ?thesis by blast
qed

text \<open>
  Here, where a handler is one step, a run with forked children ends once the stop handler waits, provided that no child
  has been waited for behind the back of the child handler; the theory \<open>Nested_Handlers\<close> shows it for handlers
  that can be interrupted, and what it takes there.
\<close>

lemma stop_terminates:
  assumes "start_threads Thread_fork e = Inr s0" "fst (se_forks e) \<noteq> snd (se_forks e)"
    and "reach cfg s0 s" "phase s = M_stopping" "\<forall>t. child s t = Reaped \<longrightarrow> pid s t = -1"
  shows "(\<exists>s'. reach cfg s s' \<and> phase s' = M_exited)
    \<and> (\<forall>s'. reach cfg s s' \<longrightarrow> phase s' = M_exited \<or> (\<exists>u. lstep cfg s' u \<and> u \<noteq> s'))
    \<and> (\<forall>f. f 0 = s \<and> (\<forall>i. phase (f i) \<noteq> M_exited \<longrightarrow> lstep cfg (f i) (f (Suc i)) \<and> f (Suc i) \<noteq> f i)
         \<longrightarrow> (\<exists>i \<le> 22. phase (f i) = M_exited))"
proof -
  note f = fork_start [OF assms(1,2)]
  have s: "run_stopping cfg s"
    using reach_ok [OF assms(3) f(1)] reach_told [OF assms(3) f(2,1)] assms(4,5) by (simp add: run_stopping_def tracked_def)
  have "\<exists>s'. reach cfg s s' \<and> phase s' = M_exited"
    using stop_reaches_exit [of cfg s] s assms(4) by (simp add: run_stopping_def tracked_def)
  moreover have "\<exists>i \<le> 22. phase (g i) = M_exited"
    if "g 0 = s" "\<forall>i. phase (g i) \<noteq> M_exited \<longrightarrow> lstep cfg (g i) (g (Suc i)) \<and> g (Suc i) \<noteq> g i" for g
    using stopping_run [of cfg g] that s effort_bound [of s] by (meson le_trans)
  ultimately show ?thesis using stopping_never_stuck stopping_reach [OF _ s] by blast
qed

lemma stop_terminates_example:
  "\<exists>s0 s'. start_threads Thread_fork example_env = Inr s0 \<and> reach example_cfg s0 s' \<and> phase s' = M_exited"
proof -
  obtain s0 where s: "start_threads Thread_fork example_env = Inr s0" using example_fork by blast
  note f = fork_start [OF s]
  have i: "child s0 t = Starting" "phase s0 = M_ready_wait" "\<not> visited s0" for t
    using fork_ok(2) [OF f(3)] s
    by (auto simp: example_env_def start_threads_def do_fork_def set_pid_def spawn_def init_threads_def Let_def)
  have st: "lstep example_cfg s0 (wake (stop_handler s0))" using i by (intro L_sigint) simp
  have h: "phase (wake (stop_handler s0)) = M_stopping" "child (wake (stop_handler s0)) = child s0"
    using i by (simp_all add: wake_def stop_handler_def stop_timer_def)
  have "\<exists>s'. reach example_cfg (wake (stop_handler s0)) s' \<and> phase s' = M_exited"
    using h i by (intro stop_terminates [OF s _ R_step [OF R_init st], THEN conjunct1]) (simp_all add: example_env_def)
  then show ?thesis using s st reach_trans R_init R_step by blast
qed

text \<open>
  C32: the statistics handler waits for the children itself, so a child that dies just before a
  timer tick can be waited for there, before the child handler runs: its process id is then never
  cleared, and the run never ends, whatever happens afterwards.
\<close>

theorem wait4_race_hangs:
  assumes "start_threads Thread_fork e = Inr s0" "fst (se_forks e) \<noteq> snd (se_forks e)"
    and "tv_sec (lc_interval cfg) \<noteq> 0" "0 < lc_runtime cfg"
  shows "\<exists>s. reach cfg s0 s \<and> child s Ping = Reaped \<and> pid s Ping \<noteq> -1
     \<and> (\<forall>s'. reach cfg s s' \<longrightarrow> phase s' \<noteq> M_exited)"
proof -
  note f = fork_start [OF assms(1,2)]
  obtain s1 where s1: "reach cfg s0 s1" "released cfg s1" using fork_released [OF f(3) assms(2)] by blast
  have "timer s1" using s1(2) assms(3) by (simp add: released_def)
  from lost_reachable [OF s1(2) this assms(4)] obtain s where s: "reach cfg s1 s" "lost Ping s" by blast
  have r: "reach cfg s0 s" using s1(1) s(1) reach_trans by blast
  then have "\<forall>s'. reach cfg s s' \<longrightarrow> phase s' \<noteq> M_exited"
    using lost_never_exits [OF _ reach_ok [OF r f(1)] s(2)] by blast
  then show ?thesis using r s(2) by (auto simp: lost_def)
qed

theorem wait4_race_hangs_witness:
  "\<exists>s0 s. start_threads Thread_fork example_env = Inr s0 \<and> reach example_cfg s0 s
     \<and> (\<forall>s'. reach example_cfg s s' \<longrightarrow> phase s' \<noteq> M_exited)"
proof -
  obtain s0 where s: "start_threads Thread_fork example_env = Inr s0" using example_fork by blast
  from wait4_race_hangs [OF s, of example_cfg] s show ?thesis
    by (auto simp: example_env_def example_cfg_def)
qed

text \<open>
  C37: the monitor tests the stop flag and then suspends itself without blocking signals in between:
  if a child dies there, the flag and the SIGCHLD are missed, the timer has been stopped, and the
  other child keeps running until it dies too or somebody interrupts the monitor.
\<close>

theorem lost_wakeup:
  assumes "start_threads Thread_fork e = Inr s0" "fst (se_forks e) \<noteq> snd (se_forks e)"
  shows "\<exists>s. reach cfg s0 s \<and> stop s \<and> phase s = M_suspended \<and> \<not> timer s \<and> child s Pong = Running
     \<and> (\<forall>s'. lstep cfg s s' \<longrightarrow> s' = wake (stop_handler s) \<or> s' = child_dies Pong s)"
proof -
  note f = fork_start [OF assms(1,2)]
  obtain s1 where s1: "reach cfg s0 s1" "released cfg s1" using fork_released [OF f(3) assms(2)] by blast
  from asleep_reachable [OF s1(2)] obtain s where s: "reach cfg s1 s" "asleep s" by blast
  have "reach cfg s0 s" using s1(1) s(1) reach_trans by blast
  moreover have "\<forall>s'. lstep cfg s s' \<longrightarrow> s' = wake (stop_handler s) \<or> s' = child_dies Pong s"
    using asleep_steps [OF s(2)] by blast
  ultimately show ?thesis using s(2) by (auto simp: asleep_def)
qed

theorem lost_wakeup_witness:
  "\<exists>s0 s. start_threads Thread_fork example_env = Inr s0 \<and> reach example_cfg s0 s
     \<and> stop s \<and> phase s = M_suspended \<and> \<not> timer s \<and> child s Pong = Running"
proof -
  obtain s0 where s: "start_threads Thread_fork example_env = Inr s0" using example_fork by blast
  from lost_wakeup [OF s, of example_cfg] s show ?thesis by (auto simp: example_env_def)
qed

text \<open>
  A failed \<^verbatim>\<open>clone\<close> is not noticed, because the process ids are tested and not the results: the
  startup succeeds, but no run from there ever releases the children or ends.
\<close>

lemma clone_failure_hangs:
  assumes "fst (se_clones e) \<le> 0" "fst (se_stacks e)" "snd (se_stacks e)" "fst (se_forks e) \<noteq> snd (se_forks e)"
  shows "\<exists>s0. start_threads Thread_thread e = Inr s0
     \<and> (\<forall>s. reach cfg s0 s \<longrightarrow> \<not> start s \<and> phase s \<noteq> M_exited)"
proof -
  obtain s0 where s0: "start_threads Thread_thread e = Inr s0" "child s0 Ping = Absent"
    using assms by (simp add: start_threads_def do_clone_def clone_one_child Let_def)
      (simp add: init_threads_def pid_def clone_one_child)
  have "life_ok cfg s0" using start_ok [OF s0(1)] assms by simp
  moreover have "uncreated Ping s0" using s0 clone_fresh [OF s0(1)] by (simp add: uncreated_def)
  ultimately show ?thesis using s0(1) uncreated_never_starts by blast
qed

lemma set_child_more: "start (set_child t x s) = start s" "timer (set_child t x s) = timer s"
  by (simp_all add: set_child_def)

declare wait_none_fields(14) [simp del]

lemma reap_child_timer: "timer (reap_child t s) \<Longrightarrow> timer s" "start (reap_child t s) = start s"
  unfolding reap_child_def Let_def by (simp_all only: mark_dead_fields set_child_more simp_thms split: if_splits)

lemma wait4_more: "start (wait4_nohang p s) = start s" "timer (wait4_nohang p s) = timer s"
  by (simp_all add: wait4_nohang_def set_child_more)

lemma monitor_interrupt_timer: "timer (monitor_interrupt now s) \<longrightarrow> timer s" "start (monitor_interrupt now s) = start s"
  by (simp_all add: monitor_interrupt_def Let_def stop_handler_def stop_timer_def wait4_more)

text \<open>The timer is set only when the children are released.\<close>

lemma lstep_timer: "lstep cfg s s' \<Longrightarrow> timer s \<longrightarrow> start s \<Longrightarrow> timer s' \<longrightarrow> start s'"
proof (induction rule: lstep.induct)
  case (L_sigchld s)
  have "timer (wake (child_handler s)) \<longrightarrow> timer s"
  proof
    assume "timer (wake (child_handler s))"
    then have "timer (wait_none (reap_child Pong (reap_child Ping s)))"
      by (simp add: wake_def child_handler_def split: if_splits)
    then show "timer s" by (rule reap_child_timer(1) [OF reap_child_timer(1) [OF wait_none_fields(14)]])
  qed
  moreover have "start (wake (child_handler s)) = start s"
    by (simp add: child_handler_def wake_def reap_child_timer)
  ultimately show ?case using L_sigchld.prems by blast
next
  case (L_tick s now)
  then show ?case
    using monitor_interrupt_timer [of now s] by (simp add: wake_def)
next
  case (L_interrupt s t)
  then show ?case by (simp add: interrupt_thread_def child_dies_def set_child_def Let_def)
next
  case (L_start s now)
  then show ?case by (simp add: monitor_start_frame)
next
  case (L_ready s t)
  then show ?case by (simp add: thread_ready_frame)
next
  case (L_dies s t)
  then show ?case by (simp add: child_dies_def set_child_more)
next
  case (L_sigint s)
  then show ?case by (simp add: wake_def stop_handler_def stop_timer_def)
next
  case (L_test s)
  then show ?case by (simp add: monitor_test_def stop_handler_def stop_timer_def)
qed (simp_all add: set_child_more stop_finish_def)

lemma reach_timer: "reach cfg s s' \<Longrightarrow> timer s \<longrightarrow> start s \<Longrightarrow> timer s' \<longrightarrow> start s'"
  by (induction rule: reach.induct) (auto dest: lstep_timer)

lemma start_timer: "start_threads tm e = Inr s0 \<Longrightarrow> \<not> timer s0"
  by (cases tm) (auto simp: start_threads_def do_fork_def do_clone_def do_pthread_def clone_one_def set_pid_def set_tid_def
      spawn_def init_threads_def bind_res_Inr_iff Let_def split: if_splits)

text \<open>What leads out of the loop that waits for the children while one of them will never be ready.\<close>

lemma stillborn_exit:
  assumes "lstep cfg s s'" "stillborn t s" "phase s = M_ready_wait" "phase s' \<noteq> M_ready_wait" "\<not> timer s"
  shows "s' = stop_handler s"
  using assms(1)
proof cases
  case L_sigint
  have "wake (stop_handler s) = stop_handler s" using assms(3) by (auto simp: wake_def stop_handler_def)
  then show ?thesis using L_sigint(1) by simp
next
  case L_sigchld
  then show ?thesis using assms(3,4) by (simp add: wake_def child_handler_fields)
next
  case (L_start now)
  then have "ready s t" by (cases t) simp_all
  then show ?thesis using assms(2) by (simp add: stillborn_def)
next
  case (L_interrupt t)
  have "phase (interrupt_thread t s) = phase s"
    by (simp add: interrupt_thread_def child_dies_def set_child_def Let_def)
  then show ?thesis using L_interrupt(1) assms(3,4) by simp
qed (use assms(3-5) in \<open>simp_all add: thread_ready_fields interrupt_thread_def child_dies_def Let_def set_child_def\<close>)

lemma early_death_reachable:
  assumes "start_threads Thread_fork e = Inr s0" "fst (se_forks e) \<noteq> snd (se_forks e)"
  shows "\<exists>s. reach cfg s0 s \<and> child s Ping = Reaped \<and> \<not> ready s Ping \<and> stop s \<and> pid s Ping = -1 \<and> phase s = M_ready_wait"
proof -
  let ?d = "child_dies Ping s0" and ?s = "wake (child_handler (child_dies Ping s0))"
  have i: "child s0 Ping = Starting" "child s0 Pong = Starting" "phase s0 = M_ready_wait" "\<not> ready s0 Ping"
    "pid s0 Ping = proc s0 Ping" "pid s0 Pong = proc s0 Pong"
    using assms(1) by (auto simp: start_threads_def do_fork_def set_pid_def spawn_def init_threads_def pid_def Let_def split: if_splits)
  have "lstep cfg s0 ?d" using i(1) by (intro L_dies) (simp add: alive_def)
  moreover have "lstep cfg ?d ?s" using i(3) by (intro L_sigchld) (simp_all add: child_dies_def set_child_def)
  ultimately have r: "reach cfg s0 ?s" by (meson R_init R_step)
  have "pid s0 t \<noteq> 0" for t using fork_ok(2) [OF fork_start(3) [OF assms] assms(2)] by simp
  then have h: "child_handler ?d = (mark_dead Ping (set_child Ping Reaped ?d))\<lparr>sigchld_pending := False\<rparr>"
    using i(1,2,5) by (intro ping_collected) (simp_all add: child_dies_def set_child_def pid_def)
  have "stop ?s" "pid ?s Ping = -1" "child ?s Ping = Reaped" "\<not> ready ?s Ping" "phase ?s = M_ready_wait"
    using i h by (simp_all add: wake_def child_dies_def set_child_def set_pid_def mark_dead_def
        stop_timer_def pid_def Let_def)
  with r show ?thesis by blast
qed

text \<open>
  C29: a child that dies before it is ready blocks the start: the loop of \<^verbatim>\<open>do_monitor_work\<close> that waits for
  the ready flags does not look at the stop flag, so from then on no child is ever released, the monitor is in
  that loop until its stop handler is entered, and the only step that leads out of the loop is the one
  that SIGINT makes: neither the death of a child nor the timer is enough. Such a death is possible with
  forked children, and is noticed: the child is reaped and the stop flag set.
\<close>

theorem early_death_blocks_start:
  assumes "start_threads tm e = Inr s0" "tm = Thread_fork \<or> tm = Thread_thread"
    and "fst (se_forks e) \<noteq> snd (se_forks e)" "fst (se_clones e) \<noteq> snd (se_clones e)"
  shows "(\<forall>s s' t. reach cfg s0 s \<and> \<not> alive (child s t) \<and> \<not> ready s t \<and> reach cfg s s' \<longrightarrow>
       \<not> start s' \<and> (visited s' \<or> phase s' = M_ready_wait)
       \<and> (\<forall>s2. phase s' = M_ready_wait \<and> lstep cfg s' s2 \<and> phase s2 \<noteq> M_ready_wait \<longrightarrow> s2 = stop_handler s'))
    \<and> (tm = Thread_fork \<longrightarrow> (\<exists>s. reach cfg s0 s \<and> child s Ping = Reaped \<and> \<not> ready s Ping \<and> stop s \<and> phase s = M_ready_wait))"
proof -
  have "\<not> start s' \<and> (visited s' \<or> phase s' = M_ready_wait)
      \<and> (\<forall>s2. phase s' = M_ready_wait \<and> lstep cfg s' s2 \<and> phase s2 \<noteq> M_ready_wait \<longrightarrow> s2 = stop_handler s')"
    if s: "reach cfg s0 s" "\<not> alive (child s t)" "\<not> ready s t" "reach cfg s s'" for s s' t
  proof -
    have st: "stillborn t s" using s(2,3) by (simp add: stillborn_def)
    have "life_ok cfg s" using reach_ok [OF s(1) start_ok [OF assms(1-3)]] assms(4) by blast
    note n = stillborn_never_starts [OF s(4) this st]
    have "stillborn t s'" using s(4) st by (induction rule: reach.induct) (auto dest: lstep_stillborn)
    moreover have "\<not> timer s'"
      using reach_timer [OF reach_trans [OF s(4,1)]] start_timer [OF assms(1)] n by blast
    ultimately show ?thesis using n stillborn_exit by blast
  qed
  then show ?thesis using early_death_reachable [of e s0 cfg] assms(1,3) by blast
qed

theorem early_death_blocks_start_witness:
  "\<exists>s0 s. start_threads Thread_fork example_env = Inr s0 \<and> reach example_cfg s0 s
     \<and> stop s \<and> child s Ping = Reaped \<and> phase s = M_ready_wait
     \<and> (\<forall>s'. reach example_cfg s s' \<longrightarrow> \<not> start s')"
proof -
  obtain s0 where s0: "start_threads Thread_fork example_env = Inr s0" using example_fork by blast
  have e: "fst (se_forks example_env) \<noteq> snd (se_forks example_env)" "fst (se_clones example_env) \<noteq> snd (se_clones example_env)"
    by (simp_all add: example_env_def)
  note b = early_death_blocks_start [OF s0 _ e, of example_cfg]
  obtain s where s: "reach example_cfg s0 s" "child s Ping = Reaped" "\<not> ready s Ping" "stop s" "phase s = M_ready_wait"
    using b by blast
  then have "\<forall>s'. reach example_cfg s s' \<longrightarrow> \<not> start s'" using b by (metis alive_simps(5))
  with s0 s show ?thesis by blast
qed

lemma unrecorded_step:
  assumes "child s Ping = Zombie" "child s Pong = Starting" "pid s Ping = proc s Ping" "pid s Pong = 0"
  shows "child_handler s = (mark_dead Pong (mark_dead Ping (set_child Ping Reaped s)))\<lparr>sigchld_pending := False\<rparr>"
proof -
  have 1: "reap_child Ping s = mark_dead Ping (set_child Ping Reaped s)"
    using assms(1,3) by (simp add: reap_child_def Let_def)
  have 2: "reap_child Pong (reap_child Ping s) = reap_child Ping s"
    by (subst reap_child_def) (simp add: reap_child_child assms(2))
  show ?thesis using assms(2,4) by (simp add: child_handler_def 2) (simp add: wait_none_def 1)
qed

lemma child_dies_frame:
  "child (child_dies t s) = (child s)(t := Zombie)" "proc (child_dies t s) = proc s" "pid (child_dies t s) = pid s"
  "phase (child_dies t s) = phase s" "ready (child_dies t s) = ready s" "sigchld_pending (child_dies t s)"
  "interrupt_pending (child_dies t s) = interrupt_pending s" "visited (child_dies t s) = visited s"
  by (simp_all add: child_dies_def set_child_def pid_def fun_eq_iff)

definition left_behind :: "life \<Rightarrow> bool" where
  "left_behind s \<longleftrightarrow> phase s = M_test \<and> start s \<and> stop s \<and> \<not> visited s \<and> child s Pong = Running
     \<and> (\<forall>t. pid s t = -1) \<and> \<not> interrupt_pending s Pong"

lemma left_behind_reachable:
  assumes "start_threads Thread_thread e = Inr s0" "0 < fst (se_clones e)" "0 < snd (se_clones e)"
  shows "\<exists>s. reach cfg s0 s \<and> left_behind s"
proof -
  note f = clone_fresh [OF assms(1)]
  have i: "child s0 Ping = Starting" "child s0 Pong = Starting" "\<not> interrupt_pending s0 Pong"
    using assms by (simp_all add: f) (auto simp: start_threads_def do_clone_def clone_one_def set_tid_def spawn_def
        init_threads_def Let_def split: if_splits)
  let ?a = "thread_ready Ping s0"
  let ?b = "child_dies Ping ?a"
  let ?c = "wake (child_handler ?b)"
  let ?d = "thread_ready Pong ?c"
  let ?e = "monitor_start cfg 0 ?d"
  have 1: "lstep cfg s0 ?a" using i(1) by (rule L_ready)
  have 2: "lstep cfg ?a ?b" by (rule L_dies) (simp add: thread_ready_frame)
  have b: "child ?b Ping = Zombie" "child ?b Pong = Starting" "pid ?b Ping = proc ?b Ping" "pid ?b Pong = 0"
    "phase ?b = M_ready_wait" "sigchld_pending ?b" "ready ?b Ping" "interrupt_pending ?b Pong = interrupt_pending s0 Pong"
    "\<not> visited ?b"
    using i f(1) [of Ping] f(1) [of Pong] f(3,4) by (simp_all add: child_dies_frame thread_ready_frame)
  have 3: "lstep cfg ?b ?c" using b by (intro L_sigchld) simp_all
  have c: "child ?c Pong = Starting" "pid ?c t = -1" "phase ?c = M_ready_wait" "ready ?c Ping" "stop ?c"
    "\<not> visited ?c" "\<not> interrupt_pending ?c Pong" for t
    using b i(3) unfolding unrecorded_step [OF b(1-4)] wake_def
    by (cases t; simp add: pid_def mark_dead_def stop_timer_def set_pid_def set_child_def)+
  have 4: "lstep cfg ?c ?d" using c(1) by (rule L_ready)
  have 5: "lstep cfg ?d ?e" using c by (intro L_start) (simp_all add: thread_ready_frame)
  have 6: "lstep cfg ?e (set_child Pong Running ?e)"
    by (intro L_go) (simp_all add: monitor_start_frame thread_ready_frame)
  have "left_behind (set_child Pong Running ?e)"
    using c by (simp add: left_behind_def monitor_start_frame thread_ready_frame set_child_more)
  moreover have "reach cfg s0 (set_child Pong Running ?e)" using 1 2 3 4 5 6 by (meson R_init R_step)
  ultimately show ?thesis by blast
qed

lemma left_behind_exits:
  assumes "left_behind s"
  shows "\<exists>s'. reach cfg s s' \<and> phase s' = M_exited \<and> child s' Pong = Running \<and> \<not> interrupt_pending s' Pong
     \<and> final_stats s' = (\<not> lc_cleanup_exits cfg)"
proof -
  let ?a = "monitor_test s"
  let ?b = "stop_finish (lc_cleanup_exits cfg) ?a"
  have s: "phase s = M_test" "stop s" "\<not> visited s" "child s Pong = Running" "\<forall>t. pid s t = -1"
    "\<not> interrupt_pending s Pong"
    using assms by (simp_all add: left_behind_def)
  have a: "?a = (s\<lparr>visited := True, timer := False, stop := True\<rparr>)\<lparr>phase := M_stopping\<rparr>"
    using s(2,3,5) by (simp add: monitor_test_def stop_handler_def stop_threads_def stop_timer_def send_sig_def pid_def Let_def)
  have 1: "lstep cfg s ?a" using s(1) by (rule L_test)
  have 2: "lstep cfg ?a ?b" using s(5) by (intro L_finish) (simp_all add: a pid_def)
  have "reach cfg s ?b" using 1 2 by (meson R_init R_step)
  then show ?thesis using s(4,6) by (intro exI [of _ ?b]) (simp add: stop_finish_def a)
qed

text \<open>
  C7: with cloned children the monitor can leave a child behind. They record their process ids
  themselves, late, and until then the ids are 0, which is also what \<^verbatim>\<open>waitpid\<close> returns when no further
  child is dead: when one child dies before the other has recorded its id, the other, alive and
  well, is taken for dead. The start barrier is still passed, the run is then stopped at once
  without an interrupt for that child, and the monitor shows its final statistics and exits while
  the child is at work: it is left to the SIGINT it asked for on the death of its parent, which
  ends it without its cleanup.
\<close>

theorem clone_left_behind:
  assumes "start_threads Thread_thread e = Inr s0" "0 < fst (se_clones e)" "0 < snd (se_clones e)"
  shows "\<exists>s. reach cfg s0 s \<and> phase s = M_exited \<and> child s Pong = Running \<and> \<not> interrupt_pending s Pong
     \<and> final_stats s = (\<not> lc_cleanup_exits cfg)"
proof -
  obtain s1 where s1: "reach cfg s0 s1" "left_behind s1" using left_behind_reachable [OF assms] by blast
  then show ?thesis using left_behind_exits [OF s1(2), of cfg] reach_trans [OF _ s1(1)] by blast
qed

theorem clone_left_behind_witness:
  "\<exists>s0 s. start_threads Thread_thread (example_env\<lparr>se_clones := (100, 101)\<rparr>) = Inr s0 \<and> reach example_cfg s0 s
     \<and> phase s = M_exited \<and> child s Pong = Running"
proof -
  have "\<exists>s0. start_threads Thread_thread (example_env\<lparr>se_clones := (100, 101)\<rparr>) = Inr s0"
    by (simp add: start_threads_def do_clone_def example_env_def Let_def) (simp add: init_threads_def pid_def)
  then obtain s0 where s0: "start_threads Thread_thread (example_env\<lparr>se_clones := (100, 101)\<rparr>) = Inr s0" by blast
  from clone_left_behind [OF s0, of example_cfg] s0 show ?thesis by fastforce
qed

text \<open>
  The run time is enforced by the statistics timer: at a tick the monitor goes into the stop
  handler exactly if the run time is over by then. With run time 0, announced as running
  indefinitely, that is the first tick; and without an update interval there is no tick at all.
\<close>

lemma runtime_enforced_by_ticks:
  assumes "\<not> in_interrupt s" "\<not> visited s" "\<not> stop s" "\<forall>t. child s t \<noteq> Zombie"
  shows "phase (monitor_interrupt now (monitor_start cfg t0 s)) =
       (if t0 + of_int (lc_runtime cfg) \<le> now then M_stopping else M_test)
     \<and> (tv_sec (lc_interval cfg) = 0 \<and> tv_usec (lc_interval cfg) = 0 \<and> \<not> timer s
          \<longrightarrow> \<not> timer (monitor_start cfg t0 s))"
  using assms by (simp add: monitor_interrupt_def monitor_start_def setup_monitor_timer_def wait4_nohang_def
      stop_handler_def stop_timer_def Let_def)

text \<open>The later theories unfold these operations; the rules would get in their way.\<close>

declare set_child_fields [simp del] mark_dead_fields [simp del] wait_none_fields [simp del]

end
