(* ===== verification/Signals.thy ===== *)
theory Signals
  imports Setup Threads
begin

text \<open>
  What each process does on a signal: the handlers that \<^verbatim>\<open>signals.c\<close>, \<^verbatim>\<open>threads_monitor.c\<close>,
  \<^verbatim>\<open>threads_children.c\<close> and \<^verbatim>\<open>comms/signal.c\<close> install, the signals the monitor lets through while it is
  suspended, and the crash handler. Forked and cloned children (\<^verbatim>\<open>CLONE_SIGHAND\<close> is not set) have their own
  dispositions and are started before the monitor installs its handlers.
\<close>

section \<open>Dispositions\<close>

datatype handler =
    SIG_DFL
  | SIG_IGN
  | H_child_handler
  | H_stop_handler
  | H_monitor_interrupt
  | H_print_backtrace2
  | H_interrupt_thread
  | H_signal_catcher
  | H_sig_handler_pipe

type_synonym dispositions = "int \<Rightarrow> handler"

definition SIGINT :: int where "SIGINT = 2"
definition SIGILL :: int where "SIGILL = 4"
definition SIGPIPE :: int where "SIGPIPE = 13"
definition SIGALRM :: int where "SIGALRM = 14"
definition SIGCHLD :: int where "SIGCHLD = 17"
definition SIGRTMAX :: int where "SIGRTMAX = 64"

definition CHILD_INTERRUPT_SIGNAL :: "tid \<Rightarrow> int" where
  "CHILD_INTERRUPT_SIGNAL t = (case t of Ping \<Rightarrow> SIGRTMAX - 4 | Pong \<Rightarrow> SIGRTMAX - 3)"

lemmas signal_numbers = SIGINT_def SIGILL_def SIGALRM_def SIGCHLD_def SIGRTMAX_def CHILD_INTERRUPT_SIGNAL_def

text \<open>What happens to a process that gets a signal; of those sent here only SIGCHLD does nothing by default.\<close>

datatype reaction = Terminates | Nothing | Runs handler

definition react :: "dispositions \<Rightarrow> int \<Rightarrow> reaction" where
  "react d sig =
     (case d sig of
        SIG_DFL \<Rightarrow> if sig = SIGCHLD then Nothing else Terminates
      | SIG_IGN \<Rightarrow> Nothing
      | h \<Rightarrow> Runs h)"

section \<open>The handlers of the monitor\<close>

definition setup_child_signals :: "dispositions \<Rightarrow> dispositions" where
  "setup_child_signals d = d(SIGCHLD := H_child_handler)"

definition setup_crash_handler :: "dispositions \<Rightarrow> dispositions" where
  "setup_crash_handler d = d(SIGILL := H_print_backtrace2)"

text \<open>\<^verbatim>\<open>main\<close> installs the crash handler first, so the children inherit it.\<close>

definition main_dispositions :: dispositions where
  "main_dispositions = setup_crash_handler (\<lambda>_. SIG_DFL)"

text \<open>\<^verbatim>\<open>setup_stop_handler\<close> also clears the stop flag.\<close>

definition setup_stop_handler :: "dispositions \<times> life \<Rightarrow> dispositions \<times> life" where
  "setup_stop_handler x = (case x of (d, s) \<Rightarrow> (d(SIGINT := H_stop_handler), s\<lparr>stop := False\<rparr>))"

text \<open>The timer: the handler first, then \<^verbatim>\<open>setitimer\<close>; \<open>fails\<close> tells which of the two calls fails.\<close>

definition setup_timer_signal :: "bool \<times> bool \<Rightarrow> life_cfg \<Rightarrow> dispositions \<times> life \<Rightarrow> (dispositions \<times> life) res" where
  "setup_timer_signal fails cfg x =
     (case x of (d, s) \<Rightarrow>
        if tv_sec (lc_interval cfg) = 0 \<and> tv_usec (lc_interval cfg) = 0 then Inr (d, s)
        else if fst fails
        then Inl (Exit_fail ''Error occured in monitor thread attempting to set up periodic timer: %s'')
        else if snd fails
        then Inl (Exit_fail ''Error occurred in monitor thread attempting to set periodic timer: %s'')
        else Inr (d(SIGALRM := H_monitor_interrupt), setup_monitor_timer cfg s))"

definition stop_timer_signal :: "dispositions \<times> life \<Rightarrow> dispositions \<times> life" where
  "stop_timer_signal x = (case x of (d, s) \<Rightarrow> (d(SIGALRM := SIG_IGN), stop_timer s))"

text \<open>The beginning of \<^verbatim>\<open>do_monitor_work\<close>, and the mask with which it suspends itself.\<close>

definition monitor_handlers :: "dispositions \<times> life \<Rightarrow> dispositions \<times> life" where
  "monitor_handlers x = (case x of (d, s) \<Rightarrow> setup_stop_handler (setup_crash_handler (setup_child_signals d), s))"

definition signal_mask :: "int \<Rightarrow> bool" where
  "signal_mask sig \<longleftrightarrow> sig \<noteq> SIGCHLD \<and> sig \<noteq> SIGALRM \<and> sig \<noteq> SIGINT"

section \<open>The handlers of a child\<close>

definition setup_interrupt_signal :: "tid \<Rightarrow> dispositions \<Rightarrow> dispositions" where
  "setup_interrupt_signal t d = d(CHILD_INTERRUPT_SIGNAL t := H_interrupt_thread)"

definition do_pre_signal :: "sig_state \<Rightarrow> tid \<Rightarrow> dispositions \<Rightarrow> dispositions" where
  "do_pre_signal s t d = d(sigs s (case t of Ping \<Rightarrow> 0 | Pong \<Rightarrow> 1) := H_signal_catcher)"

text \<open>What a child does before its \<^verbatim>\<open>comm_pre\<close>.\<close>

definition child_handlers :: "tid \<Rightarrow> dispositions \<Rightarrow> dispositions" where
  "child_handlers t d = setup_crash_handler (setup_interrupt_signal t d)"

section \<open>The crash handler\<close>

text \<open>
  \<^verbatim>\<open>print_backtrace2\<close>, by what \<^verbatim>\<open>fork\<close> returns: the processes that go on from there, each with the
  program it runs (the shell with a command in a buffer of 1024 bytes, as long as \<^verbatim>\<open>execve\<close> succeeds) and
  its exit status.
\<close>

datatype crash_end = Shell string | Exits int

definition backtrace_cmd :: "int \<Rightarrow> string" where
  "backtrace_cmd dying_pid =
     ''gdb -p '' @ dec_int dying_pid @ '' -batch -ex thread apply all bt 2>/dev/null | sed '0,/<signal handler/d'' @ [CHR 0x27]"

definition print_backtrace2 :: "int \<Rightarrow> bool \<Rightarrow> int \<Rightarrow> crash_end" where
  "print_backtrace2 fork_result execve_ok dying_pid =
     (if fork_result < 0 then Exits 1
      else if fork_result = 0
      then (if execve_ok then Shell (take 1023 (backtrace_cmd dying_pid)) else Exits 1)
      else Exits 1)"

text \<open>The command always fits its buffer, and every process ends.\<close>

lemma print_backtrace2_ends:
  assumes "0 < p" "p < 2 ^ 31"
  shows "length (backtrace_cmd p) < 1024"
    and "print_backtrace2 r ok p = (if r = 0 \<and> ok then Shell (backtrace_cmd p) else Exits 1)"
proof -
  have "length (dec_int p) \<le> 10" using assms dec_nat_length [of "nat p" 9] by (simp add: dec_int_def)
  then show "length (backtrace_cmd p) < 1024" by (simp add: backtrace_cmd_def)
  then show "print_backtrace2 r ok p = (if r = 0 \<and> ok then Shell (backtrace_cmd p) else Exits 1)"
    by (simp add: print_backtrace2_def)
qed

section \<open>Properties\<close>

text \<open>
  C24: every signal that can arrive has its handler. When the monitor has set up, the death of a child,
  SIGINT and a tick of the timer it has started run the handlers meant for them; none of the signals that
  its mask lets through kills it, also after the timer was stopped (without a timer nothing sends
  SIGALRM, which would); and the stop flag is clear, even if a child has died by then. A child of
  the signal mode has a handler for the interrupt signal that the monitor sends to it and another
  for the signal that the other child sends to it, and SIGINT, which it gets when the monitor dies, ends it.
\<close>

theorem handlers_installed:
  assumes "setup_timer_signal fails cfg (monitor_handlers (main_dispositions, s)) = Inr (d, s')" "\<not> timer s"
    and "make_pairs (make_signal_pair SIGRTMAX) sg = Inr (w, sg')" "sig_num sg = 0"
  shows "react d SIGCHLD = Runs H_child_handler \<and> react d SIGINT = Runs H_stop_handler
    \<and> (timer s' \<longrightarrow> react d SIGALRM = Runs H_monitor_interrupt)
    \<and> (\<forall>sig. \<not> signal_mask sig \<longrightarrow> react (fst (stop_timer_signal (d, s'))) sig \<noteq> Terminates
         \<and> (sig = SIGALRM \<and> \<not> timer s' \<or> react d sig \<noteq> Terminates))
    \<and> \<not> stop s'
    \<and> react (do_pre_signal sg' t (child_handlers t main_dispositions)) (CHILD_INTERRUPT_SIGNAL t)
        = Runs H_interrupt_thread
    \<and> react (do_pre_signal sg' t (child_handlers t main_dispositions)) (sigs sg' (case t of Ping \<Rightarrow> 0 | Pong \<Rightarrow> 1))
        = Runs H_signal_catcher
    \<and> react (do_pre_signal sg' t (child_handlers t main_dispositions)) SIGINT = Terminates"
proof -
  have "sigs sg' 0 = 63" "sigs sg' (Suc 0) = 62"
    using assms(3,4) by (auto simp: make_pairs_def make_signal_pair_def SIGRTMAX_def Let_def)
  then have c: "do_pre_signal sg' t (child_handlers t main_dispositions) =
      main_dispositions(CHILD_INTERRUPT_SIGNAL t := H_interrupt_thread, 4 := H_print_backtrace2,
        sigs sg' (case t of Ping \<Rightarrow> 0 | Pong \<Rightarrow> 1) := H_signal_catcher)"
    and n: "CHILD_INTERRUPT_SIGNAL t \<in> {60, 61}" "sigs sg' (case t of Ping \<Rightarrow> 0 | Pong \<Rightarrow> 1) \<in> {62, 63}"
    by (cases t; simp add: do_pre_signal_def child_handlers_def setup_crash_handler_def
        setup_interrupt_signal_def signal_numbers)+
  have d: "d = (if timer s' then main_dispositions(17 := H_child_handler, 4 := H_print_backtrace2, 2 := H_stop_handler,
        14 := H_monitor_interrupt)
      else main_dispositions(17 := H_child_handler, 4 := H_print_backtrace2, 2 := H_stop_handler))" "\<not> stop s'"
    using assms(1,2) by (auto simp: setup_timer_signal_def monitor_handlers_def setup_stop_handler_def
        setup_crash_handler_def setup_child_signals_def setup_monitor_timer_def signal_numbers split: if_splits)
  have child: "react (do_pre_signal sg' t (child_handlers t main_dispositions)) (CHILD_INTERRUPT_SIGNAL t)
        = Runs H_interrupt_thread"
    "react (do_pre_signal sg' t (child_handlers t main_dispositions)) (sigs sg' (case t of Ping \<Rightarrow> 0 | Pong \<Rightarrow> 1))
        = Runs H_signal_catcher"
    "react (do_pre_signal sg' t (child_handlers t main_dispositions)) SIGINT = Terminates"
    using n unfolding c by (auto simp: react_def main_dispositions_def setup_crash_handler_def SIGILL_def SIGINT_def SIGCHLD_def)
  have mask: "sig \<in> {17, 14, 2}" if "\<not> signal_mask sig" for sig
    using that by (auto simp: signal_mask_def signal_numbers)
  have stopped: "react (fst (stop_timer_signal (d, s'))) sig \<noteq> Terminates \<and> (sig = SIGALRM \<and> \<not> timer s' \<or> react d sig \<noteq> Terminates)"
    if "\<not> signal_mask sig" for sig
    using mask [OF that] unfolding d(1) by (auto simp: react_def stop_timer_signal_def main_dispositions_def setup_crash_handler_def SIGILL_def signal_numbers)
  have "react d SIGCHLD = Runs H_child_handler" "react d SIGINT = Runs H_stop_handler"
    "timer s' \<Longrightarrow> react d SIGALRM = Runs H_monitor_interrupt"
    unfolding d(1) by (simp_all add: react_def signal_numbers)
  with child stopped d(2) show ?thesis by blast
qed

theorem handlers_installed_witness:
  "\<exists>d s'. setup_timer_signal (False, False) example_cfg (monitor_handlers (main_dispositions, init_threads)) = Inr (d, s')
     \<and> react d SIGALRM = Runs H_monitor_interrupt"
proof -
  obtain d s' where m: "setup_timer_signal (False, False) example_cfg (monitor_handlers (main_dispositions, init_threads)) = Inr (d, s')"
    "timer s'"
    by (simp add: setup_timer_signal_def monitor_handlers_def setup_stop_handler_def setup_monitor_timer_def example_cfg_def)
  obtain w sg' where p: "make_pairs (make_signal_pair SIGRTMAX)
      \<lparr>sig_num = 0, sigs = (\<lambda>_. 0), signal_received = (\<lambda>_. 0), pending = (\<lambda>_ _. False)\<rparr> = Inr (w, sg')"
    by (simp add: make_pairs_def make_signal_pair_def Let_def)
  from handlers_installed [OF m(1) _ p, of Ping] m show ?thesis by (simp add: init_threads_def)
qed

end
