(* ===== verification/Stats.thy ===== *)
theory Stats
  imports Units Pingpong
begin

text \<open>
  The statistics: \<^verbatim>\<open>stats_periodic.c\<close> (gathering, header, rows, what is kept for the next interval)
  and \<^verbatim>\<open>stats_final.c\<close> (the summary and the comparison of the two scheduler reports). The clock, the
  counter and what \<^verbatim>\<open>wait4\<close> returns are arguments; the rows are records of what is printed (their texts
  are in the theory \<open>Reports\<close>).
\<close>

section \<open>Data\<close>

record rusage =
  ru_nvcsw :: int
  ru_nivcsw :: int
  ru_utime :: timeval
  ru_stime :: timeval

record stats_data =
  sd_ping_count :: "64 word"
  sd_last_ping_count :: "64 word"
  sd_stop :: bool
  sd_start_time :: rat
  sd_last_stats_time :: rat
  sd_headers_count :: int
  sd_rusage :: "tid \<Rightarrow> rusage"
  sd_last_rusage :: "tid \<Rightarrow> rusage"

record interval_stats =
  is_current_count :: "64 word"
  is_interval_count :: "64 word"
  is_current_time :: rat
  is_interval_time :: rat
  is_run_time :: rat
  is_rusage :: "tid \<Rightarrow> rusage"
  is_csw :: "tid \<Rightarrow> int"
  is_iteration_time :: long_double

text \<open>Division of \<open>long double\<close> values, with the infinities and the NaN of a zero divisor.\<close>

definition ld_div :: "rat \<Rightarrow> rat \<Rightarrow> long_double" where
  "ld_div a b = (if b \<noteq> 0 then Fin (a / b) else if a = 0 then NaN else Infinite (a < 0))"

definition of_count :: "64 word \<Rightarrow> rat" where
  "of_count c = of_int (uint c)"

section \<open>Periodic statistics\<close>

text \<open>
  \<^verbatim>\<open>gather_periodic_stats\<close>: \<open>reaped t\<close> is the usage \<^verbatim>\<open>wait4\<close> stores, which it does only for a child
  that is dead.
\<close>

definition store_wait4 :: "(tid \<Rightarrow> rusage option) \<Rightarrow> stats_data \<Rightarrow> stats_data" where
  "store_wait4 reaped d =
     d\<lparr>sd_rusage := (\<lambda>t. case reaped t of None \<Rightarrow> sd_rusage d t | Some r \<Rightarrow> r)\<rparr>"

definition rusage_diff :: "rusage \<Rightarrow> rusage \<Rightarrow> rusage" where
  "rusage_diff old cur =
     \<lparr>ru_nvcsw = ru_nvcsw cur - ru_nvcsw old, ru_nivcsw = ru_nivcsw cur - ru_nivcsw old,
      ru_utime = elapsed_time_timeval (ru_utime old) (ru_utime cur),
      ru_stime = elapsed_time_timeval (ru_stime old) (ru_stime cur)\<rparr>"

definition gather_periodic_stats ::
    "rat \<Rightarrow> (tid \<Rightarrow> rusage option) \<Rightarrow> stats_data \<Rightarrow> interval_stats \<times> stats_data" where
  "gather_periodic_stats now reaped d =
     (let d1 = store_wait4 reaped d;
          cnt = sd_ping_count d - sd_last_ping_count d;
          tm = now - sd_last_stats_time d;
          ru = (\<lambda>t. rusage_diff (sd_last_rusage d1 t) (sd_rusage d1 t))
      in (\<lparr>is_current_count = sd_ping_count d, is_interval_count = cnt, is_current_time = now,
           is_interval_time = tm, is_run_time = now - sd_start_time d, is_rusage = ru,
           is_csw = (\<lambda>t. ru_nvcsw (ru t) + ru_nivcsw (ru t)),
           is_iteration_time = ld_div tm (of_count cnt)\<rparr>, d1))"

text \<open>\<^verbatim>\<open>store_last_stats\<close>: the byte copies of the usage records, the count and the time.\<close>

definition store_last_stats :: "interval_stats \<Rightarrow> stats_data \<Rightarrow> stats_data" where
  "store_last_stats i d =
     d\<lparr>sd_last_rusage := sd_rusage d, sd_last_ping_count := is_current_count i,
       sd_last_stats_time := is_current_time i\<rparr>"

text \<open>
  The share of the cpu as the code computes it: the interval divides only the microseconds.
\<close>

definition cpu_share :: "timeval \<Rightarrow> rat \<Rightarrow> rat" where
  "cpu_share tv interval = of_int (tv_sec tv) * 100 + of_int (tv_usec tv) / 10 ^ 4 / interval"

record stats_row =
  row_time :: string
  row_rate :: int
  row_cycle :: string
  row_csw :: "tid \<Rightarrow> int \<times> int"
  row_user :: "tid \<Rightarrow> integer_fixed_point"
  row_sys :: "tid \<Rightarrow> integer_fixed_point"

definition cpu_columns :: "(rat \<Rightarrow> rat) \<Rightarrow> interval_stats \<Rightarrow> tid \<Rightarrow> int
    \<Rightarrow> (integer_fixed_point \<times> integer_fixed_point) res" where
  "cpu_columns rnd i t sys_prec =
     (if is_interval_time i = 0 then Inl Unspecified
      else bind_res (f_to_fp rnd 1 (cpu_share (ru_utime (is_rusage i t)) (is_interval_time i))) (\<lambda>u.
           bind_res (f_to_fp rnd sys_prec (cpu_share (ru_stime (is_rusage i t)) (is_interval_time i))) (\<lambda>s.
             Inr (u, s))))"

text \<open>\<^verbatim>\<open>show_periodic_stats_data\<close>; the system column of the second thread has two decimals.\<close>

definition show_periodic_stats_data :: "(rat \<Rightarrow> rat) \<Rightarrow> interval_stats \<Rightarrow> stats_row res" where
  "show_periodic_stats_data rnd i =
     bind_res (subsec_string rnd (Fin (is_run_time i)) 1) (\<lambda>tm.
     bind_res (subsec_string rnd (is_iteration_time i) 2) (\<lambda>cyc.
     bind_res (if is_interval_time i = 0 then Inl Unspecified
               else (let q = ld_trunc (rnd (of_count (is_interval_count i) / is_interval_time i))
                     in if q < 0 \<or> 2 ^ 64 \<le> q then Inl Unspecified else Inr q)) (\<lambda>rate.
     bind_res (cpu_columns rnd i Ping 1) (\<lambda>(u0, s0).
     bind_res (cpu_columns rnd i Pong 2) (\<lambda>(u1, s1).
       Inr \<lparr>row_time = tm, row_rate = rate, row_cycle = cyc,
            row_csw = (\<lambda>t. (ru_nvcsw (is_rusage i t), ru_nivcsw (is_rusage i t))),
            row_user = (\<lambda>t. if t = Ping then u0 else u1), row_sys = (\<lambda>t. if t = Ping then s0 else s1)\<rparr>)))))"

text \<open>
  \<^verbatim>\<open>show_periodic_stats\<close>: whether the header is shown, the interval, its row, and the new state; \<open>None\<close>
  when the stop flag is set and nothing is shown or stored. (\<^verbatim>\<open>rusage_req_in_progress\<close> is never set.)
\<close>

type_synonym shown = "bool \<times> interval_stats \<times> stats_row"

definition show_periodic_stats :: "(rat \<Rightarrow> rat) \<Rightarrow> int \<Rightarrow> rat \<Rightarrow> (tid \<Rightarrow> rusage option) \<Rightarrow> stats_data
    \<Rightarrow> (shown option \<times> stats_data) res" where
  "show_periodic_stats rnd headers_frequency now reaped d =
     (let (i, d1) = gather_periodic_stats now reaped d
      in if sd_stop d1 then Inr (None, d1)
         else if headers_frequency = 0 then Inl Division_by_zero
         else (let hdr = (c_mod (sd_headers_count d1) headers_frequency = 0);
                   d2 = d1\<lparr>sd_headers_count := sd_headers_count d1 + 1\<rparr>
               in bind_res (show_periodic_stats_data rnd i) (\<lambda>row.
                    Inr (Some (hdr, i, row), store_last_stats i d2))))"

text \<open>
  A run of ticks: between them the counter has reached some value; each tick is the counter, the
  time and what \<^verbatim>\<open>wait4\<close> reports.
\<close>

type_synonym stats_tick = "64 word \<times> rat \<times> (tid \<Rightarrow> rusage option)"

fun stats_run :: "(rat \<Rightarrow> rat) \<Rightarrow> int \<Rightarrow> stats_tick list \<Rightarrow> stats_data \<Rightarrow> (shown list \<times> stats_data) res" where
  "stats_run rnd freq [] d = Inr ([], d)"
| "stats_run rnd freq ((cnt, now, reaped) # ts) d =
     bind_res (show_periodic_stats rnd freq now reaped (d\<lparr>sd_ping_count := cnt\<rparr>)) (\<lambda>(out, d1).
       bind_res (stats_run rnd freq ts d1) (\<lambda>(rows, d2).
         Inr ((case out of None \<Rightarrow> rows | Some r \<Rightarrow> r # rows), d2)))"

section \<open>Lemmas on the periodic statistics\<close>

lemma show_running:
  assumes "\<not> sd_stop d" "freq \<noteq> 0"
  shows "show_periodic_stats rnd freq now reaped d =
    bind_res (show_periodic_stats_data rnd (fst (gather_periodic_stats now reaped d))) (\<lambda>row.
    Inr (Some (c_mod (sd_headers_count d) freq = 0, fst (gather_periodic_stats now reaped d), row),
         store_last_stats (fst (gather_periodic_stats now reaped d))
           ((store_wait4 reaped d)\<lparr>sd_headers_count := sd_headers_count d + 1\<rparr>)))"
  using assms by (simp add: show_periodic_stats_def gather_periodic_stats_def store_wait4_def Let_def)

lemma stats_run_Cons:
  assumes "\<not> sd_stop d" "freq \<noteq> 0" "stats_run rnd freq ((cnt, now, reaped) # ts) d = Inr (rows, d')"
  defines "e \<equiv> d\<lparr>sd_ping_count := cnt\<rparr>"
  defines "i \<equiv> fst (gather_periodic_stats now reaped e)"
  defines "d1 \<equiv> store_last_stats i ((store_wait4 reaped e)\<lparr>sd_headers_count := sd_headers_count d + 1\<rparr>)"
  shows "\<exists>rs row. stats_run rnd freq ts d1 = Inr (rs, d') \<and> rows = (c_mod (sd_headers_count d) freq = 0, i, row) # rs
      \<and> show_periodic_stats_data rnd i = Inr row
      \<and> \<not> sd_stop d1 \<and> sd_headers_count d1 = sd_headers_count d + 1 \<and> sd_last_ping_count d1 = cnt
      \<and> sd_last_stats_time d1 = now \<and> sd_start_time d1 = sd_start_time d
      \<and> is_interval_count i = cnt - sd_last_ping_count d \<and> is_interval_time i = now - sd_last_stats_time d"
  using assms(3) show_running [of e freq rnd now reaped] assms(1,2)
  by (auto simp: e_def i_def d1_def bind_res_Inr_iff store_last_stats_def store_wait4_def
      gather_periodic_stats_def Let_def)

text \<open>Every count of the shared counter falls into exactly one interval, and so does all the time.\<close>

lemma stats_run_sums:
  assumes "\<not> sd_stop d" "freq \<noteq> 0" "stats_run rnd freq ts d = Inr (rows, d')"
  shows "length rows = length ts
    \<and> sum_list (map (\<lambda>r. is_interval_count (fst (snd r))) rows) = sd_last_ping_count d' - sd_last_ping_count d
    \<and> sum_list (map (\<lambda>r. is_interval_time (fst (snd r))) rows) = sd_last_stats_time d' - sd_last_stats_time d
    \<and> (ts \<noteq> [] \<longrightarrow> sd_last_ping_count d' = fst (last ts) \<and> sd_last_stats_time d' = fst (snd (last ts)))"
  using assms
proof (induction ts arbitrary: d rows)
  case Nil
  then show ?case by simp
next
  case (Cons t ts)
  obtain cnt now reaped where t: "t = (cnt, now, reaped)" by (cases t)
  from stats_run_Cons [OF Cons.prems(1,2) Cons.prems(3) [unfolded t]]
  obtain d1 i rs row where r: "stats_run rnd freq ts d1 = Inr (rs, d')" "rows = (c_mod (sd_headers_count d) freq = 0, i, row) # rs"
    "\<not> sd_stop d1" "sd_last_ping_count d1 = cnt" "sd_last_stats_time d1 = now"
    "is_interval_count i = cnt - sd_last_ping_count d" "is_interval_time i = now - sd_last_stats_time d"
    by auto
  from Cons.IH [OF r(3) Cons.prems(2) r(1)] have IH: "length rs = length ts"
    "sum_list (map (\<lambda>r. is_interval_count (fst (snd r))) rs) = sd_last_ping_count d' - cnt"
    "sum_list (map (\<lambda>r. is_interval_time (fst (snd r))) rs) = sd_last_stats_time d' - now"
    "ts \<noteq> [] \<longrightarrow> sd_last_ping_count d' = fst (last ts) \<and> sd_last_stats_time d' = fst (snd (last ts))"
    using r(4,5) by simp_all
  show ?case
  proof (cases "ts = []")
    case True
    then show ?thesis using r IH t by simp
  next
    case False
    then show ?thesis using r(2,6,7) IH t by simp
  qed
qed

lemma stats_run_headers:
  assumes "\<not> sd_stop d" "0 < freq" "0 \<le> sd_headers_count d" "stats_run rnd freq ts d = Inr (rows, d')" "k < length ts"
  shows "fst (rows ! k) \<longleftrightarrow> (sd_headers_count d + int k) mod freq = 0"
  using assms
proof (induction ts arbitrary: d rows k)
  case (Cons t ts)
  obtain cnt now reaped where t: "t = (cnt, now, reaped)" by (cases t)
  have f0: "freq \<noteq> 0" using Cons.prems(2) by simp
  from stats_run_Cons [OF Cons.prems(1) f0 Cons.prems(4) [unfolded t]]
  obtain d1 i rs row where r: "stats_run rnd freq ts d1 = Inr (rs, d')" "rows = (c_mod (sd_headers_count d) freq = 0, i, row) # rs"
    "\<not> sd_stop d1" "sd_headers_count d1 = sd_headers_count d + 1"
    by auto
  show ?case
  proof (cases k)
    case 0
    then show ?thesis using r(2) Cons.prems(2,3) by simp
  next
    case (Suc j)
    then show ?thesis using Cons.IH [OF r(3) Cons.prems(2) _ r(1), of j] r(2,4) Cons.prems(3,5)
      by (simp add: algebra_simps)
  qed
qed simp

text \<open>As long as no child is dead the usage columns do not move.\<close>

lemma gather_zero:
  assumes "\<forall>t. reaped t = None" "sd_rusage d = sd_last_rusage d"
  shows "is_rusage (fst (gather_periodic_stats now reaped d)) t =
     \<lparr>ru_nvcsw = 0, ru_nivcsw = 0, ru_utime = \<lparr>tv_sec = 0, tv_usec = 0\<rparr>, ru_stime = \<lparr>tv_sec = 0, tv_usec = 0\<rparr>\<rparr>"
    and "sd_rusage (store_wait4 reaped d) = sd_rusage d"
  using assms by (simp_all add: gather_periodic_stats_def store_wait4_def rusage_diff_def
      elapsed_time_timeval_def Let_def)

section \<open>Final statistics\<close>

definition sched_line_strings :: "string list" where
  "sched_line_strings =
     [''se.vruntime'', ''se.sum_exec_runtime'', ''se.statistics.wait_start'',
      ''se.statistics.sleep_start'', ''se.statistics.block_start'', ''se.statistics.sleep_max'',
      ''se.statistics.block_max'', ''se.statistics.exec_max'', ''se.statistics.slice_max'',
      ''se.statistics.wait_max'', ''se.statistics.wait_sum'', ''se.statistics.wait_count'',
      ''se.statistics.iowait_sum'', ''se.statistics.iowait_count'', ''nr_switches'',
      ''nr_voluntary_switches'', ''nr_involuntary_switches'', ''se.load.weight'']"

definition interesting_sched_stat :: "string \<Rightarrow> bool" where
  "interesting_sched_stat check_str \<longleftrightarrow> (\<exists>s \<in> set sched_line_strings. strcmp s check_str = 0)"

text \<open>
  \<^verbatim>\<open>split_sched_lines\<close> on two lines and what follows each of them in its buffer, behind the NUL that
  ended it: nothing is stored, the key was stored and taken back, or key and values are stored.
  A line without a separator is read on behind its NUL.
\<close>

datatype split_result = Not_split | Taken_back | Split string string string

definition separators :: string where "separators = '': ''"

definition behind_key :: "string \<Rightarrow> string \<Rightarrow> string" where
  "behind_key buf behind =
     (let n = strcspn buf separators in if n < length buf then drop (n + 1) buf else behind)"

definition split_sched_lines :: "string \<times> string \<Rightarrow> string \<times> string \<Rightarrow> split_result" where
  "split_sched_lines b1 b2 =
     (let k1 = take (strcspn (fst b1) separators) (fst b1);
          k2 = take (strcspn (fst b2) separators) (fst b2)
      in if k1 = [] \<or> k2 = [] then Not_split
         else if strcmp k1 k2 \<noteq> 0 then Not_split
         else (let r1 = behind_key (fst b1) (snd b1); r2 = behind_key (fst b2) (snd b2);
                   n1 = strspn r1 separators; n2 = strspn r2 separators
               in if n1 = 0 \<or> n2 = 0 then Taken_back else Split k1 (drop n1 r1) (drop n2 r2)))"

definition count_sched_lines :: "string \<Rightarrow> nat" where
  "count_sched_lines buf = length (filter (\<lambda>c. c = CHR 0x0A) buf)"

text \<open>
  The loop of \<^verbatim>\<open>parse_sched_data\<close>: what is printed, with an access to \<^verbatim>\<open>sched_data\<close> behind its
  \<open>sched_lines\<close> elements as a fault.
\<close>

function sched_loop :: "nat \<Rightarrow> nat \<Rightarrow> string \<Rightarrow> string \<Rightarrow> ((string \<times> string \<times> string) list) res" where
  "sched_loop sched_lines line_count s1 s2 =
     (case (strtok_r s1 [CHR 0x0A], strtok_r s2 [CHR 0x0A]) of
        ((Some t1, r1), (Some t2, r2)) \<Rightarrow>
          (case split_sched_lines (t1, r1) (t2, r2) of
             Not_split \<Rightarrow> sched_loop sched_lines line_count r1 r2
           | Taken_back \<Rightarrow>
               if sched_lines \<le> line_count then Inl Out_of_bounds
               else sched_loop sched_lines line_count r1 r2
           | Split k v1 v2 \<Rightarrow>
               if sched_lines \<le> line_count then Inl Out_of_bounds
               else bind_res (sched_loop sched_lines (line_count + 1) r1 r2) (\<lambda>out.
                      Inr (if interesting_sched_stat k then (k, v1, v2) # out else out)))
      | _ \<Rightarrow> Inr [])"
  by pat_completeness auto
termination
  by (relation "measure (\<lambda>(_, _, s1, _). length s1)") (auto dest: strtok_r_rest_shorter sym)

declare sched_loop.simps [simp del]

definition parse_sched_data :: "string \<Rightarrow> string \<Rightarrow> ((string \<times> string \<times> string) list) res" where
  "parse_sched_data data0 data1 = sched_loop (count_sched_lines data0) 0 data0 data1"

text \<open>\<^verbatim>\<open>output_final_stats\<close>: the summary and the scheduler lines.\<close>

record final_report =
  fr_elapsed :: string
  fr_count :: "64 word"
  fr_pingpong_time :: string
  fr_rate :: int
  fr_sched :: "(string \<times> string \<times> string) list"

definition output_final_stats :: "(rat \<Rightarrow> rat) \<Rightarrow> rat \<Rightarrow> string \<times> string \<Rightarrow> stats_data \<Rightarrow> final_report res" where
  "output_final_stats rnd now sched d =
     (let cnt = sd_ping_count d; tm = now - sd_start_time d in
      bind_res (subsec_string rnd (Fin tm) 1) (\<lambda>el.
      bind_res (subsec_string rnd (ld_div tm (of_count cnt)) 2) (\<lambda>pt.
      bind_res (if tm = 0 then Inl Unspecified
                else (let q = ld_trunc (rnd (of_count cnt / tm))
                      in if q < 0 \<or> 2 ^ 64 \<le> q then Inl Unspecified else Inr q)) (\<lambda>rate.
      bind_res (f_to_fp rnd 1 (cpu_share (ru_utime (sd_last_rusage d Ping)) tm)) (\<lambda>unused.
      bind_res (parse_sched_data (fst sched) (snd sched)) (\<lambda>lines.
        Inr \<lparr>fr_elapsed = el, fr_count = cnt, fr_pingpong_time = pt, fr_rate = rate, fr_sched = lines\<rparr>))))))"

section \<open>Lemmas on the scheduler report\<close>

text \<open>A buffer whose lines all end in a newline.\<close>

definition terminated :: "string \<Rightarrow> bool" where
  "terminated s \<longleftrightarrow> s = [] \<or> last s = CHR 0x0A"

lemma strtok_line:
  assumes "strtok_r s [CHR 0x0A] = (Some t, r)" "terminated s"
  shows "\<exists>p q. s = p @ q @ CHR 0x0A # r"
proof -
  define s1 where "s1 = dropWhile (\<lambda>c. c = CHR 0x0A) s"
  define s2 where "s2 = dropWhile (\<lambda>c. c \<noteq> CHR 0x0A) s1"
  have ne: "s1 \<noteq> []" and r: "r = drop 1 s2"
    using assms(1) by (auto simp: strtok_r_def Let_def s1_def s2_def split: if_splits)
  obtain p where p: "s = p @ s1" unfolding s1_def by (metis takeWhile_dropWhile_id)
  obtain q where q: "s1 = q @ s2" unfolding s2_def by (metis takeWhile_dropWhile_id)
  have "last s1 = CHR 0x0A" using assms(2) ne by (simp add: terminated_def p)
  then have ne2: "s2 \<noteq> []" using ne last_in_set [OF ne] unfolding s2_def by (auto simp: dropWhile_eq_Nil_conv)
  then have "hd s2 = CHR 0x0A" unfolding s2_def using hd_dropWhile by blast
  then have "s2 = CHR 0x0A # r" using r ne2 by (cases s2) auto
  then show ?thesis using p q by blast
qed

lemma terminated_strtok:
  assumes "terminated s" "strtok_r s [CHR 0x0A] = (Some t, r)"
  shows "terminated r \<and> count_sched_lines r < count_sched_lines s"
proof -
  obtain p q where s: "s = p @ q @ CHR 0x0A # r" using strtok_line [OF assms(2,1)] by blast
  then show ?thesis using assms(1) by (auto simp: terminated_def count_sched_lines_def split: if_splits)
qed

lemma sched_loop_in_bounds:
  "terminated s1 \<Longrightarrow> line_count + count_sched_lines s1 \<le> sched_lines \<Longrightarrow>
     \<exists>out. sched_loop sched_lines line_count s1 s2 = Inr out"
proof (induction "length s1" arbitrary: s1 s2 line_count rule: less_induct)
  case less
  obtain a r1 b r2 where p: "strtok_r s1 [CHR 0x0A] = (a, r1)" "strtok_r s2 [CHR 0x0A] = (b, r2)"
    by fastforce
  show ?case
  proof (cases "a = None \<or> b = None")
    case True
    then show ?thesis using p by (subst sched_loop.simps) (auto split: option.splits)
  next
    case False
    then obtain t1 t2 where ab: "a = Some t1" "b = Some t2" by auto
    have c: "terminated r1" "count_sched_lines r1 < count_sched_lines s1"
      using terminated_strtok [OF less.prems(1)] p(1) ab by auto
    note IH = less.hyps [OF strtok_r_rest_shorter [OF p(1) [unfolded ab]] c(1)]
    have i: "\<exists>out. sched_loop sched_lines line_count r1 r2 = Inr out"
      "\<exists>out. sched_loop sched_lines (line_count + 1) r1 r2 = Inr out"
      using IH [of line_count r2] IH [of "line_count + 1" r2] c(2) less.prems(2) by auto
    then show ?thesis using p ab c(2) less.prems(2)
      by (subst sched_loop.simps) (auto split: split_result.splits)
  qed
qed

text \<open>A report as the kernel writes it: keys, a separator of blanks and a colon, values.\<close>

definition report_line :: "string \<Rightarrow> string \<Rightarrow> string" where
  "report_line k v = k @ '' : '' @ v @ [CHR 0x0A]"

definition good_key :: "string \<Rightarrow> bool" where
  "good_key k \<longleftrightarrow> k \<noteq> [] \<and> (\<forall>c \<in> set k. c \<notin> set separators \<and> c \<noteq> CHR 0x0A)"

definition good_value :: "string \<Rightarrow> bool" where
  "good_value v \<longleftrightarrow> (v = [] \<or> hd v \<notin> set separators) \<and> CHR 0x0A \<notin> set v"

definition sched_report :: "(string \<times> string) list \<Rightarrow> string" where
  "sched_report ls = concat (map (\<lambda>(k, v). report_line k v) ls)"

lemma takeWhile_all_append: "\<forall>c \<in> set a. P c \<Longrightarrow> b = [] \<or> \<not> P (hd b) \<Longrightarrow>
    takeWhile P (a @ b) = a \<and> dropWhile P (a @ b) = b"
  by (cases b) (simp_all add: takeWhile_append dropWhile_append)

lemma strtok_report_line:
  assumes "good_key k" "good_value v"
  shows "strtok_r (report_line k v @ r) [CHR 0x0A] = (Some (k @ '' : '' @ v), r)"
proof -
  let ?l = "k @ '' : '' @ v"
  have ne: "?l \<noteq> []" and nl: "\<forall>c \<in> set ?l. c \<noteq> CHR 0x0A"
    using assms by (auto simp: good_key_def good_value_def)
  have l: "report_line k v @ r = ?l @ CHR 0x0A # r" by (simp add: report_line_def)
  have "hd k \<noteq> CHR 0x0A" using assms(1) by (auto simp: good_key_def)
  then have d: "dropWhile (\<lambda>c. c \<in> set [CHR 0x0A]) (?l @ CHR 0x0A # r) = ?l @ CHR 0x0A # r"
    using assms(1) by (cases k) (auto simp: good_key_def)
  have "takeWhile (\<lambda>c. c \<notin> set [CHR 0x0A]) (?l @ CHR 0x0A # r) = ?l
      \<and> dropWhile (\<lambda>c. c \<notin> set [CHR 0x0A]) (?l @ CHR 0x0A # r) = CHR 0x0A # r"
    by (rule takeWhile_all_append) (use nl in auto)
  then show ?thesis unfolding l strtok_r_def Let_def d using ne by simp
qed

lemma split_report_lines:
  assumes "good_key k" "good_value v1" "good_value v2"
  shows "split_sched_lines (k @ '' : '' @ v1, r1) (k @ '' : '' @ v2, r2) = Split k v1 v2"
proof -
  have c: "strcspn (k @ '' : '' @ v) separators = length k" for v
  proof -
    have "takeWhile (\<lambda>c. c \<notin> set separators) (k @ '' : '' @ v) = k"
      using takeWhile_all_append [of k "\<lambda>c. c \<notin> set separators" "'' : '' @ v"] assms(1)
      by (simp add: good_key_def separators_def)
    then show ?thesis by (simp add: strcspn_def)
  qed
  have b: "behind_key (k @ '' : '' @ v) r = '': '' @ v" for v r
    unfolding behind_key_def c Let_def by simp
  have s: "strspn ('': '' @ v) separators = 2" if "good_value v" for v
  proof -
    have "takeWhile (\<lambda>c. c \<in> set separators) ('': '' @ v) = '': ''"
      using takeWhile_all_append [of "'': ''" "\<lambda>c. c \<in> set separators" v] that
      by (simp add: good_value_def separators_def)
    then show ?thesis by (simp add: strspn_def)
  qed
  show ?thesis
    unfolding split_sched_lines_def fst_conv snd_conv c b s [OF assms(2)] s [OF assms(3)] Let_def
    using assms(1) by (simp add: good_key_def)
qed

lemma sched_loop_report:
  assumes "\<forall>(k, v1, v2) \<in> set ls. good_key k \<and> good_value v1 \<and> good_value v2"
    and "line_count + length ls \<le> sched_lines"
  shows "sched_loop sched_lines line_count (sched_report (map (\<lambda>(k, v1, v2). (k, v1)) ls))
           (sched_report (map (\<lambda>(k, v1, v2). (k, v2)) ls))
         = Inr (filter (\<lambda>(k, v1, v2). interesting_sched_stat k) ls)"
  using assms
proof (induction ls arbitrary: line_count)
  case Nil
  then show ?case by (subst sched_loop.simps) (simp add: sched_report_def strtok_r_def)
next
  case (Cons l ls)
  obtain k v1 v2 where l: "l = (k, v1, v2)" by (cases l)
  have g: "good_key k" "good_value v1" "good_value v2" using Cons.prems(1) l by auto
  have IH: "sched_loop sched_lines (line_count + 1) (sched_report (map (\<lambda>(k, v1, v2). (k, v1)) ls))
           (sched_report (map (\<lambda>(k, v1, v2). (k, v2)) ls))
         = Inr (filter (\<lambda>(k, v1, v2). interesting_sched_stat k) ls)"
    by (rule Cons.IH) (use Cons.prems in auto)
  have r: "sched_report ((k, v) # xs) = report_line k v @ sched_report xs" for v xs
    by (simp add: sched_report_def)
  note sp = split_report_lines [OF g, simplified]
  show ?case
    unfolding l list.map prod.case r
    by (subst sched_loop.simps)
      (use Cons.prems(2) in \<open>simp add: strtok_report_line g sp IH [simplified]\<close>)
qed

lemma count_report: "\<forall>(k, v) \<in> set ls. good_key k \<and> good_value v \<Longrightarrow> count_sched_lines (sched_report ls) = length ls"
proof (induction ls)
  case (Cons l ls)
  obtain k v where l: "l = (k, v)" by (cases l)
  have n: "filter (\<lambda>c. c = CHR 0x0A) k = []" "filter (\<lambda>c. c = CHR 0x0A) v = []"
    using Cons.prems l by (auto simp: good_key_def good_value_def filter_empty_conv)
  then show ?case using Cons l
    by (simp add: sched_report_def report_line_def count_sched_lines_def)
qed (simp add: sched_report_def count_sched_lines_def)

section \<open>Properties\<close>

text \<open>
  C34: the intervals of the periodic statistics tile the run: over any number of ticks the interval
  counts add up to what the counter has advanced since the last one stored, modulo its width, and
  the interval times to the time passed; nothing is counted twice or lost between two reports.
\<close>

theorem intervals_tile_the_run:
  assumes "\<not> sd_stop d" "freq \<noteq> 0" "stats_run rnd freq ts d = Inr (rows, d')" "ts \<noteq> []"
  shows "length rows = length ts
    \<and> sum_list (map (\<lambda>r. is_interval_count (fst (snd r))) rows) = fst (last ts) - sd_last_ping_count d
    \<and> sum_list (map (\<lambda>r. is_interval_time (fst (snd r))) rows) = fst (snd (last ts)) - sd_last_stats_time d"
  using stats_run_sums [OF assms(1-3)] assms(4) by simp

definition example_stats :: stats_data where
  "example_stats = \<lparr>sd_ping_count = 0, sd_last_ping_count = 0, sd_stop = False, sd_start_time = 0,
     sd_last_stats_time = 0, sd_headers_count = 0,
     sd_rusage = (\<lambda>_. \<lparr>ru_nvcsw = 0, ru_nivcsw = 0, ru_utime = \<lparr>tv_sec = 0, tv_usec = 0\<rparr>,
                        ru_stime = \<lparr>tv_sec = 0, tv_usec = 0\<rparr>\<rparr>),
     sd_last_rusage = (\<lambda>_. \<lparr>ru_nvcsw = 0, ru_nivcsw = 0, ru_utime = \<lparr>tv_sec = 0, tv_usec = 0\<rparr>,
                        ru_stime = \<lparr>tv_sec = 0, tv_usec = 0\<rparr>\<rparr>)\<rparr>"

lemma example_row:
  "\<exists>row. show_periodic_stats_data (\<lambda>x. x) (fst (gather_periodic_stats 1 (\<lambda>_. None) (example_stats\<lparr>sd_ping_count := 500\<rparr>)))
     = Inr row \<and> row_time row = ''1.0 s'' \<and> row_rate row = 500 \<and> row_cycle row = ''2.00 ms''"
proof -
  have a: "subsec_string (\<lambda>r. r) (Fin 1) 1 = Inr ''1.0 s''"
    by (subst subsec_string_exact [of _ 0 1])
      (simp_all add: max_mult_6 unit_strings_sub_def llround_def subsec_whole_def)
  have b: "subsec_string (\<lambda>r. r) (Fin (1 / 500)) 2 = Inr ''2.00 ms''"
    by (subst subsec_string_exact [of _ 1 2])
      (simp_all add: max_mult_6 unit_strings_sub_def llround_def subsec_whole_def upt_rec)
  show ?thesis
    by (simp add: show_periodic_stats_data_def gather_periodic_stats_def store_wait4_def example_stats_def
        rusage_diff_def elapsed_time_timeval_def cpu_columns_def cpu_share_def f_to_fp_def ld_div_def of_count_def
        ld_trunc_def llround_def pow10_def a b Let_def)
qed

lemma example_run:
  "\<exists>rows d'. stats_run (\<lambda>x. x) 10 [(500, 1, \<lambda>_. None)] example_stats = Inr (rows, d')"
  using example_row by (auto simp: show_running example_stats_def)

theorem intervals_tile_the_run_witness:
  "\<exists>rows d'. stats_run (\<lambda>x. x) 10 [(500, 1, \<lambda>_. None)] example_stats = Inr (rows, d')
     \<and> sum_list (map (\<lambda>r. is_interval_count (fst (snd r))) rows) = 500"
proof -
  obtain rows d' where r: "stats_run (\<lambda>x. x) 10 [(500, 1, \<lambda>_. None)] example_stats = Inr (rows, d')"
    using example_run by blast
  from intervals_tile_the_run [OF _ _ r] r show ?thesis by (simp add: example_stats_def)
qed

text \<open>
  The header is repeated with the frequency configured: row \<open>k\<close> of a run that starts with no
  header shown has a header exactly if \<open>k\<close> is a multiple of it.
\<close>

lemma headers_every_freq:
  assumes "\<not> sd_stop d" "0 < freq" "sd_headers_count d = 0" "stats_run rnd freq ts d = Inr (rows, d')" "k < length ts"
  shows "fst (rows ! k) \<longleftrightarrow> int k mod freq = 0"
  using stats_run_headers [OF assms(1,2) _ assms(4,5)] assms(3) by simp

text \<open>
  While both children live the usage columns are all zero, since only \<^verbatim>\<open>wait4\<close> on a dead child
  fills them in; and the share of the cpu divides only the microseconds by the interval, which is
  right exactly for intervals of one second or usages below one.
\<close>

lemma usage_columns:
  assumes "\<forall>t. reaped t = None" "sd_rusage d = sd_last_rusage d" "0 < interval"
  shows "is_rusage (fst (gather_periodic_stats now reaped d)) t =
      \<lparr>ru_nvcsw = 0, ru_nivcsw = 0, ru_utime = \<lparr>tv_sec = 0, tv_usec = 0\<rparr>, ru_stime = \<lparr>tv_sec = 0, tv_usec = 0\<rparr>\<rparr>
    \<and> (cpu_share tv interval = (of_int (tv_sec tv) * 100 + of_int (tv_usec tv) / 10 ^ 4) / interval
         \<longleftrightarrow> interval = 1 \<or> tv_sec tv = 0)"
proof -
  have "cpu_share tv interval - (of_int (tv_sec tv) * 100 + of_int (tv_usec tv) / 10 ^ 4) / interval
      = of_int (tv_sec tv) * 100 * (1 - 1 / interval)"
    using assms(3) by (simp add: cpu_share_def field_simps)
  moreover have "1 - 1 / interval = 0 \<longleftrightarrow> interval = 1" using assms(3) by (simp add: field_simps)
  ultimately have "cpu_share tv interval = (of_int (tv_sec tv) * 100 + of_int (tv_usec tv) / 10 ^ 4) / interval
         \<longleftrightarrow> interval = 1 \<or> tv_sec tv = 0"
    by (metis eq_iff_diff_eq_0 mult_eq_0_iff of_int_eq_0_iff zero_neq_numeral)
  then show ?thesis using gather_zero(1) [OF assms(1,2)] by simp
qed

text \<open>
  On two scheduler reports with the same keys the final comparison prints exactly the lines with
  an interesting key, in order, with both values.
\<close>

lemma sched_report_compared:
  assumes "\<forall>(k, v1, v2) \<in> set ls. good_key k \<and> good_value v1 \<and> good_value v2"
  shows "parse_sched_data (sched_report (map (\<lambda>(k, v1, v2). (k, v1)) ls))
           (sched_report (map (\<lambda>(k, v1, v2). (k, v2)) ls))
         = Inr (filter (\<lambda>(k, v1, v2). interesting_sched_stat k) ls)"
proof -
  have "count_sched_lines (sched_report (map (\<lambda>(k, v1, v2). (k, v1)) ls)) = length ls"
    using assms by (subst count_report) (auto split: prod.splits)
  then show ?thesis using sched_loop_report [OF assms, of 0 "length ls"] by (simp add: parse_sched_data_def)
qed

end
