(* ===== verification/Children.thy ===== *)
theory Children
  imports Signals Stats
begin

text \<open>
  \<^verbatim>\<open>threads_children.c\<close> in detail: what a child sets up before it reports itself ready, in the order of
  \<^verbatim>\<open>do_thread_work\<close>, and what it leaves in the shared area when it is interrupted: usage numbers
  and its scheduler report, which \<^verbatim>\<open>stats_final.c\<close> compares.
\<close>

section \<open>Setup of a child\<close>

text \<open>The child's entry of \<^verbatim>\<open>thread_info\<close> and \<^verbatim>\<open>thread_stats\<close>, and its own attributes.\<close>

record child_ctx =
  cx_pid :: int
  cx_tid :: int
  cx_sid :: int
  cx_pgid :: int
  cx_latency_fd :: int
  cx_latency :: "32 word option"
  cx_pdeathsig :: "int option"
  cx_disp :: dispositions
  cx_pre_done :: bool
  cx_cpu :: "int option"
  cx_start_tsc :: "64 word"
  cx_last_tsc :: "64 word"
  cx_ready :: bool

text \<open>What the system answers.\<close>

record child_env =
  ce_tid :: int
  ce_pid :: int
  ce_getsid :: "int \<Rightarrow> int"
  ce_getpgid :: "int \<Rightarrow> int"
  ce_latency_open :: int
  ce_pdeathsig :: int
  ce_setaffinity :: "int \<Rightarrow> int"
  ce_tsc :: "64 word"

definition child_ids :: "child_env \<Rightarrow> child_ctx \<Rightarrow> child_ctx" where
  "child_ids env s =
     (let s1 = (if cx_tid s = 0 then s\<lparr>cx_tid := ce_tid env\<rparr> else s);
          s2 = (if cx_pid s1 = 0 then s1\<lparr>cx_pid := ce_pid env\<rparr> else s1)
      in s2\<lparr>cx_sid := ce_getsid env (cx_pid s2), cx_pgid := ce_getpgid env (cx_pid s2)\<rparr>)"

text \<open>
  \<^verbatim>\<open>setup_cpu_dma_latency\<close>: a value of \<open>-1\<close> means none; only root may write the device. Four bytes of
  the \<^verbatim>\<open>unsigned long\<close> are written, the low ones.
\<close>

definition setup_cpu_dma_latency :: "config \<Rightarrow> child_env \<Rightarrow> child_ctx \<Rightarrow> child_ctx" where
  "setup_cpu_dma_latency c env s =
     (if cpu_dma_latency c = -1 then s
      else if euid c = 0
      then (if ce_latency_open env < 0 then s\<lparr>cx_latency_fd := ce_latency_open env\<rparr>
            else s\<lparr>cx_latency_fd := ce_latency_open env,
                   cx_latency := Some (ucast (word_of_int (cpu_dma_latency c) :: 64 word))\<rparr>)
      else s)"

definition on_parent_death :: "child_env \<Rightarrow> int \<Rightarrow> child_ctx \<Rightarrow> child_ctx" where
  "on_parent_death env signum s = (if ce_pdeathsig env = -1 then s else s\<lparr>cx_pdeathsig := Some signum\<rparr>)"

definition bind_cpu :: "config \<Rightarrow> child_env \<Rightarrow> tid \<Rightarrow> child_ctx \<Rightarrow> child_ctx res" where
  "bind_cpu c env t s =
     (if cfg_set_affinity c
      then bind_res (set_affinity (ce_setaffinity env) (cpu c t)) (\<lambda>_.
             Inr (s\<lparr>cx_cpu := Some (cpu c t), cx_start_tsc := ce_tsc env, cx_last_tsc := ce_tsc env\<rparr>))
      else Inr s)"

text \<open>
  \<^verbatim>\<open>do_thread_work\<close> up to the ready flag, step by step (the name and the line it prints are left out);
  \<open>pre\<close> is what \<^verbatim>\<open>comm_pre\<close> does to the dispositions. A death can come between any two steps.
\<close>

definition do_thread_work :: "config \<Rightarrow> child_env \<Rightarrow> (dispositions \<Rightarrow> dispositions) \<Rightarrow> tid
    \<Rightarrow> (child_ctx \<Rightarrow> child_ctx res) list" where
  "do_thread_work c env pre t =
     [Inr \<circ> child_ids env,
      Inr \<circ> setup_cpu_dma_latency c env,
      Inr \<circ> on_parent_death env SIGINT,
      (\<lambda>s. Inr (s\<lparr>cx_disp := setup_interrupt_signal t (cx_disp s)\<rparr>)),
      (\<lambda>s. Inr (s\<lparr>cx_disp := setup_crash_handler (cx_disp s)\<rparr>)),
      (\<lambda>s. Inr (s\<lparr>cx_disp := pre (cx_disp s), cx_pre_done := True\<rparr>)),
      bind_cpu c env t,
      (\<lambda>s. Inr (s\<lparr>cx_ready := True\<rparr>))]"

text \<open>The functions that \<^verbatim>\<open>clone\<close> and \<^verbatim>\<open>pthread_create\<close> start, with the child's entry as their argument.\<close>

definition thread_function :: "config \<Rightarrow> child_env \<Rightarrow> (dispositions \<Rightarrow> dispositions) \<Rightarrow> thread_info
    \<Rightarrow> (child_ctx \<Rightarrow> child_ctx res) list" where
  "thread_function c env pre t_info = do_thread_work c env pre (if ti_num t_info = 0 then Ping else Pong)"

definition pthread_function :: "config \<Rightarrow> child_env \<Rightarrow> (dispositions \<Rightarrow> dispositions) \<Rightarrow> thread_info
    \<Rightarrow> (child_ctx \<Rightarrow> child_ctx res) list" where
  "pthread_function c env pre argument = thread_function c env pre argument"

lemma thread_function_runs:
  assumes "ti_num (info s t) = ti_num (info init_threads t)"
  shows "thread_function c env pre (info s t) = do_thread_work c env pre t"
    and "pthread_function c env pre (info s t) = do_thread_work c env pre t"
  using assms by (cases t; simp add: thread_function_def pthread_function_def init_threads_def)+

text \<open>Released, the first child runs the ping loop and the second the pong loop.\<close>

definition child_loop :: "comm_mode_ops \<Rightarrow> tid \<Rightarrow> comm_fn option" where
  "child_loop ops t = (case t of Ping \<Rightarrow> comm_ping ops | Pong \<Rightarrow> comm_pong ops)"

section \<open>The interrupt handler\<close>

text \<open>
  The child's part of \<^verbatim>\<open>thread_stats\<close>; the report area is a zeroed mapping of its own, and what the
  comparison reads of it is the C string at its beginning.
\<close>

record child_stats =
  cs_rusage_req :: bool
  cs_rusage :: rusage
  cs_thread_time :: timespec
  cs_tsc :: "64 word"
  cs_sched_data :: string
  cs_sched_data_len :: int

record stats_env =
  se_rusage :: "rusage option"
  se_thread_time :: timespec
  se_tsc :: "64 word"
  se_sched_open :: int
  se_sched_read :: "string option"

definition PROC_PID_SCHED_SIZE :: nat where "PROC_PID_SCHED_SIZE = 3000"

definition c_str :: "string \<Rightarrow> string" where
  "c_str area = takeWhile (\<lambda>c. c \<noteq> CHR 0x00) area"

definition send_thread_stats :: "bool \<Rightarrow> stats_env \<Rightarrow> child_stats \<Rightarrow> child_stats" where
  "send_thread_stats affinity env s =
     (let s1 = (case se_rusage env of None \<Rightarrow> s | Some u \<Rightarrow> s\<lparr>cs_rusage := u\<rparr>);
          s2 = s1\<lparr>cs_thread_time := se_thread_time env\<rparr>;
          s3 = (if affinity then s2\<lparr>cs_tsc := se_tsc env\<rparr> else s2)
      in s3\<lparr>cs_rusage_req := False\<rparr>)"

text \<open>
  \<^verbatim>\<open>read_sched_proc\<close>: the state and the length given to \<^verbatim>\<open>write\<close> for the copy in \<^verbatim>\<open>/tmp\<close>, a \<^verbatim>\<open>size_t\<close>. A read that
  fails leaves the area alone and the length \<open>-1\<close>, which is written all the same.
\<close>

definition read_sched_proc :: "stats_env \<Rightarrow> child_stats \<Rightarrow> child_stats \<times> 64 word option" where
  "read_sched_proc env s =
     (if se_sched_open env < 0 then (s, None)
      else (let s1 = (case se_sched_read env of
                        None \<Rightarrow> s\<lparr>cs_sched_data_len := -1\<rparr>
                      | Some report \<Rightarrow>
                          (let bs = take PROC_PID_SCHED_SIZE report
                           in s\<lparr>cs_sched_data := bs @ drop (length bs) (cs_sched_data s),
                                cs_sched_data_len := int (length bs)\<rparr>))
            in (s1, Some (word_of_int (cs_sched_data_len s1)))))"

text \<open>The handler, with whether the child cleans up and exits.\<close>

definition interrupt_handler :: "bool \<Rightarrow> bool \<Rightarrow> stats_env \<Rightarrow> child_stats \<Rightarrow> child_stats \<times> bool" where
  "interrupt_handler affinity stopping env s =
     (let s1 = (if cs_rusage_req s then send_thread_stats affinity env s else s)
      in if stopping then (fst (read_sched_proc env s1), True) else (s1, False))"

text \<open>What the comparison reads after a child was stopped.\<close>

definition left_report :: "bool \<Rightarrow> stats_env \<Rightarrow> child_stats \<Rightarrow> string" where
  "left_report affinity env s = c_str (cs_sched_data (fst (interrupt_handler affinity True env s)))"

section \<open>Lemmas\<close>

lemmas child_steps = do_thread_work_def child_ids_def setup_cpu_dma_latency_def on_parent_death_def bind_cpu_def

lemma steps_length [simp]: "length (do_thread_work c env pre t) = 8"
  by (simp add: do_thread_work_def)

text \<open>No step but the last sets the ready flag.\<close>

lemma step_keeps_unready:
  assumes "f \<in> set (butlast (do_thread_work c env pre t))" "f s = Inr s'" "\<not> cx_ready s"
  shows "\<not> cx_ready s'"
  using assms by (auto simp: child_steps bind_res_Inr_iff Let_def split: if_splits)

lemma steps_keep_unready:
  assumes "set fs \<subseteq> set (butlast (do_thread_work c env pre t))" "fold_res (\<lambda>f. f) fs s = Inr s'" "\<not> cx_ready s"
  shows "\<not> cx_ready s'"
  using assms
proof (induction fs arbitrary: s)
  case (Cons f fs)
  then obtain s1 where "f s = Inr s1" "fold_res (\<lambda>f. f) fs s1 = Inr s'" by (auto simp: bind_res_Inr_iff)
  with Cons step_keeps_unready show ?case by (metis list.set_intros(1) set_subset_Cons subset_iff)
qed simp

text \<open>The setup as a whole.\<close>

lemma setup_done:
  assumes "fold_res (\<lambda>f. f) (do_thread_work c env pre t) s = Inr s'"
  shows "cx_ready s' \<and> cx_pre_done s'
    \<and> cx_disp s' = pre (child_handlers t (cx_disp s))
    \<and> cx_pid s' = (if cx_pid s = 0 then ce_pid env else cx_pid s)
    \<and> cx_tid s' = (if cx_tid s = 0 then ce_tid env else cx_tid s)
    \<and> (ce_pdeathsig env \<noteq> -1 \<longrightarrow> cx_pdeathsig s' = Some SIGINT)
    \<and> (cfg_set_affinity c \<longrightarrow> cx_cpu s' = Some (cpu c t) \<and> ce_setaffinity env (cpu c t) \<noteq> -1)"
  using assms by (auto simp: child_steps child_handlers_def set_affinity_def bind_res_Inr_iff Let_def split: if_splits)

lemma steps_keep_cpu [simp]:
  "cx_cpu (child_ids cenv x) = cx_cpu x" "cx_cpu (setup_cpu_dma_latency c cenv x) = cx_cpu x"
  "cx_cpu (on_parent_death cenv sig x) = cx_cpu x"
  by (simp_all add: child_ids_def setup_cpu_dma_latency_def on_parent_death_def Let_def)

lemma setup_cpu:
  assumes "fold_res (\<lambda>f. f) (do_thread_work c cenv pre t) x = Inr x'"
  shows "cx_cpu x' = (if cfg_set_affinity c then Some (cpu c t) else cx_cpu x)"
  using assms by (auto simp: do_thread_work_def bind_cpu_def bind_res_Inr_iff split: if_splits)

lemma setup_succeeds:
  assumes "ce_setaffinity cenv (cpu c t) \<noteq> -1"
  shows "\<exists>x'. fold_res (\<lambda>f. f) (do_thread_work c cenv pre t) x = Inr x'"
  using assms by (simp add: do_thread_work_def bind_cpu_def set_affinity_def)

lemma c_str_area:
  assumes "length bs \<le> length area" "set area \<subseteq> {CHR 0x00}" "CHR 0x00 \<notin> set bs"
  shows "c_str (bs @ drop (length bs) area) = bs"
proof -
  have "takeWhile (\<lambda>c. c \<noteq> CHR 0x00) (drop (length bs) area) = []"
    using assms(2) set_drop_subset [of "length bs" area] by (cases "drop (length bs) area") auto
  moreover have "\<forall>c \<in> set bs. c \<noteq> CHR 0x00" using assms(3) by auto
  ultimately show ?thesis by (simp add: c_str_def)
qed

text \<open>A report of the kernel that fits the buffer arrives as it is.\<close>

lemma interrupt_report:
  assumes "0 \<le> se_sched_open env" "se_sched_read env = Some report" "CHR 0x00 \<notin> set report"
    and "set (cs_sched_data s) \<subseteq> {CHR 0x00}" "PROC_PID_SCHED_SIZE \<le> length (cs_sched_data s)"
  shows "c_str (cs_sched_data (fst (interrupt_handler aff True env s))) = take PROC_PID_SCHED_SIZE report"
proof -
  let ?bs = "take PROC_PID_SCHED_SIZE report"
  have d: "cs_sched_data (if cs_rusage_req s then send_thread_stats aff env s else s) = cs_sched_data s"
    by (simp add: send_thread_stats_def Let_def split: option.splits)
  have "CHR 0x00 \<notin> set ?bs" using assms(3) by (meson in_set_takeD)
  from c_str_area [OF _ assms(4) this] assms(1,2,5) d show ?thesis
    by (simp add: interrupt_handler_def read_sched_proc_def Let_def)
qed

lemma strtok_single:
  assumes "l \<noteq> []" "x \<notin> set l"
  shows "strtok_r l [x] = (Some l, [])"
proof -
  have "dropWhile (\<lambda>c. c \<noteq> x) l = []" "takeWhile (\<lambda>c. c \<noteq> x) l = l"
    using assms(2) by (auto simp: dropWhile_eq_Nil_conv takeWhile_eq_all_conv)
  moreover have "dropWhile (\<lambda>c. c = x) l = l" using assms by (cases l) auto
  ultimately show ?thesis using assms(1) by (simp add: strtok_r_def del: dropWhile_eq_Nil_conv)
qed

lemma cut_report_overruns:
  assumes "good_key k" "good_value v" "good_value v'"
  shows "parse_sched_data (k @ '' : '' @ v) (k @ '' : '' @ v') = Inl Out_of_bounds"
proof -
  have nl: "CHR 0x0A \<notin> set (k @ '' : '' @ u)" if "good_value u" for u
    using assms(1) that by (auto simp: good_key_def good_value_def)
  have t: "strtok_r (k @ '' : '' @ u) [CHR 0x0A] = (Some (k @ '' : '' @ u), [])" if "good_value u" for u
    by (rule strtok_single [OF _ nl [OF that]]) simp
  have "filter (\<lambda>c. c = CHR 0x0A) (k @ '' : '' @ v) = []"
    using nl [OF assms(2)] unfolding filter_empty_conv by metis
  then have "count_sched_lines (k @ '' : '' @ v) = 0" unfolding count_sched_lines_def by (simp only: list.size)
  then show ?thesis
    unfolding parse_sched_data_def
    by (subst sched_loop.simps) (simp only: t [OF assms(2)] t [OF assms(3)] prod.case option.case split_report_lines [OF assms]
        split_result.case le_refl if_True)
qed

section \<open>Properties\<close>

text \<open>
  C17: a child reports itself ready only when it is. However far its setup has come, the ready flag is set
  exactly after its last step; then its ids are known, the handler of its own interrupt signal is
  installed (whatever \<^verbatim>\<open>comm_pre\<close> does, if it leaves that signal alone), the death signal is set, the
  mode's \<^verbatim>\<open>comm_pre\<close> has run and the child is bound to its cpu. A cpu that cannot be had ends the
  child before that.
\<close>

theorem child_setup_order:
  assumes "fold_res (\<lambda>f. f) (take k (do_thread_work c env pre t)) s = Inr s'" "\<not> cx_ready s"
    and "\<And>d. pre d (CHILD_INTERRUPT_SIGNAL t) = d (CHILD_INTERRUPT_SIGNAL t)"
    and "0 < ce_pid env" "0 < ce_tid env" "ce_pdeathsig env \<noteq> -1"
  shows "(cx_ready s' \<longleftrightarrow> 8 \<le> k)
    \<and> (cx_ready s' \<longrightarrow> cx_pid s' \<noteq> 0 \<and> cx_tid s' \<noteq> 0 \<and> cx_pdeathsig s' = Some SIGINT \<and> cx_pre_done s'
         \<and> react (cx_disp s') (CHILD_INTERRUPT_SIGNAL t) = Runs H_interrupt_thread
         \<and> (cfg_set_affinity c \<longrightarrow> cx_cpu s' = Some (cpu c t)))
    \<and> (cfg_set_affinity c \<and> ce_setaffinity env (cpu c t) = -1 \<longrightarrow> \<not> cx_ready s')"
proof (cases "8 \<le> k")
  case True
  note d = setup_done [of c env pre t s s']
  have "react (pre (child_handlers t (cx_disp s))) (CHILD_INTERRUPT_SIGNAL t) = Runs H_interrupt_thread"
    using assms(3) by (cases t) (simp_all add: react_def child_handlers_def setup_crash_handler_def
        setup_interrupt_signal_def signal_numbers)
  then show ?thesis using True d assms(1,4,5,6) by (simp split: if_splits)
next
  case False
  have "take k (do_thread_work c env pre t) = take k (butlast (do_thread_work c env pre t))"
    using False by (simp add: take_butlast)
  then have "set (take k (do_thread_work c env pre t)) \<subseteq> set (butlast (do_thread_work c env pre t))"
    by (metis set_take_subset)
  from steps_keep_unready [OF this assms(1,2)] False show ?thesis by simp
qed

definition example_child :: child_ctx where
  "example_child = \<lparr>cx_pid = 0, cx_tid = 0, cx_sid = 0, cx_pgid = 0, cx_latency_fd = 0, cx_latency = None,
     cx_pdeathsig = None, cx_disp = main_dispositions, cx_pre_done = False, cx_cpu = None, cx_start_tsc = 0,
     cx_last_tsc = 0, cx_ready = False\<rparr>"

definition example_child_env :: child_env where
  "example_child_env = \<lparr>ce_tid = 100, ce_pid = 100, ce_getsid = (\<lambda>p. p), ce_getpgid = (\<lambda>p. p), ce_latency_open = 5,
     ce_pdeathsig = 0, ce_setaffinity = (\<lambda>_. 0), ce_tsc = 7\<rparr>"

theorem child_setup_order_witness:
  "\<exists>s'. fold_res (\<lambda>f. f) (take 8 (do_thread_work (zero_config\<lparr>cfg_set_affinity := True\<rparr>) example_child_env (\<lambda>d. d) Ping)) example_child = Inr s'
     \<and> cx_pid s' \<noteq> 0 \<and> react (cx_disp s') (CHILD_INTERRUPT_SIGNAL Ping) = Runs H_interrupt_thread"
proof -
  obtain s' where s: "fold_res (\<lambda>f. f) (take 8 (do_thread_work (zero_config\<lparr>cfg_set_affinity := True\<rparr>) example_child_env (\<lambda>d. d) Ping)) example_child = Inr s'"
    by (simp add: child_steps set_affinity_def example_child_env_def Let_def)
  from child_setup_order [OF s] s show ?thesis by (simp add: example_child_def example_child_env_def)
qed

text \<open>
  C18: the life of a run as modelled is what the children really do: the setup of a child in detail,
  run to its end, has the effect that the step of the life model has on the ids and the ready flag;
  and a child that is ready dies of its interrupt signal exactly if the handler, with or without a
  request for usage numbers, gets to its exit.
\<close>

theorem child_refines_life:
  assumes "fold_res (\<lambda>f. f) (do_thread_work c env pre t) s = Inr s'"
    and "cx_pid s = pid l t" "cx_tid s = ti_tid (info l t)" "ce_pid env = proc l t" "ce_tid env = proc l t"
    and "child l t = Ready \<or> child l t = Running"
  shows "pid (thread_ready t l) t = cx_pid s' \<and> ti_tid (info (thread_ready t l) t) = cx_tid s'
    \<and> (ready (thread_ready t l) t \<longleftrightarrow> cx_ready s')
    \<and> (child (interrupt_thread t l) t = Zombie \<longleftrightarrow> snd (interrupt_handler aff (stop l) senv cs))"
  using setup_done [OF assms(1)] assms(2-)
  by (auto simp: thread_ready_def interrupt_thread_def interrupt_handler_def child_dies_def set_tid_def set_pid_def
      set_child_def pid_def Let_def)

theorem child_refines_life_witness:
  "\<exists>s'. fold_res (\<lambda>f. f) (do_thread_work zero_config example_child_env (\<lambda>d. d) Ping) example_child = Inr s'
     \<and> pid (thread_ready Ping (init_threads\<lparr>proc := (\<lambda>_. 100), child := (\<lambda>_. Ready)\<rparr>)) Ping = cx_pid s'"
proof -
  obtain s' where s: "fold_res (\<lambda>f. f) (do_thread_work zero_config example_child_env (\<lambda>d. d) Ping) example_child = Inr s'"
    by (simp add: child_steps zero_config_def Let_def)
  from child_refines_life [OF s, of "init_threads\<lparr>proc := (\<lambda>_. 100), child := (\<lambda>_. Ready)\<rparr>"] s show ?thesis
    by (simp add: example_child_def example_child_env_def init_threads_def pid_def)
qed

text \<open>
  C31: the scheduler reports from the children to the comparison: if the kernel's report for the first
  child is at most 3000 bytes long and ends in a newline, the comparison stays in its array, whatever
  the second child leaves; reports of that length reach it unchanged. But the read is cut at 3000
  bytes, and there are reports of one longer line, the same for both children, for which the
  comparison writes behind its array.
\<close>

theorem sched_report_end_to_end:
  assumes "\<And>u. se_sched_read (env u) = Some (report u)" "\<And>u. CHR 0x00 \<notin> set (report u)"
    and "\<And>u. set (cs_sched_data (cs u)) \<subseteq> {CHR 0x00}" "\<And>u. PROC_PID_SCHED_SIZE \<le> length (cs_sched_data (cs u))"
    and "\<And>u. 0 \<le> se_sched_open (env u)"
  shows "(length (report Ping) \<le> PROC_PID_SCHED_SIZE \<and> terminated (report Ping) \<longrightarrow>
           (\<exists>out. parse_sched_data (left_report aff (env Ping) (cs Ping)) (left_report aff (env Pong) (cs Pong)) = Inr out))
    \<and> (length (report t) \<le> PROC_PID_SCHED_SIZE \<longrightarrow> left_report aff (env t) (cs t) = report t)
    \<and> (report = (\<lambda>_. report_line ''nr_switches'' (replicate 3000 (CHR ''1''))) \<longrightarrow>
         parse_sched_data (left_report aff (env Ping) (cs Ping)) (left_report aff (env Pong) (cs Pong)) = Inl Out_of_bounds)"
proof -
  have l: "left_report aff (env u) (cs u) = take PROC_PID_SCHED_SIZE (report u)" for u
    unfolding left_report_def by (rule interrupt_report [OF assms(5,1,2,3,4)])
  have fits: "left_report aff (env u) (cs u) = report u" if "length (report u) \<le> PROC_PID_SCHED_SIZE" for u using l that by simp
  have "parse_sched_data (left_report aff (env Ping) (cs Ping)) (left_report aff (env Pong) (cs Pong)) = Inl Out_of_bounds"
    if r: "report = (\<lambda>_. report_line ''nr_switches'' (replicate 3000 (CHR ''1'')))"
  proof -
    have "left_report aff (env u) (cs u) = ''nr_switches'' @ '' : '' @ replicate 2986 (CHR ''1'')" for u
      unfolding l r report_line_def PROC_PID_SCHED_SIZE_def by (simp add: numeral_eq_Suc)
    moreover have "good_key ''nr_switches''" "good_value (replicate 2986 (CHR ''1''))"
      by (simp_all add: good_key_def good_value_def separators_def)
    ultimately show ?thesis using cut_report_overruns by metis
  qed
  moreover have "\<exists>out. parse_sched_data (left_report aff (env Ping) (cs Ping)) (left_report aff (env Pong) (cs Pong)) = Inr out"
    if "length (report Ping) \<le> PROC_PID_SCHED_SIZE" "terminated (report Ping)"
    using sched_loop_in_bounds [OF that(2)] by (simp add: parse_sched_data_def fits [OF that(1)])
  ultimately show ?thesis using fits by blast
qed

definition example_stats_env :: stats_env where
  "example_stats_env = \<lparr>se_rusage = None, se_thread_time = \<lparr>ts_sec = 0, ts_nsec = 0\<rparr>, se_tsc = 0, se_sched_open = 3,
     se_sched_read = Some (report_line ''nr_switches'' ''12'')\<rparr>"

definition example_child_stats :: child_stats where
  "example_child_stats = \<lparr>cs_rusage_req = False,
     cs_rusage = \<lparr>ru_nvcsw = 0, ru_nivcsw = 0, ru_utime = \<lparr>tv_sec = 0, tv_usec = 0\<rparr>, ru_stime = \<lparr>tv_sec = 0, tv_usec = 0\<rparr>\<rparr>,
     cs_thread_time = \<lparr>ts_sec = 0, ts_nsec = 0\<rparr>, cs_tsc = 0,
     cs_sched_data = replicate 4096 (CHR 0x00), cs_sched_data_len = 0\<rparr>"

theorem sched_report_end_to_end_witness:
  "left_report False example_stats_env example_child_stats = report_line ''nr_switches'' ''12''
   \<and> (\<exists>out. parse_sched_data (left_report False example_stats_env example_child_stats)
        (left_report False example_stats_env example_child_stats) = Inr out)"
proof -
  let ?r = "report_line ''nr_switches'' ''12''"
  have h: "se_sched_read example_stats_env = Some ?r" "CHR 0x00 \<notin> set ?r" "0 \<le> se_sched_open example_stats_env"
    "length ?r \<le> PROC_PID_SCHED_SIZE" "terminated ?r"
    by (simp_all add: example_stats_env_def report_line_def PROC_PID_SCHED_SIZE_def terminated_def)
  have z: "set (cs_sched_data example_child_stats) \<subseteq> {CHR 0x00}" "PROC_PID_SCHED_SIZE \<le> length (cs_sched_data example_child_stats)"
    by (simp_all add: example_child_stats_def PROC_PID_SCHED_SIZE_def)
  from sched_report_end_to_end [of "\<lambda>_. example_stats_env" "\<lambda>_. ?r" "\<lambda>_. example_child_stats" False Ping,
      OF h(1,2) z h(3)] h(4,5)
  show ?thesis by blast
qed

end
