(* ===== verification/Program.thy ===== *)
theory Program
  imports Mode_Options Udp_Mode Cleanup Children
begin

text \<open>
  The whole program: the operation tables of the modes that the Makefile builds, in the order it
  links them, the dispatch of the function pointers to the modelled functions, and \<^verbatim>\<open>main\<close>
  (\<^verbatim>\<open>test_process_pingpong.c\<close>) up to the monitor loop.
\<close>

section \<open>The modes\<close>

definition fn :: "string \<Rightarrow> comm_fn option" where
  "fn name = Some (Mode_fn name)"

definition comm_ops_tcp :: comm_mode_ops where
  "comm_ops_tcp = no_ops\<lparr>comm_make_pair := fn ''make_tcp_pair'', comm_ping := fn ''comm_ping_tcp'',
     comm_pong := fn ''comm_pong_tcp''\<rparr>"

definition comm_ops_udp :: comm_mode_ops where
  "comm_ops_udp = no_ops\<lparr>comm_make_pair := fn ''make_udp_pair''\<rparr>"

definition comm_ops_pipe :: comm_mode_ops where
  "comm_ops_pipe = no_ops\<lparr>comm_make_pair := fn ''pipe'', comm_pre := fn ''comm_pre_pipe'',
     comm_ping := fn ''comm_ping_pipe'', comm_pong := fn ''comm_pong_pipe'',
     comm_cleanup := fn ''comm_cleanup_pipe''\<rparr>"

definition comm_ops_socketpair :: comm_mode_ops where
  "comm_ops_socketpair = no_ops\<lparr>comm_make_pair := fn ''make_socket_pair''\<rparr>"

definition comm_ops_sem :: comm_mode_ops where
  "comm_ops_sem = no_ops\<lparr>comm_make_pair := fn ''make_sem_pair'', comm_begin := fn ''do_begin_sem'',
     comm_ping := fn ''comm_ping_sem'', comm_pong := fn ''comm_pong_sem'',
     comm_cleanup := fn ''cleanup_sem''\<rparr>"

definition comm_ops_busysem :: comm_mode_ops where
  "comm_ops_busysem = no_ops\<lparr>comm_make_pair := fn ''make_sem_pair'', comm_begin := fn ''do_begin_sem'',
     comm_ping := fn ''comm_ping_busysem'', comm_pong := fn ''comm_pong_busysem'',
     comm_cleanup := fn ''cleanup_sem''\<rparr>"

definition comm_ops_futex :: comm_mode_ops where
  "comm_ops_futex = no_ops\<lparr>comm_make_pair := fn ''make_futex_pair'', comm_do_send := fn ''do_send_futex'',
     comm_do_recv := fn ''do_recv_futex'', comm_cleanup := fn ''cleanup_futex''\<rparr>"

definition comm_ops_futex_test :: comm_mode_ops where
  "comm_ops_futex_test = no_ops\<lparr>comm_make_pair := fn ''make_futex_test_pair'', comm_ping := fn ''comm_ping_futex_test'',
     comm_pong := fn ''comm_pong_futex_test'', comm_do_send := fn ''do_send_futex_test'',
     comm_do_recv := fn ''do_recv_futex_test''\<rparr>"

definition comm_ops_mq :: comm_mode_ops where
  "comm_ops_mq = no_ops\<lparr>comm_make_pair := fn ''make_mq_pair'', comm_do_send := fn ''do_send_mq'',
     comm_do_recv := fn ''do_recv_mq'', comm_cleanup := fn ''cleanup_mq''\<rparr>"

definition comm_ops_inotify :: comm_mode_ops where
  "comm_ops_inotify = no_ops\<lparr>comm_make_pair := fn ''make_inotify_pair'', comm_ping := fn ''comm_ping_inotify'',
     comm_pong := fn ''comm_pong_inotify'', comm_cleanup := fn ''cleanup_inotify''\<rparr>"

definition comm_ops_signal :: comm_mode_ops where
  "comm_ops_signal = no_ops\<lparr>comm_make_pair := fn ''make_signal_pair'', comm_pre := fn ''do_pre_signal'',
     comm_ping := fn ''comm_ping_signal'', comm_pong := fn ''comm_pong_signal'',
     comm_cleanup := fn ''cleanup_signal''\<rparr>"

definition comm_ops_eventfd :: comm_mode_ops where
  "comm_ops_eventfd = no_ops\<lparr>comm_make_pair := fn ''make_eventfd_pair'', comm_ping := fn ''comm_ping_eventfd'',
     comm_pong := fn ''comm_pong_eventfd''\<rparr>"

definition comm_ops_spin :: comm_mode_ops where
  "comm_ops_spin = no_ops\<lparr>comm_make_pair := fn ''make_spin_pair'', comm_ping := fn ''comm_ping_spin'',
     comm_pong := fn ''comm_pong_spin'', comm_show_options := fn ''comm_spin_show_options'',
     comm_parse_options := fn ''comm_spin_parse_options'', comm_cleanup := fn ''cleanup_spin''\<rparr>"

definition comm_ops_yield :: comm_mode_ops where
  "comm_ops_yield = no_ops\<lparr>comm_make_pair := fn ''make_yield_pair'', comm_ping := fn ''comm_ping_yield'',
     comm_pong := fn ''comm_pong_yield''\<rparr>"

definition comm_ops_yield_nop :: comm_mode_ops where
  "comm_ops_yield_nop = no_ops\<lparr>comm_make_pair := fn ''make_yield_pair'', comm_ping := fn ''comm_ping_yield_nop'',
     comm_pong := fn ''comm_pong_yield_nop''\<rparr>"

definition comm_ops_race1 :: comm_mode_ops where
  "comm_ops_race1 = no_ops\<lparr>comm_make_pair := fn ''make_race_pair'', comm_ping := fn ''comm_ping_race1'',
     comm_pong := fn ''comm_pong_race1'', comm_cleanup := fn ''cleanup_race''\<rparr>"

definition comm_ops_race2 :: comm_mode_ops where
  "comm_ops_race2 = no_ops\<lparr>comm_make_pair := fn ''make_race_pair'', comm_ping := fn ''comm_ping_race2'',
     comm_pong := fn ''comm_pong_race2'', comm_cleanup := fn ''cleanup_race''\<rparr>"

definition comm_ops_nop :: comm_mode_ops where
  "comm_ops_nop = no_ops\<lparr>comm_show_options := fn ''comm_nop_show_options'', comm_parse_options := fn ''comm_nop_parse_options'',
     comm_make_pair := fn ''make_nop_pair'', comm_ping := fn ''comm_ping_nop'',
     comm_pong := fn ''comm_pong_nop'', comm_cleanup := fn ''cleanup_nop''\<rparr>"

definition comm_ops_namedpipe :: comm_mode_ops where
  "comm_ops_namedpipe = no_ops\<lparr>comm_make_pair := fn ''comm_makepair_namedpipe'', comm_ping := fn ''comm_ping_namedpipe'',
     comm_pong := fn ''comm_pong_namedpipe'', comm_cleanup := fn ''comm_cleanup_namedpipe''\<rparr>"

definition add_comm_mode :: "string \<Rightarrow> string \<Rightarrow> comm_mode_ops \<Rightarrow> comm_mode_init_info \<times> comm_mode_ops" where
  "add_comm_mode name help ops = (\<lparr>ii_name = name, ii_help_text = Some help\<rparr>, ops)"

definition built_modes :: "(comm_mode_init_info \<times> comm_mode_ops) list" where
  "built_modes =
     [add_comm_mode ''tcp'' ''TCP ping/pong'' comm_ops_tcp,
      add_comm_mode ''udp'' ''UDP ping/pong'' comm_ops_udp,
      add_comm_mode ''pipe'' ''pipe() ping/pong'' comm_ops_pipe,
      add_comm_mode ''socketpair'' ''socketpair() ping/pong'' comm_ops_socketpair,
      add_comm_mode ''sem'' ''wait on a semaphore'' comm_ops_sem,
      add_comm_mode ''busysem'' ''busy-wait on a semaphore'' comm_ops_busysem,
      add_comm_mode ''futex'' ''use futex wait/wake to benefit from kernel-arbitrated lock contention'' comm_ops_futex,
      add_comm_mode ''futex_test'' ''use futex wait/wake to benefit from kernel-arbitrated lock contention'' comm_ops_futex_test,
      add_comm_mode ''mq'' ''ping/pong via message queue'' comm_ops_mq,
      add_comm_mode ''inotify'' ''use inotify to watch for file modifications'' comm_ops_inotify,
      add_comm_mode ''signal'' ''each thread sleeps until receiving a wakeup signal from the other'' comm_ops_signal,
      add_comm_mode ''eventfd'' '''' comm_ops_eventfd,
      add_comm_mode ''spin'' ''busy-wait on a shared variable'' comm_ops_spin,
      add_comm_mode ''yield'' ''each thread calls sched_yield() until their turn to pingpong'' comm_ops_yield,
      add_comm_mode ''yield_nop'' ''only tests rate at which sched_yield() re-schedules--no pingpong'' comm_ops_yield_nop,
      add_comm_mode ''race1'' ''both threads repeatedly write their own value--no pingpong'' comm_ops_race1,
      add_comm_mode ''race2'' ''both threads repeatedly write their own value _AND_ increment the counter--no pingpong'' comm_ops_race2,
      add_comm_mode ''nop'' ''no ping/pong - first thread does various levels of nothing, second thread sleeps'' comm_ops_nop,
      add_comm_mode ''namedpipe'' ''ping/pong over named pipes'' comm_ops_namedpipe]"

section \<open>Function pointers\<close>

text \<open>The static state of all the modes, and what the system answers their pair functions.\<close>

record world =
  w_kernel :: kernel
  w_tcp :: fds_state
  w_namedpipe :: fds_state
  w_sem :: sem_state
  w_mq :: mq_state
  w_sig :: sig_state
  w_futex :: futex_state
  w_net :: net
  w_ino :: ino_state
  w_ft :: ft_state
  w_spin :: spin_state
  w_yield :: shared_state
  w_race :: shared_state
  w_nop :: nop_state

record pair_env =
  pe_tcp :: tcp_env
  pe_mkfifo :: "bool \<times> bool"
  pe_open :: "bool \<times> bool"
  pe_sem_opens :: "nat \<Rightarrow> nat option"
  pe_mq_opened :: "nat \<Rightarrow> bool"
  pe_prio_max :: int
  pe_sigrtmax :: int
  pe_ino :: "nat \<Rightarrow> ino_calls"
  pe_spin_table :: "spin_memsync list"

type_synonym pair_fun = "world \<Rightarrow> ((int \<times> int) \<times> world) res"

definition on_part :: "(world \<Rightarrow> 'a) \<Rightarrow> ('a \<Rightarrow> world \<Rightarrow> world) \<Rightarrow> ('a \<Rightarrow> ((int \<times> int) \<times> 'a) res) \<Rightarrow> pair_fun" where
  "on_part get put f w = bind_res (f (get w)) (\<lambda>(p, x). Inr (p, put x w))"

definition run_pair :: "pair_env \<Rightarrow> int \<Rightarrow> string \<Rightarrow> comm_fn \<Rightarrow> pair_fun" where
  "run_pair pe user mode_name f =
     (case f of
        Mode_fn n \<Rightarrow>
          if n = ''pipe'' then on_part w_kernel (\<lambda>x w. w\<lparr>w_kernel := x\<rparr>) make_pipe_pair
          else if n = ''make_socket_pair'' then on_part w_kernel (\<lambda>x w. w\<lparr>w_kernel := x\<rparr>) make_socket_pair
          else if n = ''make_eventfd_pair'' then on_part w_kernel (\<lambda>x w. w\<lparr>w_kernel := x\<rparr>) make_eventfd_pair
          else if n = ''make_tcp_pair'' then on_part w_tcp (\<lambda>x w. w\<lparr>w_tcp := x\<rparr>) (make_tcp_pair (pe_tcp pe) user)
          else if n = ''comm_makepair_namedpipe'' then
            on_part w_namedpipe (\<lambda>x w. w\<lparr>w_namedpipe := x\<rparr>) (comm_makepair_namedpipe (pe_mkfifo pe) (pe_open pe))
          else if n = ''make_sem_pair'' then
            on_part w_sem (\<lambda>x w. w\<lparr>w_sem := x\<rparr>) (make_sem_pair mode_name (pe_sem_opens pe))
          else if n = ''make_mq_pair'' then
            on_part w_mq (\<lambda>x w. w\<lparr>w_mq := x\<rparr>) (make_mq_pair (pe_mq_opened pe) (pe_prio_max pe))
          else if n = ''make_signal_pair'' then
            on_part w_sig (\<lambda>x w. w\<lparr>w_sig := x\<rparr>) (make_signal_pair (pe_sigrtmax pe))
          else if n = ''make_futex_pair'' then on_part w_futex (\<lambda>x w. w\<lparr>w_futex := x\<rparr>) make_futex_pair
          else if n = ''make_spin_pair'' then
            on_part w_spin (\<lambda>x w. w\<lparr>w_spin := x\<rparr>) (make_spin_pair (pe_spin_table pe))
          else if n = ''make_yield_pair'' then
            on_part w_yield (\<lambda>x w. w\<lparr>w_yield := x\<rparr>) (\<lambda>x. Inr (make_yield_pair mode_name x))
          else if n = ''make_race_pair'' then
            on_part w_race (\<lambda>x w. w\<lparr>w_race := x\<rparr>) (\<lambda>x. Inr (make_race_pair x))
          else if n = ''make_nop_pair'' then
            on_part w_nop (\<lambda>x w. w\<lparr>w_nop := x\<rparr>) (\<lambda>x. Inr (make_nop_pair x))
          else if n = ''make_udp_pair'' then on_part w_net (\<lambda>x w. w\<lparr>w_net := x\<rparr>) make_udp_pair
          else if n = ''make_inotify_pair'' then
            on_part w_ino (\<lambda>x w. w\<lparr>w_ino := x\<rparr>) (make_inotify_pair (pe_ino pe))
          else if n = ''make_futex_test_pair'' then on_part w_ft (\<lambda>x w. w\<lparr>w_ft := x\<rparr>) make_futex_test_pair
          else (\<lambda>_. Inl Unspecified)
      | _ \<Rightarrow> (\<lambda>_. Inl Unspecified))"

text \<open>The option parser of the chosen mode.\<close>

definition run_parse_options :: "pair_env \<Rightarrow> comm_registry \<Rightarrow> int \<Rightarrow> string \<Rightarrow> world \<Rightarrow> world res" where
  "run_parse_options pe reg idx str w =
     bind_res (aget (reg_array reg) idx) (\<lambda>e.
       if comm_parse_options (mi_ops e) = fn ''comm_spin_parse_options'' then
         bind_res (comm_spin_parse_options (pe_spin_table pe) str (w_spin w)) (\<lambda>x. Inr (w\<lparr>w_spin := x\<rparr>))
       else if comm_parse_options (mi_ops e) = fn ''comm_nop_parse_options'' then
         bind_res (comm_nop_parse_options str) (\<lambda>v. Inr (w\<lparr>w_nop := (w_nop w)\<lparr>nop_variety := v\<rparr>\<rparr>))
       else if comm_parse_options (mi_ops e) = Some F_comm_parse_no_options then Inr w
       else Inl Null_pointer)"

section \<open>main\<close>

text \<open>What the system answers during the startup, in the order in which it is asked.\<close>

record main_env =
  me_sys :: sys_env
  me_strtod :: "string \<Rightarrow> long_double"
  me_round :: "rat \<Rightarrow> rat"
  me_pairs :: pair_env
  me_mhz :: rat
  me_run_data_size :: "32 word"
  me_start :: start_env

definition main :: "main_env \<Rightarrow> cmd_opt list \<times> string list \<Rightarrow> world \<Rightarrow> (config \<times> world \<times> life) res" where
  "main env args w0 =
     bind_res (run_constructors built_modes initial_registry) (\<lambda>reg.
     bind_res (comm_mode_verify_all reg) (\<lambda>ret.
     if \<not> ret then Inl (Exit_fail ''failed to initialize all modules'') else
     bind_res (setup_defaults (me_sys env) zero_config) (\<lambda>c0.
     bind_res (parse_opts (me_round env) (me_strtod env) reg (run_parse_options (me_pairs env) reg) args (c0, w0)) (\<lambda>(c1, w1).
     bind_res (get_comm_mode_name (comm_mode_index c1) reg) (\<lambda>name.
     bind_res (do_comm_setup (me_mhz env) reg
         (run_pair (me_pairs env) (uid c1) (case name of None \<Rightarrow> [] | Some n \<Rightarrow> n))
         (me_run_data_size env) (c1, w1)) (\<lambda>(c2, w2, len, call).
     bind_res (start_threads (thread_mode c2) (me_start env)) (\<lambda>s0.
       Inr (c2, w2, s0))))))))"

text \<open>
  What the life of the run takes from the configuration. The cleanup functions of the two pipe modes
  exit the process; those of all others return.
\<close>

definition cleanup_exits :: "comm_fn option \<Rightarrow> bool" where
  "cleanup_exits f \<longleftrightarrow> f = fn ''comm_cleanup_pipe'' \<or> f = fn ''comm_cleanup_namedpipe''"

definition run_cfg :: "config \<Rightarrow> life_cfg" where
  "run_cfg c = \<lparr>lc_interval = stats_interval c, lc_runtime = runtime c,
     lc_cleanup_exits = cleanup_exits (comm_cleanup (cfg_ops c))\<rparr>"

section \<open>The registry of the program\<close>

lemmas comm_ops_defs = comm_ops_tcp_def comm_ops_udp_def comm_ops_pipe_def comm_ops_socketpair_def comm_ops_sem_def comm_ops_busysem_def comm_ops_futex_def comm_ops_futex_test_def comm_ops_mq_def comm_ops_inotify_def comm_ops_signal_def comm_ops_eventfd_def comm_ops_spin_def comm_ops_yield_def comm_ops_yield_nop_def comm_ops_race1_def comm_ops_race2_def comm_ops_nop_def comm_ops_namedpipe_def

lemma built_names:
  "map (ii_name \<circ> fst) built_modes =
     [''tcp'', ''udp'', ''pipe'', ''socketpair'', ''sem'', ''busysem'', ''futex'', ''futex_test'', ''mq'', ''inotify'', ''signal'', ''eventfd'', ''spin'', ''yield'', ''yield_nop'', ''race1'', ''race2'', ''nop'', ''namedpipe'']"
  by (simp add: built_modes_def add_comm_mode_def)

lemma built_distinct: "distinct (map (ii_name \<circ> fst) built_modes)"
  unfolding built_names by simp

lemma built_make_pair: "m \<in> set built_modes \<Longrightarrow> \<exists>n. comm_make_pair (snd m) = fn n"
  by (auto simp: built_modes_def add_comm_mode_def comm_ops_defs fn_def)

text \<open>The registry after the constructors, and what its slots hold.\<close>

lemma built_registry:
  "\<exists>reg. run_constructors built_modes initial_registry = Inr reg \<and> reg_ok reg
     \<and> mode_view reg = map mode_abs built_modes \<and> comm_mode_verify_all reg = Inr True"
  using run_constructors_ok [OF built_distinct] by (auto simp: verify_all_view mode_abs_def)

lemma slot_of_mode:
  assumes "reg_ok reg" "mode_view reg = map mode_abs ms" "aget (reg_array reg) i = Inr e"
  shows "(\<exists>k < length ms. i = int k \<and> mi_ops e = fill_ops (snd (ms ! k))
            \<and> get_comm_mode_name i reg = Inr (Some (ii_name (fst (ms ! k))))) \<or> mi_ops e = no_ops"
proof -
  obtain k where k: "reg_array reg = entries reg @ replicate k zero_info"
    using assms(1) by (auto simp: reg_ok_def)
  have i: "0 \<le> i" "nat i < length (reg_array reg)" "e = reg_array reg ! nat i"
    using assms(3) by (auto simp: aget_Inr_iff)
  show ?thesis
  proof (cases "nat i < length (entries reg)")
    case True
    then have e: "e = entries reg ! nat i" using i k by (simp add: nth_append)
    have l: "length (entries reg) = length ms" using arg_cong [OF assms(2), of length] by (simp add: mode_view_def)
    have v: "mode_view reg ! nat i = mode_abs (ms ! nat i)" using assms(2) True l by simp
    then have "mi_ops e = fill_ops (snd (ms ! nat i))" using True e by (simp add: mode_view_def mode_abs_def)
    moreover have "get_comm_mode_name (int (nat i)) reg = Inr (Some (ii_name (fst (ms ! nat i))))"
      using get_name_view [OF assms(1), of "nat i"] True v by (simp add: mode_view_def mode_abs_def)
    ultimately show ?thesis using True l i(1) by auto
  next
    case False
    then have "e = zero_info" using i k by (simp add: nth_append)
    then show ?thesis by (simp add: zero_info_def)
  qed
qed

section \<open>What main does\<close>

lemma make_pairs_on_part:
  assumes "make_pairs (on_part get put f) w = Inr (wi, w')" "\<And>x w. get (put x w) = x"
  shows "make_pairs f (get w) = Inr (wi, get w')"
  using assms by (auto simp: make_pairs_def on_part_def bind_res_Inr_iff)

text \<open>The option parsers choose the method of the spin and the nop mode and touch nothing else.\<close>

definition same_objects :: "world \<Rightarrow> world \<Rightarrow> bool" where
  "same_objects w w' \<longleftrightarrow> w_kernel w' = w_kernel w \<and> w_tcp w' = w_tcp w \<and> w_namedpipe w' = w_namedpipe w
     \<and> w_sem w' = w_sem w \<and> w_mq w' = w_mq w \<and> w_sig w' = w_sig w \<and> w_futex w' = w_futex w
     \<and> w_net w' = w_net w \<and> w_yield w' = w_yield w \<and> spin_shared (w_spin w') = spin_shared (w_spin w)"

lemma spin_options_shared:
  "comm_spin_parse_options table str st = Inr st' \<Longrightarrow> spin_shared st' = spin_shared st"
  by (auto simp: comm_spin_parse_options_def select_methods_def bind_res_Inr_iff Let_def split: prod.splits if_splits)

lemma parse_options_objects: "run_parse_options pe reg i str w = Inr w' \<Longrightarrow> same_objects w w'"
  by (auto simp: run_parse_options_def same_objects_def bind_res_Inr_iff spin_options_shared split: if_splits)

text \<open>
  A startup that succeeds has installed one of the built modes, wired by its own pair function on
  objects that the command line has not touched, and has started the threads.
\<close>

lemma main_ran:
  assumes "main env args w0 = Inr (c, w, s0)"
  obtains m w1 user f sh po where "m \<in> set built_modes" "comm_make_pair (snd m) = Some f"
    "cfg_ops c = (fill_ops (snd m))\<lparr>comm_show_options := sh, comm_parse_options := po\<rparr>"
    "same_objects w0 w1"
    "make_pairs (run_pair (me_pairs env) user (ii_name (fst m)) f) w1 = Inr (wires c, w)"
    "start_threads (thread_mode c) (me_start env) = Inr s0"
proof -
  obtain reg where reg: "run_constructors built_modes initial_registry = Inr reg" "reg_ok reg"
    "mode_view reg = map mode_abs built_modes" "comm_mode_verify_all reg = Inr True"
    using built_registry by blast
  obtain c0 c1 w1 name len call where
    p: "parse_opts (me_round env) (me_strtod env) reg (run_parse_options (me_pairs env) reg) args (c0, w0) = Inr (c1, w1)"
    and n: "get_comm_mode_name (comm_mode_index c1) reg = Inr name"
    and d: "do_comm_setup (me_mhz env) reg (run_pair (me_pairs env) (uid c1)
        (case name of None \<Rightarrow> [] | Some n \<Rightarrow> n)) (me_run_data_size env) (c1, w1) = Inr (c, w, len, call)"
    and st: "start_threads (thread_mode c) (me_start env) = Inr s0"
    using assms by (auto simp: main_def reg bind_res_Inr_iff)
  have k: "same_objects w0 w1"
    using p parse_options_objects
    by (fastforce simp: parse_opts_def bind_res_Inr_iff same_objects_def split: option.splits)
  obtain e where e: "aget (reg_array reg) (comm_mode_index c1) = Inr e"
    and ops: "cfg_ops c = (mi_ops e)\<lparr>comm_show_options := comm_show_options (cfg_ops c1),
      comm_parse_options := comm_parse_options (cfg_ops c1)\<rparr>"
    and mp: "make_pairs (case comm_make_pair (mi_ops e) of None \<Rightarrow> \<lambda>_. Inl Null_pointer
        | Some f \<Rightarrow> run_pair (me_pairs env) (uid c1) (case name of None \<Rightarrow> [] | Some n \<Rightarrow> n) f) w1
      = Inr (wires c, w)"
    using d by (auto simp: do_comm_setup_def bind_res_Inr_iff Let_def)
  obtain f where f: "comm_make_pair (mi_ops e) = Some f"
    using mp by (cases "comm_make_pair (mi_ops e)") (auto simp: make_pairs_def)
  obtain i where i: "i < length built_modes" "mi_ops e = fill_ops (snd (built_modes ! i))"
    "name = Some (ii_name (fst (built_modes ! i)))"
    using slot_of_mode [OF reg(2,3) e] f n by (auto simp: no_ops_def)
  show thesis
    using that [OF nth_mem [OF i(1)] _ ops [unfolded i(2)] k _ st, of f] f i(2,3) mp by (simp add: fill_ops_def)
qed

text \<open>Selecting a mode by its name, with nothing else on the command line.\<close>

lemma main_by_name:
  assumes "i < length built_modes" "setup_defaults (me_sys env) zero_config = Inr c0"
    "comm_make_pair (snd (built_modes ! i)) = Some f"
    "make_pairs (run_pair (me_pairs env) (env_uid (me_sys env)) (ii_name (fst (built_modes ! i))) f) w0
       = Inr (wi, w)"
    "start_threads Thread_thread (me_start env) = Inr s0"
  shows "\<exists>c. main env ([Short (CHR ''m'') (Some (ii_name (fst (built_modes ! i))))], []) w0 = Inr (c, w, s0)
    \<and> comm_mode_index c = int i \<and> wires c = wi \<and> comm_make_pair (cfg_ops c) = Some f
    \<and> comm_ping (cfg_ops c) = comm_ping (fill_ops (snd (built_modes ! i))) \<and> thread_mode c = Thread_thread"
proof -
  obtain reg where reg: "run_constructors built_modes initial_registry = Inr reg"
    "reg_ok reg" "mode_view reg = map mode_abs built_modes" "comm_mode_verify_all reg = Inr True"
    using built_registry by blast
  note b = built_entry [OF built_distinct reg(1) assms(1)]
  obtain e where e: "aget (reg_array reg) (int i) = Inr e" "mi_ops e = fill_ops (snd (built_modes ! i))"
    using b(1) by blast
  have n: "get_comm_mode_name (int i) reg = Inr (Some (ii_name (fst (built_modes ! i))))"
    using get_name_view [OF reg(2), of i] assms(1) reg(3) by (simp add: mode_abs_def)
  have c: "thread_mode c0 = Thread_thread" "uid c0 = env_uid (me_sys env)"
    using assms(2) by (auto simp: setup_defaults_def bind_res_Inr_iff)
  have mp: "comm_make_pair (fill_ops (snd (built_modes ! i))) = Some f" using assms(3) by (simp add: fill_ops_def)
  show ?thesis
    using reg assms(2,4,5) c
    by (simp add: main_def parse_opts_def opt_step_mode b(2) set_cpus_def n do_comm_setup_def e mp Let_def)
qed

section \<open>The loops that are installed\<close>

text \<open>
  What it means that the operations of the configuration pass a turn: they are the loops of one
  mode, with the pair function and the send, receive and begin functions that belong to them, and on what
  the setup made (the wiring, the static state of the mode, the process ids of the children) the
  loops alternate and can always go on. The futex mode can lose a wakeup and only alternates.
\<close>

definition passes_turn :: "comm_mode_ops \<Rightarrow> int \<times> int \<Rightarrow> wiring \<Rightarrow> world \<Rightarrow> bool" where
  "passes_turn ops pids wi w =
     (let loops = (child_loop ops Ping, child_loop ops Pong);
          generic = (Some F_comm_ping_generic, Some F_comm_pong_generic);
          calls = (comm_do_send ops, comm_do_recv ops);
          std = (Some F_comm_do_send_generic, Some F_comm_do_recv_generic);
          mk = comm_make_pair ops
      in if mk = fn ''pipe'' then loops = (fn ''comm_ping_pipe'', fn ''comm_pong_pipe'')
            \<and> correct Send_first (pipe_ops wi) \<lparr>kern = w_kernel w, dummy = (\<lambda>_. CHR ''X'')\<rparr>
         else if mk = fn ''make_socket_pair'' then loops = generic \<and> calls = std
            \<and> correct Send_first (generic_ops comm_do_send_generic comm_do_recv_generic wi) (w_kernel w)
         else if mk = fn ''make_eventfd_pair'' then loops = (fn ''comm_ping_eventfd'', fn ''comm_pong_eventfd'')
            \<and> correct Send_first (eventfd_ops wi) (w_kernel w)
         else if mk = fn ''make_tcp_pair'' then loops = (fn ''comm_ping_tcp'', fn ''comm_pong_tcp'')
            \<and> correct Send_first (tcp_ops (fs_fds (w_tcp w))) \<lparr>kern = fs_kernel (w_tcp w), dummy = (\<lambda>_. CHR ''X'')\<rparr>
         else if mk = fn ''make_udp_pair'' then loops = generic \<and> calls = std \<and> correct Send_first (udp_ops wi) (w_net w)
         else if mk = fn ''comm_makepair_namedpipe'' then loops = (fn ''comm_ping_namedpipe'', fn ''comm_pong_namedpipe'')
            \<and> (\<forall>x. correct Send_first (namedpipe_ops (fs_fds (w_namedpipe w)))
                  \<lparr>kern = fs_kernel (w_namedpipe w), dummy = (\<lambda>t. if t = Ping then CHR ''X'' else x)\<rparr>)
         else if mk = fn ''make_sem_pair'' then comm_begin ops = fn ''do_begin_sem''
            \<and> (if loops = (fn ''comm_ping_sem'', fn ''comm_pong_sem'')
               then correct Wait_first sem_ops (snd (do_begin_sem Done (sem_value (w_sem w))))
               else loops = (fn ''comm_ping_busysem'', fn ''comm_pong_busysem'')
                 \<and> correct Wait_first busysem_ops (snd (do_begin_sem Done (sem_value (w_sem w)))))
         else if mk = fn ''make_mq_pair'' then loops = generic \<and> calls = (fn ''do_send_mq'', fn ''do_recv_mq'')
            \<and> correct Send_first (generic_ops do_send_mq do_recv_mq wi) (w_mq w)
         else if mk = fn ''make_signal_pair'' then loops = (fn ''comm_ping_signal'', fn ''comm_pong_signal'')
            \<and> comm_pre ops = fn ''do_pre_signal'' \<and> correct Send_first (signal_ops pids) (w_sig w)
         else if mk = fn ''make_futex_pair'' then loops = generic \<and> calls = (fn ''do_send_futex'', fn ''do_recv_futex'')
            \<and> alternates Send_first (generic_ops (do_send_futex False) (do_recv_futex False) wi) (w_futex w)
         else if mk = fn ''make_inotify_pair'' then loops = (fn ''comm_ping_inotify'', fn ''comm_pong_inotify'')
            \<and> correct Send_first inotify_ops (\<lambda>_. [])
         else if mk = fn ''make_spin_pair'' then loops = (fn ''comm_ping_spin'', fn ''comm_pong_spin'')
            \<and> (\<exists>v. shared_var (spin_shared (w_spin w)) = Some v \<and> correct Send_first spin_ops v)
         else if mk = fn ''make_yield_pair'' then loops = (fn ''comm_ping_yield'', fn ''comm_pong_yield'')
            \<and> (\<exists>v. shared_var (w_yield w) = Some v \<and> correct Send_first yield_ops v)
         else False)"

text \<open>The modes that do not pass a turn: four of them mean not to, the fifth never gets through.\<close>

definition no_turn_modes :: "string list" where
  "no_turn_modes = [''yield_nop'', ''race1'', ''race2'', ''nop'', ''futex_test'']"

text \<open>The state of the modes before the setup, on a system with space in its queues.\<close>

definition fresh :: "world \<Rightarrow> bool" where
  "fresh w \<longleftrightarrow> 1 \<le> k_cap (w_kernel w)
     \<and> fs_num (w_tcp w) = 0 \<and> 1 \<le> k_cap (fs_kernel (w_tcp w))
     \<and> fs_num (w_namedpipe w) = 0 \<and> 1 \<le> k_cap (fs_kernel (w_namedpipe w))
     \<and> w_sem w = sem_initial
     \<and> mq_num (w_mq w) = 0 \<and> mq_queue (w_mq w) = (\<lambda>_. None)
     \<and> sig_num (w_sig w) = 0 \<and> pending (w_sig w) = (\<lambda>_ _. False)
     \<and> futex_num (w_futex w) = 0 \<and> f_wait (w_futex w) = (\<lambda>_. Awake) \<and> f_stored (w_futex w) = (\<lambda>_. False)
     \<and> 1 \<le> n_rcvbuf (w_net w) \<and> 0 < n_next_port (w_net w)
     \<and> w_yield w = shared_initial \<and> spin_shared (w_spin w) = shared_initial"

lemma fresh_same: "same_objects w w' \<Longrightarrow> fresh w \<Longrightarrow> fresh w'"
  by (simp add: same_objects_def fresh_def)

text \<open>The pair function of a mode on its own part of the world.\<close>

lemma pair_parts:
  assumes "make_pairs (run_pair pe user name (Mode_fn n)) w = Inr (wi, w')"
  shows "n = ''pipe'' \<Longrightarrow> make_pairs make_pipe_pair (w_kernel w) = Inr (wi, w_kernel w')"
    and "n = ''make_socket_pair'' \<Longrightarrow> make_pairs make_socket_pair (w_kernel w) = Inr (wi, w_kernel w')"
    and "n = ''make_eventfd_pair'' \<Longrightarrow> make_pairs make_eventfd_pair (w_kernel w) = Inr (wi, w_kernel w')"
    and "n = ''make_tcp_pair'' \<Longrightarrow> make_pairs (make_tcp_pair (pe_tcp pe) user) (w_tcp w) = Inr (wi, w_tcp w')"
    and "n = ''comm_makepair_namedpipe'' \<Longrightarrow>
      make_pairs (comm_makepair_namedpipe (pe_mkfifo pe) (pe_open pe)) (w_namedpipe w) = Inr (wi, w_namedpipe w')"
    and "n = ''make_sem_pair'' \<Longrightarrow> make_pairs (make_sem_pair name (pe_sem_opens pe)) (w_sem w) = Inr (wi, w_sem w')"
    and "n = ''make_mq_pair'' \<Longrightarrow> make_pairs (make_mq_pair (pe_mq_opened pe) (pe_prio_max pe)) (w_mq w) = Inr (wi, w_mq w')"
    and "n = ''make_signal_pair'' \<Longrightarrow> make_pairs (make_signal_pair (pe_sigrtmax pe)) (w_sig w) = Inr (wi, w_sig w')"
    and "n = ''make_futex_pair'' \<Longrightarrow> make_pairs make_futex_pair (w_futex w) = Inr (wi, w_futex w')"
    and "n = ''make_spin_pair'' \<Longrightarrow> make_pairs (make_spin_pair (pe_spin_table pe)) (w_spin w) = Inr (wi, w_spin w')"
    and "n = ''make_yield_pair'' \<Longrightarrow> make_pairs (\<lambda>x. Inr (make_yield_pair name x)) (w_yield w) = Inr (wi, w_yield w')"
    and "n = ''make_udp_pair'' \<Longrightarrow> make_pairs make_udp_pair (w_net w) = Inr (wi, w_net w')"
  using assms by (auto simp: run_pair_def dest!: make_pairs_on_part)

lemma spin_pairs_var:
  assumes "make_pairs (make_spin_pair table) st = Inr (wi, st')" "spin_shared st = shared_initial"
  shows "shared_var (spin_shared st') = Some 0"
  using assms by (auto simp: make_pairs_def make_spin_pair_def spin_default_def select_methods_def shared_initial_def
      bind_res_Inr_iff Let_def split: if_splits)

lemma yield_pairs_var:
  assumes "make_pairs (\<lambda>x. Inr (make_yield_pair ''yield'' x)) shared_initial = Inr (wi, s')"
  shows "shared_var s' = Some 0"
  using assms by (auto simp: make_pairs_def make_yield_pair_def shared_initial_def strncmp_eq_def Let_def)

lemma namedpipe_made:
  assumes "make_pairs (comm_makepair_namedpipe a b) s = Inr r" "fs_num s = 0"
  shows "a = (False, False)"
  using assms by (cases a) (auto simp: make_pairs_def comm_makepair_namedpipe_def bind_res_Inr_iff
      split: if_splits)

lemma passes_turn_simps:
  "passes_turn (fill_ops comm_ops_tcp\<lparr>comm_show_options := sh, comm_parse_options := po\<rparr>) pids wi w \<longleftrightarrow>
     correct Send_first (tcp_ops (fs_fds (w_tcp w))) \<lparr>kern = fs_kernel (w_tcp w), dummy = (\<lambda>_. CHR ''X'')\<rparr>"
  "passes_turn (fill_ops comm_ops_udp\<lparr>comm_show_options := sh, comm_parse_options := po\<rparr>) pids wi w \<longleftrightarrow>
     correct Send_first (udp_ops wi) (w_net w)"
  "passes_turn (fill_ops comm_ops_pipe\<lparr>comm_show_options := sh, comm_parse_options := po\<rparr>) pids wi w \<longleftrightarrow>
     correct Send_first (pipe_ops wi) \<lparr>kern = w_kernel w, dummy = (\<lambda>_. CHR ''X'')\<rparr>"
  "passes_turn (fill_ops comm_ops_socketpair\<lparr>comm_show_options := sh, comm_parse_options := po\<rparr>) pids wi w \<longleftrightarrow>
     correct Send_first (generic_ops comm_do_send_generic comm_do_recv_generic wi) (w_kernel w)"
  "passes_turn (fill_ops comm_ops_sem\<lparr>comm_show_options := sh, comm_parse_options := po\<rparr>) pids wi w \<longleftrightarrow>
     correct Wait_first sem_ops (snd (do_begin_sem Done (sem_value (w_sem w))))"
  "passes_turn (fill_ops comm_ops_busysem\<lparr>comm_show_options := sh, comm_parse_options := po\<rparr>) pids wi w \<longleftrightarrow>
     correct Wait_first busysem_ops (snd (do_begin_sem Done (sem_value (w_sem w))))"
  "passes_turn (fill_ops comm_ops_futex\<lparr>comm_show_options := sh, comm_parse_options := po\<rparr>) pids wi w \<longleftrightarrow>
     alternates Send_first (generic_ops (do_send_futex False) (do_recv_futex False) wi) (w_futex w)"
  "passes_turn (fill_ops comm_ops_mq\<lparr>comm_show_options := sh, comm_parse_options := po\<rparr>) pids wi w \<longleftrightarrow>
     correct Send_first (generic_ops do_send_mq do_recv_mq wi) (w_mq w)"
  "passes_turn (fill_ops comm_ops_inotify\<lparr>comm_show_options := sh, comm_parse_options := po\<rparr>) pids wi w \<longleftrightarrow>
     correct Send_first inotify_ops (\<lambda>_. [])"
  "passes_turn (fill_ops comm_ops_signal\<lparr>comm_show_options := sh, comm_parse_options := po\<rparr>) pids wi w \<longleftrightarrow>
     correct Send_first (signal_ops pids) (w_sig w)"
  "passes_turn (fill_ops comm_ops_eventfd\<lparr>comm_show_options := sh, comm_parse_options := po\<rparr>) pids wi w \<longleftrightarrow>
     correct Send_first (eventfd_ops wi) (w_kernel w)"
  "passes_turn (fill_ops comm_ops_spin\<lparr>comm_show_options := sh, comm_parse_options := po\<rparr>) pids wi w \<longleftrightarrow>
     (\<exists>v. shared_var (spin_shared (w_spin w)) = Some v \<and> correct Send_first spin_ops v)"
  "passes_turn (fill_ops comm_ops_yield\<lparr>comm_show_options := sh, comm_parse_options := po\<rparr>) pids wi w \<longleftrightarrow>
     (\<exists>v. shared_var (w_yield w) = Some v \<and> correct Send_first yield_ops v)"
  "passes_turn (fill_ops comm_ops_namedpipe\<lparr>comm_show_options := sh, comm_parse_options := po\<rparr>) pids wi w \<longleftrightarrow>
     (\<forall>x. correct Send_first (namedpipe_ops (fs_fds (w_namedpipe w)))
        \<lparr>kern = fs_kernel (w_namedpipe w), dummy = (\<lambda>t. if t = Ping then CHR ''X'' else x)\<rparr>)"
  by (simp_all add: passes_turn_def child_loop_def comm_ops_defs fill_ops_def no_ops_def or_default_def fn_def)

lemma turn_modes:
  assumes "m \<in> set built_modes" "ii_name (fst m) \<notin> set no_turn_modes"
  shows "snd m \<in> set [comm_ops_tcp, comm_ops_udp, comm_ops_pipe, comm_ops_socketpair, comm_ops_sem, comm_ops_busysem,
      comm_ops_futex, comm_ops_mq, comm_ops_inotify, comm_ops_signal, comm_ops_eventfd, comm_ops_spin, comm_ops_namedpipe]
    \<or> snd m = comm_ops_yield \<and> ii_name (fst m) = ''yield''"
  using assms by (auto simp: built_modes_def add_comm_mode_def no_turn_modes_def)

lemma pair_names:
  "comm_make_pair comm_ops_tcp = fn ''make_tcp_pair''" "comm_make_pair comm_ops_udp = fn ''make_udp_pair''"
  "comm_make_pair comm_ops_pipe = fn ''pipe''" "comm_make_pair comm_ops_socketpair = fn ''make_socket_pair''"
  "comm_make_pair comm_ops_sem = fn ''make_sem_pair''" "comm_make_pair comm_ops_busysem = fn ''make_sem_pair''"
  "comm_make_pair comm_ops_futex = fn ''make_futex_pair''" "comm_make_pair comm_ops_mq = fn ''make_mq_pair''"
  "comm_make_pair comm_ops_signal = fn ''make_signal_pair''" "comm_make_pair comm_ops_eventfd = fn ''make_eventfd_pair''"
  "comm_make_pair comm_ops_spin = fn ''make_spin_pair''" "comm_make_pair comm_ops_yield = fn ''make_yield_pair''"
  "comm_make_pair comm_ops_namedpipe = fn ''comm_makepair_namedpipe''"
  by (simp_all add: comm_ops_defs)

lemma no_turn_loops_all:
  "list_all (\<lambda>m. ii_name (fst m) \<in> set no_turn_modes
     \<longleftrightarrow> comm_ping (fill_ops (snd m)) \<in> set (map (\<lambda>n. fn (''comm_ping_'' @ n)) no_turn_modes)) built_modes"
  by (simp add: built_modes_def add_comm_mode_def comm_ops_defs fn_def fill_ops_def no_ops_def
      or_default_def no_turn_modes_def)

lemmas no_turn_loops = no_turn_loops_all [unfolded list_all_iff, THEN bspec]

lemma built_passes:
  assumes m: "m \<in> set built_modes" "ii_name (fst m) \<notin> set no_turn_modes" "comm_make_pair (snd m) = fn n"
    and mp: "make_pairs (run_pair pe user (ii_name (fst m)) (Mode_fn n)) w = Inr (wi, w')" and w: "fresh w"
    and sems: "pe_sem_opens pe = (\<lambda>_. Some 0)" and opens: "pe_open pe = (False, False)"
    and pids: "0 < p" "0 < q" "p \<noteq> q"
  shows "passes_turn ((fill_ops (snd m))\<lparr>comm_show_options := sh, comm_parse_options := po\<rparr>) (p, q) wi w'"
proof -
  note new = w [unfolded fresh_def]
  note part = pair_parts [OF mp]
  have shared: "correct Send_first spin_ops 0" "correct Send_first yield_ops 0" "correct Send_first inotify_ops (\<lambda>_. [])"
    using spin.alternates_from spin.progresses_from yield.alternates_from yield.progresses_from
      inotify.alternates_from inotify.progresses_from by (simp_all add: correct_def spin_rep_def ino_rep_def)
  have kern: "n = ''pipe'' \<Longrightarrow> correct Send_first (pipe_ops wi) \<lparr>kern = w_kernel w', dummy = (\<lambda>_. CHR ''X'')\<rparr>"
    "n = ''make_socket_pair'' \<Longrightarrow> correct Send_first (generic_ops comm_do_send_generic comm_do_recv_generic wi) (w_kernel w')"
    "n = ''make_eventfd_pair'' \<Longrightarrow> correct Send_first (eventfd_ops wi) (w_kernel w')"
    using pipe_runs [OF part(1)] socketpair_runs [OF part(2)] eventfd_runs [OF part(3)] new by (simp_all add: correct_def)
  have fds: "n = ''make_tcp_pair'' \<Longrightarrow>
      correct Send_first (tcp_ops (fs_fds (w_tcp w'))) \<lparr>kern = fs_kernel (w_tcp w'), dummy = (\<lambda>_. CHR ''X'')\<rparr>"
    "n = ''make_udp_pair'' \<Longrightarrow> correct Send_first (udp_ops wi) (w_net w')"
    using tcp_runs [of "w_tcp w" "pe_tcp pe" user] part(4) udp_runs [OF part(12)] new by (simp_all add: correct_def)
  have fifo: "n = ''comm_makepair_namedpipe'' \<Longrightarrow> correct Send_first (namedpipe_ops (fs_fds (w_namedpipe w')))
      \<lparr>kern = fs_kernel (w_namedpipe w'), dummy = (\<lambda>t. if t = Ping then CHR ''X'' else x)\<rparr>" for x
    using namedpipe_runs [of "w_namedpipe w" wi "w_namedpipe w'" x] namedpipe_made [OF part(5)] part(5) opens new
    by (simp add: correct_def)
  have sync: "n = ''make_mq_pair'' \<Longrightarrow> correct Send_first (generic_ops do_send_mq do_recv_mq wi) (w_mq w')"
    "n = ''make_signal_pair'' \<Longrightarrow> correct Send_first (signal_ops (p, q)) (w_sig w')"
    "n = ''make_futex_pair'' \<Longrightarrow> alternates Send_first (generic_ops (do_send_futex False) (do_recv_futex False) wi) (w_futex w')"
    using mq_runs [OF part(7)] signal_runs [OF part(8)] futex_runs [OF part(9)] pids new by (simp_all add: correct_def)
  have sem: "correct Wait_first sem_ops (snd (do_begin_sem Done (sem_value (w_sem w'))))"
    "correct Wait_first busysem_ops (snd (do_begin_sem Done (sem_value (w_sem w'))))" if "n = ''make_sem_pair''"
    using sem_runs [of "ii_name (fst m)" 0 wi "w_sem w'"] part(6) [OF that] new sems by (simp_all add: correct_def)
  have var: "n = ''make_spin_pair'' \<Longrightarrow> shared_var (spin_shared (w_spin w')) = Some 0"
    "n = ''make_yield_pair'' \<Longrightarrow> ii_name (fst m) = ''yield'' \<Longrightarrow> shared_var (w_yield w') = Some 0"
    using spin_pairs_var [OF part(10)] yield_pairs_var [of wi "w_yield w'"] part(11) new by simp_all
  from turn_modes [OF m(1,2)] m(3) show ?thesis
    using shared kern fds fifo sync sem var
    by (simp only: list.set insert_iff empty_iff)
      (elim disjE conjE; simp add: passes_turn_simps pair_names fn_def)
qed

lemma built_cleanups_all:
  "list_all (\<lambda>m. cleanup_exits (comm_cleanup (fill_ops (snd m)))
     \<longleftrightarrow> comm_make_pair (snd m) = fn ''pipe'' \<or> comm_make_pair (snd m) = fn ''comm_makepair_namedpipe'') built_modes"
  by (simp add: built_modes_def add_comm_mode_def comm_ops_defs fn_def fill_ops_def no_ops_def
      or_default_def cleanup_exits_def)

lemmas built_cleanups = built_cleanups_all [unfolded list_all_iff, THEN bspec]

section \<open>A run for the examples\<close>

text \<open>A system on which every call succeeds, and the state of the modes before \<^verbatim>\<open>main\<close>.\<close>

definition all_well :: main_env where
  "all_well =
     \<lparr>me_sys = \<lparr>env_uid = 1000, env_gid = 1000, env_euid = 1000, env_egid = 1000, env_nproc_conf = 4, env_nproc_onln = 4, env_min_stack = 16384\<rparr>,
      me_strtod = (\<lambda>_. Fin 1), me_round = (\<lambda>x. x),
      me_pairs = \<lparr>pe_tcp = \<lparr>fails_getaddrinfo = False, fails_listen_socket = False, fails_reuseaddr = False,
          fails_bind = False, fails_listen = False, fails_socket = False, fails_connect = False,
          fails_accept = False, fails_nodelay = False, fails_quickack = False\<rparr>,
        pe_mkfifo = (False, False), pe_open = (False, False), pe_sem_opens = (\<lambda>_. Some 0),
        pe_mq_opened = (\<lambda>_. True), pe_prio_max = 32768, pe_sigrtmax = 64,
        pe_ino = (\<lambda>i. \<lparr>res_init = 2 * int i + 3, res_open = 2 * int i + 4, res_watch = 1\<rparr>), pe_spin_table = []\<rparr>,
      me_mhz = 2000, me_run_data_size = 4096,
      me_start = example_env\<lparr>se_clones := (100, 101)\<rparr>\<rparr>"

definition fresh_world :: world where
  "fresh_world =
     \<lparr>w_kernel = empty_kernel 4096,
      w_tcp = \<lparr>fs_num = 0, fs_fds = (0, 0), fs_kernel = empty_kernel 4096\<rparr>,
      w_namedpipe = \<lparr>fs_num = 0, fs_fds = (0, 0), fs_kernel = empty_kernel 4096\<rparr>,
      w_sem = sem_initial,
      w_mq = \<lparr>mq_num = 0, mq_queue = (\<lambda>_. None), mq_msg = (\<lambda>_. CHR 0x00), mq_prio = (\<lambda>_. 0)\<rparr>,
      w_sig = \<lparr>sig_num = 0, sigs = (\<lambda>_. 0), signal_received = (\<lambda>_. 0), pending = (\<lambda>_ _. False)\<rparr>,
      w_futex = \<lparr>futex_num = 0, f_val = 0, futex_vals = (\<lambda>_. 0), f_wait = (\<lambda>_. Awake), f_stored = (\<lambda>_. False)\<rparr>,
      w_net = empty_net 16, w_ino = \<lparr>ino_num = 0, ino_infos = (\<lambda>_. \<lparr>ino_fd = 0, file_fd = 0, wd = 0\<rparr>)\<rparr>,
      w_ft = ft_initial,
      w_spin = spin_initial, w_yield = shared_initial, w_race = shared_initial,
      w_nop = \<lparr>nop_num = 0, nop_variety = 0, nop_var = None\<rparr>\<rparr>"

lemma all_well_defaults: "\<exists>c0. setup_defaults (me_sys all_well) zero_config = Inr c0"
  by (simp add: setup_defaults_def num_cpus_call_def num_online_cpus_call_def get_min_stack_size_def
      all_well_def to_int_id)

lemma all_well_starts: "\<exists>s0. start_threads Thread_thread (me_start all_well) = Inr s0"
  by (simp add: start_threads_def do_clone_def all_well_def example_env_def Let_def)
    (simp add: init_threads_def pid_def)

text \<open>On it, the pipe and the socket pair modes come up.\<close>

lemma all_well_pipe:
  "\<exists>c w s0. main all_well ([Short (CHR ''m'') (Some ''pipe'')], []) fresh_world = Inr (c, w, s0)
     \<and> comm_make_pair (cfg_ops c) = fn ''pipe'' \<and> comm_ping (cfg_ops c) = fn ''comm_ping_pipe''
     \<and> thread_mode c = Thread_thread
     \<and> start_threads Thread_thread (me_start all_well) = Inr s0"
proof -
  obtain c0 where c0: "setup_defaults (me_sys all_well) zero_config = Inr c0" using all_well_defaults by blast
  obtain s0 where s0: "start_threads Thread_thread (me_start all_well) = Inr s0" using all_well_starts by blast
  have l: "2 < length built_modes" and n: "ii_name (fst (built_modes ! 2)) = ''pipe''"
    and f: "comm_make_pair (snd (built_modes ! 2)) = Some (Mode_fn ''pipe'')"
    and g: "comm_ping (fill_ops (snd (built_modes ! 2))) = fn ''comm_ping_pipe''"
    by (simp_all add: built_modes_def add_comm_mode_def comm_ops_pipe_def fn_def fill_ops_def or_default_def)
  obtain wi w where p: "make_pairs (run_pair (me_pairs all_well) (env_uid (me_sys all_well))
      (ii_name (fst (built_modes ! 2))) (Mode_fn ''pipe'')) fresh_world = Inr (wi, w)"
    by (simp add: run_pair_def make_pairs_def on_part_def make_pipe_pair_def split_def)
  show ?thesis using main_by_name [OF l c0 f p s0] s0 unfolding n g fn_def by blast
qed

end
