(* ===== verification/Reports.thy ===== *)
theory Reports
  imports Stats Mode_Options
begin

text \<open>
  The texts of the statistics: the header and the rows of \<^verbatim>\<open>stats_periodic.c\<close> and the summary and the
  comparison of \<^verbatim>\<open>stats_final.c\<close>, piece by piece as they are given to \<^verbatim>\<open>safe_write\<close>, each with the space
  the code says its buffer has.
\<close>

section \<open>Formats\<close>

definition pad_left :: "nat \<Rightarrow> string \<Rightarrow> string" where
  "pad_left w s = replicate (w - length s) (CHR '' '') @ s"

type_synonym piece = "int \<times> string"

text \<open>The calls of \<^verbatim>\<open>write\<close> that the pieces cause.\<close>

definition safe_writes :: "int \<Rightarrow> (string \<Rightarrow> int) \<Rightarrow> string \<Rightarrow> piece list \<Rightarrow> (int \<times> string) list" where
  "safe_writes fd wr strerror ps =
     concat (map (\<lambda>(len, t). fst (snd (safe_write fd [] len (Some t) wr strerror))) ps)"

definition text_of :: "piece list \<Rightarrow> string" where
  "text_of ps = concat (map snd ps)"

text \<open>\<^verbatim>\<open>"%7s %12s %11s"\<close>, the cells on the left of the header and of a row.\<close>

definition general_cells :: "string \<Rightarrow> string \<Rightarrow> string \<Rightarrow> string" where
  "general_cells a b c = pad_left 7 a @ '' '' @ pad_left 12 b @ '' '' @ pad_left 11 c"

section \<open>The periodic table\<close>

text \<open>The last two texts of the second line are printed behind the first in the same buffer.\<close>

definition thread_header :: string where
  "thread_header = '' | '' @ pad_left 13 '' vol/inv csw'' @ ''  '' @ pad_left 5 ''user'' @ ''  '' @ pad_left 5 ''sys''"

definition periodic_header :: "piece list" where
  "periodic_header =
     (let cells = general_cells ''time'' ''cycles/sec'' ''cycle time'';
          n1 = int (length cells); n2 = n1 + int (length thread_header)
      in [(400, general_cells [] [] []),
          (400, '' '' @ '' ___________ PING ___________ '' @ '' '' @ '' ___________ PONG ___________ ''),
          (400, [CHR 0x0A]),
          (400, cells),
          (400 - n1, thread_header),
          (400 - n2, thread_header),
          (400, [CHR 0x0A])])"

definition csw_text :: "int \<times> int \<Rightarrow> string" where
  "csw_text c = '' | '' @ pad_left 5 (dec_int (fst c)) @ '' / '' @ pad_left 5 (dec_int (snd c))"

text \<open>\<^verbatim>\<open>"%2lu.%01lu%%"\<close>: the decimals are printed as a number, without leading zeros.\<close>

definition share_text :: "integer_fixed_point \<Rightarrow> string" where
  "share_text f = ''  '' @ pad_left 2 (dec_int (uint (fp_i f))) @ ''.'' @ dec_int (uint (fp_dec f)) @ ''%''"

definition periodic_row :: "stats_row \<Rightarrow> piece list" where
  "periodic_row r =
     [(400, general_cells (row_time r) (dec_int (row_rate r)) (row_cycle r)),
      (400, csw_text (row_csw r Ping)),
      (400, share_text (row_user r Ping) @ share_text (row_sys r Ping)),
      (400, csw_text (row_csw r Pong)),
      (400, share_text (row_user r Pong) @ share_text (row_sys r Pong)),
      (400, [CHR 0x0A])]"

text \<open>What a run of ticks prints.\<close>

definition shown_pieces :: "shown \<Rightarrow> piece list" where
  "shown_pieces x = (case x of (hdr, i, row) \<Rightarrow> (if hdr then periodic_header else []) @ periodic_row row)"

section \<open>The final report\<close>

definition final_summary :: "final_report \<Rightarrow> piece list" where
  "final_summary r =
     [(400, [CHR 0x0A]),
      (400, ''Elapsed time: '' @ pad_left 7 (fr_elapsed r) @ [CHR 0x0A]),
      (400, ''Ping/pong count: '' @ dec_int (uint (fr_count r)) @ [CHR 0x0A]),
      (400, ''Ping/pong time: '' @ fr_pingpong_time r @ [CHR 0x0A]),
      (400, ''Pings/second: '' @ dec_int (fr_rate r) @ [CHR 0x0A])]"

text \<open>The lines of the comparison, by \<^verbatim>\<open>printf\<close> with the widths 30, 15 and 15.\<close>

definition sched_line :: "string \<times> string \<times> string \<Rightarrow> string" where
  "sched_line l = (case l of (key, v1, v2) \<Rightarrow> pad_right 30 key @ '' '' @ pad_right 15 v1 @ '' '' @ pad_right 15 v2 @ [CHR 0x0A])"

definition final_text :: "final_report \<Rightarrow> string" where
  "final_text r = text_of (final_summary r) @ [CHR 0x0A] @ concat (map sched_line (fr_sched r))"

section \<open>Lemmas\<close>

lemma pad_left_length [simp]: "length (pad_left w s) = max w (length s)"
  by (simp add: pad_left_def)

lemma pad_right_length [simp]: "length (pad_right w s) = max w (length s)"
  by (simp add: pad_right_def)

lemma dec_int_length:
  assumes "- (10 ^ k) < v" "v < 10 ^ Suc k"
  shows "length (dec_int v) \<le> Suc k"
proof (cases "v < 0")
  case True
  show ?thesis
  proof (cases k)
    case 0
    then show ?thesis using assms True by simp
  next
    case (Suc j)
    have "- v < 10 ^ Suc j" using assms(1) Suc by simp
    then have "nat (- v) < 10 ^ Suc j" using True by (simp add: nat_less_iff)
    then have "length (dec_nat (nat (- v))) \<le> Suc j" by (rule dec_nat_length)
    then show ?thesis using True Suc by (simp add: dec_int_def)
  qed
next
  case False
  then have "nat v < 10 ^ Suc k" using assms(2) by (simp add: nat_less_iff)
  then show ?thesis using False dec_nat_length [of "nat v" k] by (simp add: dec_int_def)
qed

lemma dec_word_length: "length (dec_int (uint (x :: 64 word))) \<le> 20"
proof -
  have "uint x < 2 ^ 64" using uint_lt2p [of x] by simp
  then have "uint x < 10 ^ Suc 19" by simp
  then show ?thesis using dec_int_length [of 19 "uint x"] uint_ge_0 [of x] by (simp add: less_le_trans [of _ 0])
qed

lemma dec_long_length: "- (2 ^ 63) \<le> v \<Longrightarrow> v < 2 ^ 64 \<Longrightarrow> length (dec_int v) \<le> 20"
  using dec_int_length [of 19 v] by simp

text \<open>Pieces shorter than their buffer are written as they are.\<close>

lemma safe_writes_whole:
  assumes "\<forall>(len, t) \<in> set ps. int (length t) < len \<and> 0 \<le> wr t"
  shows "safe_writes fd wr e ps = map (\<lambda>(len, t). (fd, t)) ps"
  using assms
  by (induction ps) (auto simp: safe_writes_def safe_write_fits split: prod.splits)

lemma periodic_header_text:
  "text_of periodic_header =
     replicate 33 (CHR '' '') @ '' ___________ PING ___________   ___________ PONG ___________ '' @ CHR 0x0A #
     ''   time   cycles/sec  cycle time |   vol/inv csw   user    sys |   vol/inv csw   user    sys'' @ [CHR 0x0A]"
  by (simp add: text_of_def periodic_header_def thread_header_def general_cells_def pad_left_def numeral_eq_Suc Let_def)

lemma general_cells_length:
  assumes "length a \<le> 7" "length b \<le> 12" "length c \<le> 11"
  shows "length (general_cells a b c) = 32"
  using assms by (simp add: general_cells_def)

lemma csw_text_length:
  assumes "\<bar>fst c\<bar> < 10 ^ 4 \<or> 0 \<le> fst c \<and> fst c < 10 ^ 5" "\<bar>snd c\<bar> < 10 ^ 4 \<or> 0 \<le> snd c \<and> snd c < 10 ^ 5"
  shows "length (csw_text c) = 16"
proof -
  have "length (dec_int v) \<le> 5" if "\<bar>v\<bar> < 10 ^ 4 \<or> 0 \<le> v \<and> v < 10 ^ 5" for v
    using that dec_int_length [of 4 v] by (auto simp: abs_less_iff)
  from this [OF assms(1)] this [OF assms(2)] show ?thesis by (simp add: csw_text_def)
qed

lemma dec_one_two:
  assumes "v < 100"
  shows "length (dec_int (int v)) = (if v < 10 then 1 else 2)"
proof (cases "v < 10")
  case True
  then show ?thesis by (simp add: dec_int_def dec_nat.simps)
next
  case False
  have "v div 10 < 10" using assms by simp
  then have "dec_nat (v div 10) = [digit_chr (int (v div 10))]" by (simp add: dec_nat.simps)
  then show ?thesis using False by (simp add: dec_int_def) (subst dec_nat.simps, simp)
qed

lemma share_text_length:
  assumes "uint (fp_i f) < 100" "uint (fp_dec f) < 100"
  shows "length (share_text f) = (if uint (fp_dec f) < 10 then 7 else 8)"
proof -
  have d: "length (dec_int (uint x)) = (if uint x < 10 then 1 else 2)" if "uint (x :: 64 word) < 100" for x
  proof -
    have "int (nat (uint x)) = uint x" by simp
    moreover have "nat (uint x) < 100" "nat (uint x) < 10 \<longleftrightarrow> uint x < 10" using that uint_ge_0 [of x] by linarith+
    ultimately show ?thesis using dec_one_two [of "nat (uint x)"] by metis
  qed
  show ?thesis using d [OF assms(1)] d [OF assms(2)] by (simp add: share_text_def)
qed

lemma nth_bar:
  assumes "length a = n"
  shows "(a @ '' | '' @ b) ! (n + 1) = CHR ''|''"
  using assms by (simp add: nth_append)

text \<open>What the fields of a row can be.\<close>

lemma row_fields:
  assumes "show_periodic_stats_data rnd i = Inr row"
  shows "length (row_time row) \<le> 8" "length (row_cycle row) \<le> 9" "0 \<le> row_rate row" "row_rate row < 2 ^ 64"
    "row_csw row = (\<lambda>t. (ru_nvcsw (is_rusage i t), ru_nivcsw (is_rusage i t)))"
proof -
  obtain tm cyc where t: "subsec_string rnd (Fin (is_run_time i)) 1 = Inr tm" "row_time row = tm"
      "subsec_string rnd (is_iteration_time i) 2 = Inr cyc" "row_cycle row = cyc"
      "0 \<le> row_rate row" "row_rate row < 2 ^ 64"
      "row_csw row = (\<lambda>t. (ru_nvcsw (is_rusage i t), ru_nivcsw (is_rusage i t)))"
    using assms by (auto simp: show_periodic_stats_data_def bind_res_Inr_iff Let_def split: if_splits)
  then show "length (row_time row) \<le> 8" "length (row_cycle row) \<le> 9" "0 \<le> row_rate row" "row_rate row < 2 ^ 64"
    "row_csw row = (\<lambda>t. (ru_nvcsw (is_rusage i t), ru_nivcsw (is_rusage i t)))"
    using subsec_string_length_aux [OF t(1)] subsec_string_length_aux [OF t(3)] by simp_all
qed

lemma final_fields:
  assumes "output_final_stats rnd now sched d = Inr r"
  shows "length (fr_elapsed r) \<le> 8" "length (fr_pingpong_time r) \<le> 9" "0 \<le> fr_rate r" "fr_rate r < 2 ^ 64"
    "fr_count r = sd_ping_count d"
proof -
  obtain el pt where t: "subsec_string rnd (Fin (now - sd_start_time d)) 1 = Inr el" "fr_elapsed r = el"
      "subsec_string rnd (ld_div (now - sd_start_time d) (of_count (sd_ping_count d))) 2 = Inr pt" "fr_pingpong_time r = pt"
      "0 \<le> fr_rate r" "fr_rate r < 2 ^ 64" "fr_count r = sd_ping_count d"
    using assms by (auto simp: output_final_stats_def bind_res_Inr_iff Let_def split: if_splits)
  then show "length (fr_elapsed r) \<le> 8" "length (fr_pingpong_time r) \<le> 9" "0 \<le> fr_rate r" "fr_rate r < 2 ^ 64"
    "fr_count r = sd_ping_count d"
    using subsec_string_length_aux [OF t(1)] subsec_string_length_aux [OF t(3)] by simp_all
qed

section \<open>Properties\<close>

definition example_interval :: interval_stats where
  "example_interval = fst (gather_periodic_stats 1 (\<lambda>_. None) (example_stats\<lparr>sd_ping_count := 500\<rparr>))"

lemma example_texts:
  "subsec_string (\<lambda>r. r) (Fin 1) 1 = Inr ''1.0 s''" "subsec_string (\<lambda>r. r) (Fin (1 / 500)) 2 = Inr ''2.00 ms''"
proof -
  show "subsec_string (\<lambda>r. r) (Fin 1) 1 = Inr ''1.0 s''"
    by (subst subsec_string_exact [of _ 0 1])
      (simp_all add: max_mult_6 unit_strings_sub_def llround_def subsec_whole_def)
  show "subsec_string (\<lambda>r. r) (Fin (1 / 500)) 2 = Inr ''2.00 ms''"
    by (subst subsec_string_exact [of _ 1 2])
      (simp_all add: max_mult_6 unit_strings_sub_def llround_def subsec_whole_def upt_rec)
qed

lemma floor_half [simp]: "\<lfloor>1 / 2 :: rat\<rfloor> = 0"
  by (rule floor_unique) simp_all

lemma example_row_fields:
  "\<exists>row. show_periodic_stats_data (\<lambda>x. x) example_interval = Inr row \<and> row_time row = ''1.0 s'' \<and> row_rate row = 500
     \<and> (\<forall>t. uint (fp_i (row_user row t)) = 0 \<and> uint (fp_dec (row_user row t)) = 0
          \<and> uint (fp_i (row_sys row t)) = 0 \<and> uint (fp_dec (row_sys row t)) = 0)"
  by (simp add: example_interval_def show_periodic_stats_data_def gather_periodic_stats_def store_wait4_def example_stats_def
      rusage_diff_def elapsed_time_timeval_def cpu_columns_def cpu_share_def f_to_fp_def ld_div_def of_count_def
      ld_trunc_def llround_def pow10_def example_texts Let_def)

lemma example_usage: "ru_nvcsw (is_rusage example_interval t) = 0" "ru_nivcsw (is_rusage example_interval t) = 0"
  by (simp_all add: example_interval_def gather_periodic_stats_def store_wait4_def example_stats_def rusage_diff_def Let_def)

lemma example_final:
  "\<exists>r. output_final_stats (\<lambda>x. x) 1 ([], []) (example_stats\<lparr>sd_ping_count := 500\<rparr>) = Inr r"
proof -
  have "parse_sched_data [] [] = Inr []"
    by (simp add: parse_sched_data_def strtok_r_def) (subst sched_loop.simps, simp add: strtok_r_def)
  then show ?thesis
    by (simp add: output_final_stats_def example_stats_def cpu_share_def f_to_fp_def ld_div_def of_count_def ld_trunc_def
        llround_def pow10_def example_texts Let_def)
qed

text \<open>
  C35: nothing of a report is ever cut or reported as an error: whatever the values, every piece of the
  header, of a row and of the final summary is shorter than the buffer it is formatted into, so each
  of them reaches the output whole, in one call of \<^verbatim>\<open>write\<close>.
\<close>

theorem reports_written_whole:
  assumes "show_periodic_stats_data rnd i = Inr row" "output_final_stats rnd now sched d = Inr r"
    and "\<And>t. \<bar>ru_nvcsw (is_rusage i t)\<bar> < 2 ^ 63 \<and> \<bar>ru_nivcsw (is_rusage i t)\<bar> < 2 ^ 63"
    and "\<And>t. 0 \<le> wr t"
  shows "safe_writes fd wr e (shown_pieces (hdr, i, row)) = map (\<lambda>(len, t). (fd, t)) (shown_pieces (hdr, i, row))
    \<and> safe_writes fd wr e (final_summary r) = map (\<lambda>(len, t). (fd, t)) (final_summary r)"
proof -
  note f = row_fields [OF assms(1)] and g = final_fields [OF assms(2)]
  have rate: "length (dec_int (row_rate row)) \<le> 20" "length (dec_int (fr_rate r)) \<le> 20"
    using f(3,4) g(3,4) by (simp_all add: dec_long_length)
  have csw: "length (dec_int (fst (row_csw row t))) \<le> 20" "length (dec_int (snd (row_csw row t))) \<le> 20" for t
    using assms(3) [of t] unfolding f(5) by (auto intro!: dec_long_length)
  have share: "length (share_text x) \<le> 44" for x
    using dec_word_length [of "fp_i x"] dec_word_length [of "fp_dec x"] by (simp add: share_text_def)
  have c: "length (csw_text (row_csw row t)) \<le> 46" for t using csw [of t] by (simp add: csw_text_def)
  have h: "\<forall>(len, t) \<in> set periodic_header. int (length t) < len \<and> 0 \<le> wr t"
    using assms(4) by (simp add: periodic_header_def thread_header_def general_cells_def Let_def)
  have w: "\<forall>(len, t) \<in> set (periodic_row row). int (length t) < len \<and> 0 \<le> wr t"
    using assms(4) f(1,2) rate(1) share [of "row_user row Ping"] share [of "row_sys row Ping"]
      share [of "row_user row Pong"] share [of "row_sys row Pong"] c [of Ping] c [of Pong]
    by (simp add: periodic_row_def general_cells_def)
  have s: "\<forall>(len, t) \<in> set (final_summary r). int (length t) < len \<and> 0 \<le> wr t"
    using assms(4) g(1,2) rate(2) dec_word_length [of "fr_count r"] by (simp add: final_summary_def)
  have "\<forall>(len, t) \<in> set (shown_pieces (hdr, i, row)). int (length t) < len \<and> 0 \<le> wr t"
    using h w by (auto simp: shown_pieces_def)
  from safe_writes_whole [OF this] safe_writes_whole [OF s] show ?thesis by simp
qed

theorem reports_written_whole_witness:
  "\<exists>row r. show_periodic_stats_data (\<lambda>x. x) example_interval = Inr row
     \<and> output_final_stats (\<lambda>x. x) 1 ([], []) (example_stats\<lparr>sd_ping_count := 500\<rparr>) = Inr r
     \<and> safe_writes 1 (\<lambda>_. 0) [] (final_summary r) = map (\<lambda>(len, t). (1, t)) (final_summary r)"
proof -
  obtain row where row: "show_periodic_stats_data (\<lambda>x. x) example_interval = Inr row" using example_row_fields by blast
  obtain r where r: "output_final_stats (\<lambda>x. x) 1 ([], []) (example_stats\<lparr>sd_ping_count := 500\<rparr>) = Inr r"
    using example_final by blast
  from reports_written_whole [OF row r, of "\<lambda>_. 0"] row r show ?thesis by (auto simp: example_usage)
qed

text \<open>
  C36: the rows stand under their header: the second line of the header and every row whose values fit
  their columns have the same width and the same bars. The system share of the second child has
  two decimals, printed as a number: from 0.10 on it makes the row one character too long.
\<close>

theorem rows_align:
  assumes "show_periodic_stats_data rnd i = Inr row" "length (row_time row) \<le> 7" "row_rate row < 10 ^ 12"
    and "\<And>t. 0 \<le> ru_nvcsw (is_rusage i t) \<and> ru_nvcsw (is_rusage i t) < 10 ^ 5"
    and "\<And>t. 0 \<le> ru_nivcsw (is_rusage i t) \<and> ru_nivcsw (is_rusage i t) < 10 ^ 5"
    and "\<And>t. uint (fp_i (row_user row t)) < 100 \<and> uint (fp_dec (row_user row t)) < 10"
    and "\<And>t. uint (fp_i (row_sys row t)) < 100"
    and "uint (fp_dec (row_sys row Ping)) < 10" "uint (fp_dec (row_sys row Pong)) < 100"
  defines "line \<equiv> text_of (periodic_row row)" and "head \<equiv> drop 95 (text_of periodic_header)"
  shows "line ! 33 = CHR ''|'' \<and> line ! 63 = CHR ''|'' \<and> head ! 33 = CHR ''|'' \<and> head ! 63 = CHR ''|''
    \<and> length line = length head + (if uint (fp_dec (row_sys row Pong)) < 10 then 0 else 1)"
proof -
  note f = row_fields [OF assms(1)]
  have rate: "length (dec_int (row_rate row)) \<le> 12" using f(3) assms(3) dec_int_length [of 11 "row_rate row"] by simp
  let ?a = "general_cells (row_time row) (dec_int (row_rate row)) (row_cycle row)"
  have a: "length ?a = 32" using assms(2) rate f(2) by (simp add: general_cells_length)
  have c: "length (csw_text (row_csw row t)) = 16" for t using assms(4,5) [of t] unfolding f(5) by (simp add: csw_text_length)
  have u: "length (share_text (row_user row t)) = 7" for t using assms(6) [of t] by (simp add: share_text_length)
  have s: "length (share_text (row_sys row Ping)) = 7"
    "length (share_text (row_sys row Pong)) = (if uint (fp_dec (row_sys row Pong)) < 10 then 7 else 8)"
    using assms(7) [of Ping] assms(7) [of Pong] assms(8,9) by (simp_all add: share_text_length)
  have line: "line = ?a @ csw_text (row_csw row Ping) @ share_text (row_user row Ping) @ share_text (row_sys row Ping)
      @ csw_text (row_csw row Pong) @ share_text (row_user row Pong) @ share_text (row_sys row Pong) @ [CHR 0x0A]"
    by (simp add: line_def text_of_def periodic_row_def)
  have "line ! (32 + 1) = CHR ''|''" unfolding line csw_text_def append.assoc by (rule nth_bar [OF a])
  moreover have "line ! (62 + 1) = CHR ''|''"
  proof -
    let ?b = "?a @ csw_text (row_csw row Ping) @ share_text (row_user row Ping) @ share_text (row_sys row Ping)"
    have b: "length ?b = 62" using a c u s by simp
    have "line = ?b @ '' | '' @ (pad_left 5 (dec_int (fst (row_csw row Pong))) @ '' / '' @ pad_left 5 (dec_int (snd (row_csw row Pong))))
        @ share_text (row_user row Pong) @ share_text (row_sys row Pong) @ [CHR 0x0A]"
      unfolding line csw_text_def [of "row_csw row Pong"] by simp
    then show ?thesis using nth_bar [OF b] by metis
  qed
  moreover have "length line = 93 + (if uint (fp_dec (row_sys row Pong)) < 10 then 0 else 1)"
    unfolding line using a c u s by simp
  moreover have "head = ''   time   cycles/sec  cycle time |   vol/inv csw   user    sys |   vol/inv csw   user    sys'' @ [CHR 0x0A]"
    unfolding head_def periodic_header_text by (simp add: numeral_eq_Suc)
  then have "head ! 33 = CHR ''|''" "head ! 63 = CHR ''|''" "length head = 93" by simp_all
  ultimately show ?thesis by simp
qed

theorem rows_align_witness:
  "\<exists>row. show_periodic_stats_data (\<lambda>x. x) example_interval = Inr row \<and> text_of (periodic_row row) ! 63 = CHR ''|''"
proof -
  obtain row where row: "show_periodic_stats_data (\<lambda>x. x) example_interval = Inr row" "row_time row = ''1.0 s''" "row_rate row = 500"
    "\<And>t. uint (fp_i (row_user row t)) = 0 \<and> uint (fp_dec (row_user row t)) = 0
          \<and> uint (fp_i (row_sys row t)) = 0 \<and> uint (fp_dec (row_sys row t)) = 0"
    using example_row_fields by blast
  from rows_align [OF row(1)] row show ?thesis by (simp add: example_usage)
qed

end
