(* ===== verification/Usage.thy ===== *)
theory Usage
  imports Program Reports
begin

text \<open>
  What \<^verbatim>\<open>setup.c\<close> tells the user: the usage text, with a line for every mode of the table and the options
  of the modes that have some, and the line that announces a run.
\<close>

section \<open>The usage text\<close>

definition text_lines :: "string list \<Rightarrow> string" where
  "text_lines ls = concat (map (\<lambda>l. l @ [CHR 0x0A]) ls)"

definition thread_mode_strings :: "thread_mode \<Rightarrow> string option" where
  "thread_mode_strings m =
     (case m of Thread_fork \<Rightarrow> Some ''fork'' | Thread_thread \<Rightarrow> Some ''threads'' | Thread_pthread \<Rightarrow> Some ''pthread''
      | Thread_context \<Rightarrow> None)"

text \<open>The option lines, with the default interval and run time pasted in by the preprocessor.\<close>

definition DEFAULT_STATS_INTERVAL_STRING :: string where "DEFAULT_STATS_INTERVAL_STRING = ''1.000000''"

definition usage_options :: "string list" where
  "usage_options =
     [''Options:'',
      ''    -u, --update=#      seconds between statistics display (0 for no intermediate stats--implies '-s'); default='' @ DEFAULT_STATS_INTERVAL_STRING,
      ''    -r, --runtime=#     number of seconds to run the test (0 to run continuously); default=10'',
      ''    -s, --stats         output overall statistics at the end of the run (default)'',
      ''        --nostats       do not output statistics at the end of the run'',
      ''    -l, --latency=#'' @ [CHR 0x09] @ '' set the cpu_dma_latency value; default=none'',
      ''        --secret_sauce  enable the advanced 'secret sauce' setting'',
      ''    -o, --option=       set a communication-mode-specific option (for modes with options)'',
      ''    -m, --mode=MODE'',
      ''        communication modes:'']"

definition usage_more :: "string list" where
  "usage_more =
     ['''', '''',
      ''    -t, --thread=MODE, --thread_mode=MODE'',
      ''        thread modes: fork, clone, pthread'',
      '''',
      ''    -p, --priority=POLICY:PRIORITY'',
      ''        policies: fifo, rr'',
      ''        priorities: 1-99 (careful with high priorities)'',
      '''',
      ''    <cpu #> - pin the threads to the designated CPUs'',
      '''']"

text \<open>
  The call through \<^verbatim>\<open>comm_show_options\<close>, and the loop over the table; \<open>n\<close> entries are left. A name is
  printed with \<^verbatim>\<open>%15s\<close>.
\<close>

definition run_show_options :: "spin_memsync list \<Rightarrow> comm_fn option \<Rightarrow> string \<Rightarrow> string" where
  "run_show_options table f indent =
     (if f = fn ''comm_spin_show_options'' then comm_spin_show_options table indent
      else if f = fn ''comm_nop_show_options'' then comm_nop_show_options indent
      else [])"

definition mode_line :: "spin_memsync list \<Rightarrow> string \<Rightarrow> string option \<Rightarrow> comm_mode_ops \<Rightarrow> string" where
  "mode_line table name help ops =
     replicate 12 (CHR '' '') @ pad_left 15 name @ ''  -  '' @ (case help of None \<Rightarrow> [] | Some h \<Rightarrow> h) @ [CHR 0x0A]
       @ run_show_options table (comm_show_options ops) (replicate 4 (CHR 0x09))"

fun usage_modes :: "spin_memsync list \<Rightarrow> comm_mode_info list \<Rightarrow> nat \<Rightarrow> int \<Rightarrow> string res" where
  "usage_modes table a 0 i = Inr []"
| "usage_modes table a (Suc n) i =
     bind_res (aget a i) (\<lambda>e.
       case mi_name e of
         None \<Rightarrow> Inl Null_pointer
       | Some nm \<Rightarrow> bind_res (usage_modes table a n (i + 1)) (\<lambda>r.
           Inr (mode_line table nm (mi_help_text e) (mi_ops e) @ r)))"

definition usage :: "spin_memsync list \<Rightarrow> string \<Rightarrow> comm_registry \<Rightarrow> string res" where
  "usage table argv0 reg =
     bind_res (usage_modes table (reg_array reg) (nat (reg_count reg)) 0) (\<lambda>modes.
       Inr (text_lines ([''Usage: '' @ argv0 @ '' [options] [ <cpu #> <cpu #> ]'', ''''] @ usage_options)
            @ modes @ text_lines usage_more))"

section \<open>The announcement\<close>

text \<open>The first lines of \<^verbatim>\<open>do_comm_setup\<close>; \<^verbatim>\<open>verbosity\<close> is never set, so it is always printed.\<close>

definition comm_setup_text :: "config \<Rightarrow> string \<Rightarrow> string" where
  "comm_setup_text c name =
     ''Configuring to run '' @ (if 0 < runtime c then ''for '' @ dec_int (runtime c) @ '' seconds'' else ''indefinitely'')
     @ '' in '' @ [CHR 0x27] @ name @ [CHR 0x27] @ '' mode''
     @ (if cfg_set_affinity c
        then '', with threads bound to cpus '' @ dec_int (cpu c Ping) @ '' and '' @ dec_int (cpu c Pong)
        else '', with no cpu affinity'') @ [CHR 0x0A]"

definition announce :: "comm_registry \<Rightarrow> config \<Rightarrow> string res" where
  "announce reg c =
     bind_res (get_comm_mode_name (comm_mode_index c) reg) (\<lambda>name.
       case name of None \<Rightarrow> Inl Null_pointer | Some n \<Rightarrow> Inr (comm_setup_text c n))"

section \<open>The options the text names\<close>

text \<open>The words behind a blank and two dashes.\<close>

definition is_word_char :: "char \<Rightarrow> bool" where
  "is_word_char c \<longleftrightarrow> c \<in> set ''abcdefghijklmnopqrstuvwxyz_''"

fun long_words :: "string \<Rightarrow> string list" where
  "long_words [] = []"
| "long_words (a # r) =
     (case r of
        b # c # t \<Rightarrow> if a = CHR '' '' \<and> b = CHR ''-'' \<and> c = CHR ''-'' then takeWhile is_word_char t # long_words r else long_words r
      | _ \<Rightarrow> [])"

definition documented_options :: "string list" where
  "documented_options = concat (map long_words (usage_options @ usage_more))"

lemma documented_options_list:
  "documented_options =
     [''update'', ''runtime'', ''stats'', ''nostats'', ''latency'', ''secret_sauce'', ''option'', ''mode'', ''thread'', ''thread_mode'', ''priority'']"
  by code_simp

section \<open>Lemmas\<close>

text \<open>A loop over the entries of a well-formed registry reaches every entry in order.\<close>

lemma usage_modes_entries:
  assumes "\<forall>e \<in> set es. mi_name e \<noteq> None"
  shows "usage_modes table (pre @ es @ post) (length es) (int (length pre)) =
     Inr (concat (map (\<lambda>e. mode_line table (the (mi_name e)) (mi_help_text e) (mi_ops e)) es))"
  using assms
proof (induction es arbitrary: pre)
  case (Cons e es)
  have g: "aget (pre @ (e # es) @ post) (int (length pre)) = Inr e" by (simp add: aget_Inr_iff)
  have "usage_modes table ((pre @ [e]) @ es @ post) (length es) (int (length (pre @ [e]))) =
      Inr (concat (map (\<lambda>e. mode_line table (the (mi_name e)) (mi_help_text e) (mi_ops e)) es))"
    by (rule Cons.IH) (use Cons.prems in simp)
  then show ?case using Cons.prems g by (auto simp: add.commute)
qed simp

lemma usage_modes_view:
  assumes "reg_ok r"
  shows "usage_modes table (reg_array r) (nat (reg_count r)) 0 =
     Inr (concat (map (\<lambda>(name, help, ops, _). mode_line table name help ops) (mode_view r)))"
proof -
  obtain k where k: "reg_array r = entries r @ replicate k zero_info" "length (entries r) = nat (reg_count r)"
    "\<forall>i < length (entries r). entry_ok i (entries r ! i)"
    using assms by (auto simp: reg_ok_def)
  have "\<forall>e \<in> set (entries r). mi_name e \<noteq> None" using k(3) by (auto simp: in_set_conv_nth entry_ok_def)
  from usage_modes_entries [OF this, of table "[]" "replicate k zero_info"] k(1,2)
  show ?thesis by (simp add: mode_view_def comp_def)
qed

lemma getopt_documented:
  "list_all (\<lambda>n. (\<exists>arg. getopt_long (Long n arg) \<noteq> None) \<longleftrightarrow> n \<notin> {''stats'', ''nostats'', ''priority''}) documented_options"
proof -
  have ex: "(\<exists>arg. P arg) \<longleftrightarrow> P None \<or> (\<exists>a. P (Some a))" for P :: "string option \<Rightarrow> bool"
    by (metis option.exhaust)
  show ?thesis unfolding documented_options_list
    by (simp add: ex getopt_long_def accept_opt_def long_options_def is_prefix_def)
qed

text \<open>The mode that is announced is the one that runs.\<close>

lemma main_announces:
  assumes "main env args w0 = Inr (c, w, s0)" "run_constructors built_modes initial_registry = Inr reg"
  shows "\<exists>m \<in> set built_modes. announce reg c = Inr (comm_setup_text c (ii_name (fst m)))
    \<and> (\<exists>sh po. cfg_ops c = (fill_ops (snd m))\<lparr>comm_show_options := sh, comm_parse_options := po\<rparr>)"
proof -
  have reg: "reg_ok reg" "mode_view reg = map mode_abs built_modes"
    using run_constructors_ok [OF built_distinct] assms(2) by auto
  obtain c1 w1 name len call where
    n: "get_comm_mode_name (comm_mode_index c1) reg = Inr name"
    and d: "do_comm_setup (me_mhz env) reg (run_pair (me_pairs env) (uid c1)
        (case name of None \<Rightarrow> [] | Some n \<Rightarrow> n)) (me_run_data_size env) (c1, w1) = Inr (c, w, len, call)"
    using assms by (auto simp: main_def bind_res_Inr_iff split: if_splits)
  obtain e where e: "aget (reg_array reg) (comm_mode_index c1) = Inr e"
    and ops: "cfg_ops c = (mi_ops e)\<lparr>comm_show_options := comm_show_options (cfg_ops c1),
      comm_parse_options := comm_parse_options (cfg_ops c1)\<rparr>"
    and i: "comm_mode_index c = comm_mode_index c1"
    and mp: "make_pairs (case comm_make_pair (mi_ops e) of None \<Rightarrow> \<lambda>_. Inl Null_pointer
        | Some f \<Rightarrow> run_pair (me_pairs env) (uid c1) (case name of None \<Rightarrow> [] | Some n \<Rightarrow> n) f) w1
      = Inr (wires c, w)"
    using d by (auto simp: do_comm_setup_def bind_res_Inr_iff Let_def)
  have "comm_make_pair (mi_ops e) \<noteq> None" using mp by (cases "comm_make_pair (mi_ops e)") (auto simp: make_pairs_def)
  then have "mi_ops e \<noteq> no_ops" by (auto simp: no_ops_def)
  then obtain k where k: "k < length built_modes" "mi_ops e = fill_ops (snd (built_modes ! k))"
    "get_comm_mode_name (comm_mode_index c1) reg = Inr (Some (ii_name (fst (built_modes ! k))))"
    using slot_of_mode [OF reg e] by blast
  then show ?thesis using ops i by (intro bexI [of _ "built_modes ! k"]) (auto simp: announce_def)
qed

section \<open>Properties\<close>

text \<open>The first word of a line, and that it is the name of the mode.\<close>

definition first_word :: "string \<Rightarrow> string" where
  "first_word l = takeWhile (\<lambda>c. c \<noteq> CHR '' '') (dropWhile (\<lambda>c. c = CHR '' '') l)"

lemma first_word_blanks: "first_word (replicate n (CHR '' '') @ l) = first_word l"
  by (induction n) (simp_all add: first_word_def)

lemma first_word_name:
  assumes "name \<noteq> []" "CHR '' '' \<notin> set name"
  shows "first_word (name @ CHR '' '' # l) = name"
proof -
  have "dropWhile (\<lambda>c. c = CHR '' '') (name @ CHR '' '' # l) = name @ CHR '' '' # l"
    using assms by (cases name) auto
  then show ?thesis using assms(2) by (simp add: first_word_def takeWhile_append2 takeWhile_tail) (metis takeWhile_append2 takeWhile.simps(2) append_Nil2)
qed

lemma mode_line_word:
  assumes "name \<noteq> []" "CHR '' '' \<notin> set name"
  shows "first_word (mode_line table name help ops) = name"
  using first_word_name [OF assms] by (simp add: mode_line_def pad_left_def first_word_blanks)

text \<open>
  C20: the usage text lists what can be chosen: whatever modes are built, it has one line for each, in the
  order of the table and with its help text and options, and the first word of the line selects that mode. The
  thread modes it names are accepted too; of the long options it names all but \<^verbatim>\<open>--stats\<close>, \<^verbatim>\<open>--nostats\<close>
  and \<^verbatim>\<open>--priority\<close> are, and those end the program.
\<close>

theorem usage_lists_modes:
  assumes "distinct (map (ii_name \<circ> fst) ms)" "run_constructors ms initial_registry = Inr reg"
    and "\<forall>m \<in> set ms. ii_name (fst m) \<noteq> [] \<and> CHR '' '' \<notin> set (ii_name (fst m))"
  shows "usage table argv0 reg =
      Inr (text_lines ([''Usage: '' @ argv0 @ '' [options] [ <cpu #> <cpu #> ]'', []] @ usage_options)
        @ concat (map (\<lambda>m. mode_line table (ii_name (fst m)) (ii_help_text (fst m)) (fill_ops (snd m))) ms)
        @ text_lines usage_more)
    \<and> (\<forall>i < length ms. opt_step rnd strtod reg (Short (CHR ''m'') (Some (first_word
             (mode_line table (ii_name (fst (ms ! i))) (ii_help_text (fst (ms ! i))) (fill_ops (snd (ms ! i))))))) (c, str)
         = Inr (c\<lparr>comm_mode_index := int i\<rparr>, str))
    \<and> map (\<lambda>n. thread_mode (parse_thread_mode n c)) [''fork'', ''clone'', ''pthread''] = [Thread_fork, Thread_thread, Thread_pthread]
    \<and> (\<forall>n \<in> set documented_options. if n \<in> {''stats'', ''nostats'', ''priority''}
         then \<forall>arg s. opt_step rnd strtod reg (Long n arg) s = Inl (Exit_status 1)
         else \<exists>arg. getopt_long (Long n arg) \<noteq> None)"
proof -
  have r: "reg_ok reg" "mode_view reg = map mode_abs ms" using run_constructors_ok [OF assms(1)] assms(2) by auto
  have u: "usage table argv0 reg =
      Inr (text_lines ([''Usage: '' @ argv0 @ '' [options] [ <cpu #> <cpu #> ]'', []] @ usage_options)
        @ concat (map (\<lambda>m. mode_line table (ii_name (fst m)) (ii_help_text (fst m)) (fill_ops (snd m))) ms)
        @ text_lines usage_more)"
    by (simp add: usage_def usage_modes_view [OF r(1)] r(2) mode_abs_def comp_def)
  have m: "opt_step rnd strtod reg (Short (CHR ''m'') (Some (first_word
             (mode_line table (ii_name (fst (ms ! i))) (ii_help_text (fst (ms ! i))) (fill_ops (snd (ms ! i))))))) (c, str)
         = Inr (c\<lparr>comm_mode_index := int i\<rparr>, str)" if "i < length ms" for i
    using built_entry(2) [OF assms(1,2) that] assms(3) that by (simp add: opt_step_mode mode_line_word)
  have t: "map (\<lambda>n. thread_mode (parse_thread_mode n c)) [''fork'', ''clone'', ''pthread''] = [Thread_fork, Thread_thread, Thread_pthread]"
    by (simp add: parse_thread_mode_def)
  have o: "if n \<in> {''stats'', ''nostats'', ''priority''}
         then \<forall>arg s. opt_step rnd strtod reg (Long n arg) s = Inl (Exit_status 1)
         else \<exists>arg. getopt_long (Long n arg) \<noteq> None" if "n \<in> set documented_options" for n
  proof -
    have "(\<exists>arg. getopt_long (Long n arg) \<noteq> None) \<longleftrightarrow> n \<notin> {''stats'', ''nostats'', ''priority''}"
      using getopt_documented that unfolding list_all_iff by blast
    moreover have "opt_step rnd strtod reg x s = Inl (Exit_status 1)" if "getopt_long x = None" for x s
      using that by (simp add: opt_step_def split: prod.split)
    ultimately show ?thesis by (metis (full_types))
  qed
  show ?thesis using u m t o by blast
qed

lemma built_run: "\<exists>reg. run_constructors built_modes initial_registry = Inr reg"
  using built_registry by blast

theorem usage_lists_modes_witness:
  "\<exists>reg. run_constructors built_modes initial_registry = Inr reg
     \<and> opt_step (\<lambda>x. x) (\<lambda>_. Fin 1) reg (Short (CHR ''m'') (Some (first_word
           (mode_line [] ''pipe'' (ii_help_text (fst (built_modes ! 2))) (fill_ops (snd (built_modes ! 2))))))) (zero_config, None)
         = Inr (zero_config\<lparr>comm_mode_index := 2\<rparr>, None)"
proof -
  obtain reg where reg: "run_constructors built_modes initial_registry = Inr reg" using built_run by blast
  have l: "2 < length built_modes" and n: "ii_name (fst (built_modes ! 2)) = ''pipe''"
    and w: "\<forall>m \<in> set built_modes. ii_name (fst m) \<noteq> [] \<and> CHR '' '' \<notin> set (ii_name (fst m))"
    by (simp_all add: built_modes_def add_comm_mode_def)
  note u = usage_lists_modes [OF built_distinct reg w, where rnd = "\<lambda>x. x" and strtod = "\<lambda>_. Fin 1" and c = zero_config
      and str = None and table = "[]"]
  from conjunct1 [OF conjunct2 [OF u], rule_format, OF l] reg show ?thesis unfolding n by auto
qed

text \<open>
  C21: the announcement against the run. The mode named is the one whose operations the configuration has, and
  a child that reports itself ready is bound to the cpu announced for it. A run announced for a number of
  seconds is stopped by a tick of the timer exactly from that many seconds after the release on. A run time of 0,
  documented as running continuously, is announced as indefinite, but the first tick of all stops that run. And
  a tick is what it takes: with an update interval of 0 no timer is set, whatever run time is announced.
\<close>

theorem announced_run:
  assumes "main env args w0 = Inr (c, w, s0)" "run_constructors built_modes initial_registry = Inr reg"
    and "fold_res (\<lambda>f. f) (do_thread_work c cenv pre t) cx = Inr cx'"
    and "\<not> in_interrupt s" "\<not> visited s" "\<not> stop s" "\<not> timer s" "\<forall>u. child s u \<noteq> Zombie"
  shows "\<exists>m \<in> set built_modes. announce reg c =
        Inr (''Configuring to run '' @ (if 0 < runtime c then ''for '' @ dec_int (runtime c) @ '' seconds'' else ''indefinitely'')
          @ '' in '' @ [CHR 0x27] @ ii_name (fst m) @ [CHR 0x27] @ '' mode''
          @ (if cfg_set_affinity c
             then '', with threads bound to cpus '' @ dec_int (cpu c Ping) @ '' and '' @ dec_int (cpu c Pong)
             else '', with no cpu affinity'') @ [CHR 0x0A])
      \<and> (\<exists>sh po. cfg_ops c = (fill_ops (snd m))\<lparr>comm_show_options := sh, comm_parse_options := po\<rparr>)
      \<and> cx_cpu cx' = (if cfg_set_affinity c then Some (cpu c t) else cx_cpu cx)
      \<and> (0 < runtime c \<longrightarrow> (\<forall>now. phase (monitor_interrupt now (monitor_start (run_cfg c) t0 s)) = M_stopping
            \<longleftrightarrow> of_int (runtime c) \<le> now - t0))
      \<and> (runtime c = 0 \<longrightarrow> (\<forall>now \<ge> t0. phase (monitor_interrupt now (monitor_start (run_cfg c) t0 s)) = M_stopping))
      \<and> (timer (monitor_start (run_cfg c) t0 s) \<longleftrightarrow> \<not> (tv_sec (stats_interval c) = 0 \<and> tv_usec (stats_interval c) = 0))"
proof -
  have b: "cx_cpu cx' = (if cfg_set_affinity c then Some (cpu c t) else cx_cpu cx)"
    by (rule setup_cpu [OF assms(3)])
  have p: "phase (monitor_interrupt now (monitor_start (run_cfg c) t0 s)) = M_stopping \<longleftrightarrow> t0 + of_int (runtime c) \<le> now" for now
    using runtime_enforced_by_ticks [OF assms(4-6,8), of now "run_cfg c" t0] by (simp add: run_cfg_def)
  have q: "t0 + of_int (runtime c) \<le> now \<longleftrightarrow> of_int (runtime c) \<le> now - t0" for now by linarith
  have i: "timer (monitor_start (run_cfg c) t0 s) \<longleftrightarrow> \<not> (tv_sec (stats_interval c) = 0 \<and> tv_usec (stats_interval c) = 0)"
    using assms(7) by (simp add: monitor_start_def setup_monitor_timer_def run_cfg_def)
  from main_announces [OF assms(1,2)] b p q i show ?thesis unfolding comm_setup_text_def by simp
qed

theorem announced_run_witness:
  "\<exists>c w s0 reg m. main all_well ([Short (CHR ''m'') (Some ''pipe'')], []) fresh_world = Inr (c, w, s0)
     \<and> run_constructors built_modes initial_registry = Inr reg \<and> m \<in> set built_modes
     \<and> announce reg c = Inr (comm_setup_text c (ii_name (fst m)))"
proof -
  obtain c w s0 where m: "main all_well ([Short (CHR ''m'') (Some ''pipe'')], []) fresh_world = Inr (c, w, s0)"
    using all_well_pipe by blast
  obtain reg where reg: "run_constructors built_modes initial_registry = Inr reg" using built_run by blast
  have s: "\<not> in_interrupt init_threads" "\<not> visited init_threads" "\<not> stop init_threads" "\<not> timer init_threads" "\<forall>u. child init_threads u \<noteq> Zombie"
    by (simp_all add: init_threads_def)
  obtain cx' where "fold_res (\<lambda>f. f) (do_thread_work c example_child_env (\<lambda>d. d) Ping) example_child = Inr cx'"
    using setup_succeeds [of example_child_env c Ping] by (auto simp: example_child_env_def)
  from announced_run [OF m reg this s] m reg show ?thesis unfolding comm_setup_text_def by blast
qed

end
