(* ===== verification/Pthread_Life.thy ===== *)
theory Pthread_Life
  imports Signals
begin

text \<open>
  The life of a run with \<^verbatim>\<open>-t pthread\<close>. \<^verbatim>\<open>do_pthread\<close> starts the two children as threads of the monitor's own
  process, so everything that \<^verbatim>\<open>threads_monitor.c\<close> and \<^verbatim>\<open>threads_children.c\<close> do with processes means
  something else here: both entries of \<^verbatim>\<open>thread_info\<close> get the process id of the monitor, there is one
  table of signal dispositions, a signal sent to that id is taken by any of the three threads, and
  \<^verbatim>\<open>exit\<close> in any of them ends all of them. There are no child processes to wait for.
\<close>

section \<open>State\<close>

datatype proc_end = Exited int | Killed int

text \<open>
  The shared area and the monitor as in \<open>life\<close>; \<open>held\<close> marks a child in which a signal handler is
  waiting, \<open>sig_pending\<close> the signals sent to the process and not yet taken.
\<close>

record pproc =
  core :: life
  self :: int
  disp :: dispositions
  held :: "tid \<Rightarrow> bool"
  sig_pending :: "int \<Rightarrow> bool"
  ended :: "proc_end option"

definition pproc_init :: "int \<Rightarrow> life \<Rightarrow> pproc" where
  "pproc_init me s = \<lparr>core = s, self = me, disp = main_dispositions, held = (\<lambda>_. False), sig_pending = (\<lambda>_. False),
     ended = None\<rparr>"

definition in_core :: "(life \<Rightarrow> life) \<Rightarrow> pproc \<Rightarrow> pproc" where
  "in_core f s = s\<lparr>core := f (core s)\<rparr>"

definition end_with :: "proc_end \<Rightarrow> pproc \<Rightarrow> pproc" where
  "end_with x s = s\<lparr>ended := Some x\<rparr>"

section \<open>The children\<close>

text \<open>
  \<^verbatim>\<open>do_thread_work\<close> in a thread, in three steps: the ids (\<^verbatim>\<open>getpid\<close> is the process of the monitor), the
  handlers, then \<^verbatim>\<open>comm_pre\<close> and the ready flag.
\<close>

definition thread_ids :: "tid \<Rightarrow> int \<Rightarrow> pproc \<Rightarrow> pproc" where
  "thread_ids t tid s =
     in_core (\<lambda>l. let l1 = (if ti_tid (info l t) = 0 then set_tid t tid l else l)
                  in if pid l1 t = 0 then set_pid t (self s) l1 else l1) s"

definition thread_handlers :: "tid \<Rightarrow> pproc \<Rightarrow> pproc" where
  "thread_handlers t s = s\<lparr>disp := child_handlers t (disp s)\<rparr>"

definition thread_report :: "(tid \<Rightarrow> dispositions \<Rightarrow> dispositions) \<Rightarrow> tid \<Rightarrow> pproc \<Rightarrow> pproc" where
  "thread_report pre t s =
     in_core (\<lambda>l. set_child t Ready (l\<lparr>ready := (ready l)(t := True)\<rparr>)) (s\<lparr>disp := pre t (disp s)\<rparr>)"

text \<open>\<^verbatim>\<open>interrupt_thread\<close>, in whatever thread: with the stop flag it ends the process.\<close>

definition interrupt_process :: "pproc \<Rightarrow> pproc" where
  "interrupt_process s = (if stop (core s) then end_with (Exited 0) s else s)"

section \<open>The monitor\<close>

definition kill_self :: "int \<Rightarrow> int \<Rightarrow> pproc \<Rightarrow> int \<times> pproc" where
  "kill_self p sig s = (if p = self s then (0, s\<lparr>sig_pending := (sig_pending s)(sig := True)\<rparr>) else (-1, s))"

definition stop_threads_self :: "pproc \<Rightarrow> pproc" where
  "stop_threads_self s =
     (let s1 = in_core (\<lambda>l. l\<lparr>stop := True\<rparr>) s;
          s2 = snd (send_sig kill_self (pid (core s1) Ping) (CHILD_INTERRUPT_SIGNAL Ping) s1)
      in snd (send_sig kill_self (pid (core s2) Pong) (CHILD_INTERRUPT_SIGNAL Pong) s2))"

text \<open>The thread that runs the handler waits in it: the monitor's (\<open>None\<close>) or that of a child.\<close>

definition wait_in :: "tid option \<Rightarrow> pproc \<Rightarrow> pproc" where
  "wait_in w s = (case w of None \<Rightarrow> in_core (\<lambda>l. l\<lparr>phase := M_stopping\<rparr>) s | Some t \<Rightarrow> s\<lparr>held := (held s)(t := True)\<rparr>)"

definition wake_in :: "tid option \<Rightarrow> pproc \<Rightarrow> pproc" where
  "wake_in w s = (if w = None then in_core wake s else s)"

definition stop_timer_self :: "pproc \<Rightarrow> pproc" where
  "stop_timer_self s = (in_core stop_timer s)\<lparr>disp := (disp s)(SIGALRM := SIG_IGN)\<rparr>"

definition stop_handler_self :: "tid option \<Rightarrow> pproc \<Rightarrow> pproc" where
  "stop_handler_self w s =
     (if visited (core s) then wake_in w s
      else wait_in w (stop_threads_self (stop_timer_self (in_core (\<lambda>l. l\<lparr>visited := True\<rparr>) s))))"

text \<open>\<^verbatim>\<open>wait4\<close> on the own process id finds no child; otherwise as for processes.\<close>

definition monitor_interrupt_self :: "tid option \<Rightarrow> rat \<Rightarrow> pproc \<Rightarrow> pproc" where
  "monitor_interrupt_self w now s =
     (if in_interrupt (core s) then wake_in w s
      else (let s1 = (if stop (core s) then s else in_core (\<lambda>l. l\<lparr>last_stats_time := now\<rparr>) s)
            in if timeout_time (core s1) \<le> last_stats_time (core s1)
               then stop_handler_self w (in_core (\<lambda>l. l\<lparr>in_interrupt := True\<rparr>) s1)
               else wake_in w s1))"

text \<open>The handlers are installed by \<^verbatim>\<open>do_monitor_work\<close>, after the threads have been created.\<close>

definition monitor_handlers_self :: "pproc \<Rightarrow> pproc" where
  "monitor_handlers_self s = (case monitor_handlers (disp s, core s) of (d, l) \<Rightarrow> s\<lparr>disp := d, core := l\<rparr>)"

definition monitor_start_self :: "life_cfg \<Rightarrow> rat \<Rightarrow> pproc \<Rightarrow> pproc" where
  "monitor_start_self cfg now s =
     (let s1 = in_core (monitor_start cfg now) s
      in if tv_sec (lc_interval cfg) = 0 \<and> tv_usec (lc_interval cfg) = 0 then s1
         else s1\<lparr>disp := (disp s1)(SIGALRM := H_monitor_interrupt)\<rparr>)"

text \<open>
  When the stop handler already waits in a child, its second call returns at once, and so do
  \<^verbatim>\<open>do_monitor_work\<close>, \<^verbatim>\<open>start_threads\<close> and \<^verbatim>\<open>main\<close>, which ends the process.
\<close>

definition monitor_test_self :: "pproc \<Rightarrow> pproc" where
  "monitor_test_self s =
     (if \<not> stop (core s) then in_core (\<lambda>l. l\<lparr>phase := M_about\<rparr>) s
      else if visited (core s) then end_with (Exited 0) s
      else stop_handler_self None s)"

text \<open>A signal is taken by thread \<open>w\<close>.\<close>

definition take_signal_self :: "tid option \<Rightarrow> rat \<Rightarrow> int \<Rightarrow> pproc \<Rightarrow> pproc" where
  "take_signal_self w now sig s =
     (case react (disp s) sig of
        Terminates \<Rightarrow> end_with (Killed sig) s
      | Nothing \<Rightarrow> s
      | Runs h \<Rightarrow> (if h = H_stop_handler then stop_handler_self w s
                   else if h = H_monitor_interrupt then monitor_interrupt_self w now s
                   else if h = H_interrupt_thread then wake_in w (interrupt_process s)
                   else wake_in w s))"

definition can_take :: "tid option \<Rightarrow> pproc \<Rightarrow> bool" where
  "can_take w s = (case w of None \<Rightarrow> True | Some t \<Rightarrow> child (core s) t \<noteq> Absent)"

section \<open>What can happen\<close>

text \<open>
  \<open>ends\<close> allows a thread to end the process on its own: a failed call, a fault, a loop that returns.
  SIGINT can come at any time, SIGALRM while the timer runs, and a signal is taken by any thread.
\<close>

inductive pstep :: "bool \<Rightarrow> (tid \<Rightarrow> dispositions \<Rightarrow> dispositions) \<Rightarrow> life_cfg \<Rightarrow> pproc \<Rightarrow> pproc \<Rightarrow> bool"
  for ends pre cfg where
  P_ids: "ended s = None \<Longrightarrow> child (core s) t = Starting \<Longrightarrow> \<not> held s t \<Longrightarrow> pid (core s) t = 0 \<Longrightarrow> 0 < tid \<Longrightarrow>
    pstep ends pre cfg s (thread_ids t tid s)"
| P_handlers: "ended s = None \<Longrightarrow> child (core s) t = Starting \<Longrightarrow> \<not> held s t \<Longrightarrow> pid (core s) t \<noteq> 0 \<Longrightarrow>
    pstep ends pre cfg s (thread_handlers t s)"
| P_ready: "ended s = None \<Longrightarrow> child (core s) t = Starting \<Longrightarrow> \<not> held s t \<Longrightarrow> pid (core s) t \<noteq> 0 \<Longrightarrow>
    disp s (CHILD_INTERRUPT_SIGNAL t) = H_interrupt_thread \<Longrightarrow> pstep ends pre cfg s (thread_report pre t s)"
| P_go: "ended s = None \<Longrightarrow> child (core s) t = Ready \<Longrightarrow> \<not> held s t \<Longrightarrow> start (core s) \<Longrightarrow>
    pstep ends pre cfg s (in_core (set_child t Running) s)"
| P_ends: "ended s = None \<Longrightarrow> ends \<Longrightarrow> pstep ends pre cfg s (end_with x s)"
| P_signal: "ended s = None \<Longrightarrow> sig_pending s sig \<Longrightarrow> can_take w s \<Longrightarrow>
    pstep ends pre cfg s (take_signal_self w now sig (s\<lparr>sig_pending := (sig_pending s)(sig := False)\<rparr>))"
| P_sigint: "ended s = None \<Longrightarrow> can_take w s \<Longrightarrow> pstep ends pre cfg s (take_signal_self w now SIGINT s)"
| P_tick: "ended s = None \<Longrightarrow> timer (core s) \<Longrightarrow> can_take w s \<Longrightarrow> pstep ends pre cfg s (take_signal_self w now SIGALRM s)"
| P_install: "ended s = None \<Longrightarrow> phase (core s) = M_ready_wait \<Longrightarrow> disp s SIGINT = SIG_DFL \<Longrightarrow>
    pstep ends pre cfg s (monitor_handlers_self s)"
| P_start: "ended s = None \<Longrightarrow> phase (core s) = M_ready_wait \<Longrightarrow> disp s SIGINT = H_stop_handler \<Longrightarrow>
    ready (core s) Ping \<Longrightarrow> ready (core s) Pong \<Longrightarrow> pstep ends pre cfg s (monitor_start_self cfg now s)"
| P_test: "ended s = None \<Longrightarrow> phase (core s) = M_test \<Longrightarrow> pstep ends pre cfg s (monitor_test_self s)"
| P_suspend: "ended s = None \<Longrightarrow> phase (core s) = M_about \<Longrightarrow>
    pstep ends pre cfg s (in_core (\<lambda>l. l\<lparr>phase := M_suspended\<rparr>) s)"
| P_finish: "ended s = None \<Longrightarrow> visited (core s) \<Longrightarrow> pid (core s) Ping = -1 \<Longrightarrow> pid (core s) Pong = -1 \<Longrightarrow>
    pstep ends pre cfg s (end_with (Exited 0) (in_core (stop_finish (lc_cleanup_exits cfg)) s))"

inductive preach :: "bool \<Rightarrow> (tid \<Rightarrow> dispositions \<Rightarrow> dispositions) \<Rightarrow> life_cfg \<Rightarrow> pproc \<Rightarrow> pproc \<Rightarrow> bool"
  for ends pre cfg s0 where
  PR_init: "preach ends pre cfg s0 s0"
| PR_step: "preach ends pre cfg s0 s \<Longrightarrow> pstep ends pre cfg s s' \<Longrightarrow> preach ends pre cfg s0 s'"

inductive_cases pstepE: "pstep ends pre cfg s s'"

lemma preach_trans: "preach ends pre cfg b c \<Longrightarrow> preach ends pre cfg a b \<Longrightarrow> preach ends pre cfg a c"
  by (induction rule: preach.induct) (auto intro: preach.intros)

lemmas self_ops = in_core_def end_with_def thread_ids_def thread_handlers_def thread_report_def interrupt_process_def
  wait_in_def wake_in_def stop_timer_self_def monitor_handlers_self_def monitor_start_self_def
  monitor_handlers_def setup_stop_handler_def setup_crash_handler_def setup_child_signals_def child_handlers_def
  setup_interrupt_signal_def

section \<open>Invariant\<close>

text \<open>
  The recorded ids are unset or the monitor's own; the handlers of the interrupt signals and of SIGINT are
  the intended ones or not there yet; an interrupt is pending only when the program is stopping.
\<close>

definition plife_ok :: "pproc \<Rightarrow> bool" where
  "plife_ok s \<longleftrightarrow>
     0 < self s \<and> (\<forall>t. pid (core s) t = 0 \<or> pid (core s) t = self s) \<and> \<not> final_stats (core s)
     \<and> (start (core s) \<longrightarrow> ready (core s) Ping \<and> ready (core s) Pong) \<and> (\<forall>t. child (core s) t = Running \<longrightarrow> start (core s))
     \<and> (\<forall>t. ready (core s) t \<longrightarrow> pid (core s) t = self s) \<and> (visited (core s) \<longrightarrow> stop (core s))
     \<and> (\<not> start (core s) \<longrightarrow> phase (core s) = M_ready_wait \<or> phase (core s) = M_stopping) \<and> phase (core s) \<noteq> M_exited
     \<and> (\<forall>t. pid (core s) t \<noteq> 0 \<longrightarrow> child (core s) t \<noteq> Absent)"

definition psig_ok :: "pproc \<Rightarrow> bool" where
  "psig_ok s \<longleftrightarrow>
     (\<forall>t. ready (core s) t \<longrightarrow> disp s (CHILD_INTERRUPT_SIGNAL t) = H_interrupt_thread)
     \<and> (\<forall>t. disp s (CHILD_INTERRUPT_SIGNAL t) \<in> {SIG_DFL, H_interrupt_thread})
     \<and> disp s SIGINT \<in> {SIG_DFL, H_stop_handler}
     \<and> (disp s SIGINT = SIG_DFL \<longrightarrow> \<not> visited (core s) \<and> phase (core s) = M_ready_wait)
     \<and> disp s SIGALRM \<in> {SIG_DFL, SIG_IGN, H_monitor_interrupt}
     \<and> (disp s SIGALRM = H_monitor_interrupt \<longrightarrow> disp s SIGINT = H_stop_handler)
     \<and> (\<forall>sig. sig_pending s sig \<longrightarrow> visited (core s) \<and> (\<exists>t. sig = CHILD_INTERRUPT_SIGNAL t))"

definition pproc_ok :: "pproc \<Rightarrow> bool" where
  "pproc_ok s \<longleftrightarrow> plife_ok s \<and> psig_ok s"

lemmas pproc_defs = pproc_ok_def plife_ok_def psig_ok_def

lemma pproc_okD:
  assumes "pproc_ok s"
  shows "0 < self s" "pid (core s) t = 0 \<or> pid (core s) t = self s" "\<not> final_stats (core s)"
    "start (core s) \<Longrightarrow> ready (core s) t" "child (core s) t = Running \<Longrightarrow> start (core s)"
    "ready (core s) t \<Longrightarrow> pid (core s) t = self s" "visited (core s) \<Longrightarrow> stop (core s)"
    "\<not> start (core s) \<Longrightarrow> phase (core s) = M_ready_wait \<or> phase (core s) = M_stopping" "phase (core s) \<noteq> M_exited"
    "pid (core s) t \<noteq> 0 \<Longrightarrow> child (core s) t \<noteq> Absent"
    "ready (core s) t \<Longrightarrow> disp s (CHILD_INTERRUPT_SIGNAL t) = H_interrupt_thread"
    "disp s (CHILD_INTERRUPT_SIGNAL t) = SIG_DFL \<or> disp s (CHILD_INTERRUPT_SIGNAL t) = H_interrupt_thread"
    "disp s SIGINT = SIG_DFL \<or> disp s SIGINT = H_stop_handler"
    "visited (core s) \<Longrightarrow> disp s SIGINT = H_stop_handler" "phase (core s) \<noteq> M_ready_wait \<Longrightarrow> disp s SIGINT = H_stop_handler"
    "disp s SIGALRM = SIG_DFL \<or> disp s SIGALRM = SIG_IGN \<or> disp s SIGALRM = H_monitor_interrupt"
    "disp s SIGALRM = H_monitor_interrupt \<Longrightarrow> disp s SIGINT = H_stop_handler"
    "sig_pending s sig \<Longrightarrow> visited (core s)" "sig_pending s sig \<Longrightarrow> \<exists>t. sig = CHILD_INTERRUPT_SIGNAL t"
  using assms unfolding pproc_defs by (cases t; auto)+

text \<open>A \<^verbatim>\<open>comm_pre\<close> that leaves the signals of the life cycle alone.\<close>

definition pre_ok :: "(tid \<Rightarrow> dispositions \<Rightarrow> dispositions) \<Rightarrow> bool" where
  "pre_ok pre \<longleftrightarrow> (\<forall>t d sig. sig \<in> {SIGINT, SIGALRM, SIGCHLD, CHILD_INTERRUPT_SIGNAL Ping, CHILD_INTERRUPT_SIGNAL Pong}
     \<longrightarrow> pre t d sig = d sig)"

lemma interrupt_signals [simp]:
  "CHILD_INTERRUPT_SIGNAL Ping = 60" "CHILD_INTERRUPT_SIGNAL Pong = 61"
  by (simp_all add: signal_numbers)

lemma signals_differ [simp]:
  "SIGINT \<noteq> SIGALRM" "CHILD_INTERRUPT_SIGNAL t \<noteq> SIGALRM" "CHILD_INTERRUPT_SIGNAL t \<noteq> SIGINT"
  by (simp add: signal_numbers, (cases t; simp add: signal_numbers)+)

lemma interrupt_signal_cases: "CHILD_INTERRUPT_SIGNAL t = 60 \<or> CHILD_INTERRUPT_SIGNAL t = 61"
  by (cases t) simp_all

lemma ex_tid: "(\<exists>t. P t) \<longleftrightarrow> P Ping \<or> P Pong"
  by (metis tid.exhaust)

lemma pre_ok_keeps:
  assumes "pre_ok pre"
  shows "pre t d (CHILD_INTERRUPT_SIGNAL u) = d (CHILD_INTERRUPT_SIGNAL u)" "pre t d SIGINT = d SIGINT"
  using assms unfolding pre_ok_def by (cases u; simp)+

lemma stop_threads_self_core: "core (stop_threads_self s) = (core s)\<lparr>stop := True\<rparr>"
  "self (stop_threads_self s) = self s" "disp (stop_threads_self s) = disp s" "held (stop_threads_self s) = held s"
  "ended (stop_threads_self s) = ended s"
  by (simp_all add: stop_threads_self_def send_sig_def kill_self_def in_core_def Let_def)

lemma stop_threads_self_pending:
  assumes "\<And>t. pid (core s) t = 0 \<or> pid (core s) t = self s" "0 < self s"
  shows "sig_pending (stop_threads_self s) = (\<lambda>sig. sig_pending s sig
      \<or> (\<exists>t. sig = CHILD_INTERRUPT_SIGNAL t \<and> pid (core s) t = self s))"
proof -
  let ?s = "in_core (\<lambda>l. l\<lparr>stop := True\<rparr>) s"
  have f: "pid (core ?s) = pid (core s)" "self ?s = self s" "sig_pending ?s = sig_pending s"
    by (simp_all add: in_core_def pid_def fun_eq_iff)
  have "pid (core s) Ping = 0 \<or> pid (core s) Ping = self s" "pid (core s) Pong = 0 \<or> pid (core s) Pong = self s"
    using assms(1) by auto
  with assms(2) show ?thesis
    by (elim disjE) (auto simp: stop_threads_self_def send_sig_def kill_self_def f ex_tid fun_eq_iff Let_def)
qed

lemma stop_handler_self_fields:
  assumes "\<not> visited (core s)"
  shows "core (stop_handler_self w s) = (core s)\<lparr>visited := True, timer := False, stop := True,
        phase := (if w = None then M_stopping else phase (core s))\<rparr>"
    "self (stop_handler_self w s) = self s" "disp (stop_handler_self w s) = (disp s)(SIGALRM := SIG_IGN)"
    "held (stop_handler_self w s) = (case w of None \<Rightarrow> held s | Some t \<Rightarrow> (held s)(t := True))"
    "ended (stop_handler_self w s) = ended s"
  using assms by (auto simp: stop_handler_self_def wait_in_def stop_threads_self_core stop_timer_self_def stop_timer_def
      in_core_def split: option.splits)

lemma stop_handler_self_pending:
  assumes "\<not> visited (core s)" "\<And>t. pid (core s) t = 0 \<or> pid (core s) t = self s" "0 < self s"
  shows "sig_pending (stop_handler_self w s) = (\<lambda>sig. sig_pending s sig
      \<or> (\<exists>t. sig = CHILD_INTERRUPT_SIGNAL t \<and> pid (core s) t = self s))"
proof -
  let ?s = "stop_timer_self (in_core (\<lambda>l. l\<lparr>visited := True\<rparr>) s)"
  have f: "pid (core ?s) = pid (core s)" "self ?s = self s" "sig_pending ?s = sig_pending s"
    by (simp_all add: stop_timer_self_def stop_timer_def in_core_def pid_def fun_eq_iff)
  have "sig_pending (stop_threads_self ?s) = (\<lambda>sig. sig_pending s sig
      \<or> (\<exists>t. sig = CHILD_INTERRUPT_SIGNAL t \<and> pid (core s) t = self s))"
    using stop_threads_self_pending [of ?s] assms(2,3) unfolding f by blast
  with assms(1) show ?thesis
    by (simp add: stop_handler_self_def wait_in_def in_core_def split: option.splits)
qed

lemma wake_in_fields [simp]:
  "self (wake_in w s) = self s" "disp (wake_in w s) = disp s" "sig_pending (wake_in w s) = sig_pending s"
  "ended (wake_in w s) = ended s" "held (wake_in w s) = held s"
  "info (core (wake_in w s)) = info (core s)" "final_stats (core (wake_in w s)) = final_stats (core s)"
  "start (core (wake_in w s)) = start (core s)" "stop (core (wake_in w s)) = stop (core s)"
  "child (core (wake_in w s)) = child (core s)" "ready (core (wake_in w s)) = ready (core s)"
  "visited (core (wake_in w s)) = visited (core s)" "timer (core (wake_in w s)) = timer (core s)"
  "phase (core (wake_in w s)) = (if w = None \<and> phase (core s) = M_suspended then M_test else phase (core s))"
  by (simp_all add: wake_in_def in_core_def wake_def)

lemma wake_in_ok: "pproc_ok s \<Longrightarrow> pproc_ok (wake_in w s)"
  unfolding pproc_defs pid_def by (simp split del: if_split) auto

lemma end_with_ok: "pproc_ok s \<Longrightarrow> pproc_ok (end_with x s)"
  unfolding pproc_defs end_with_def by simp

lemma stop_handler_self_ok:
  assumes "pproc_ok s" "disp s SIGINT = H_stop_handler"
  shows "pproc_ok (stop_handler_self w s)"
proof (cases "visited (core s)")
  case True
  then show ?thesis using wake_in_ok [OF assms(1)] by (simp add: stop_handler_self_def)
next
  case False
  note p = pproc_okD(2) [OF assms(1)] pproc_okD(1) [OF assms(1)]
  note f = stop_handler_self_fields [OF False, of w] stop_handler_self_pending [OF False p, of w]
  have c: "((disp s)(SIGALRM := SIG_IGN)) (CHILD_INTERRUPT_SIGNAL t) = disp s (CHILD_INTERRUPT_SIGNAL t)"
    "((disp s)(SIGALRM := SIG_IGN)) SIGINT = disp s SIGINT"
    "((disp s)(SIGALRM := SIG_IGN)) SIGALRM = SIG_IGN" for t
    by (cases t; simp add: signal_numbers)+
  show ?thesis using assms False unfolding pproc_defs f c by (simp add: pid_def) blast
qed

lemma in_core_ok:
  assumes "pproc_ok s" "info (f (core s)) = info (core s)" "final_stats (f (core s)) = final_stats (core s)"
    "start (f (core s)) = start (core s)" "child (f (core s)) = child (core s)" "ready (f (core s)) = ready (core s)"
    "visited (f (core s)) = visited (core s)" "stop (f (core s)) = stop (core s)"
    "disp s SIGINT = H_stop_handler \<and> start (core s) \<and> phase (f (core s)) \<noteq> M_exited
      \<or> phase (f (core s)) = phase (core s)"
  shows "pproc_ok (in_core f s)"
  using assms unfolding pproc_defs in_core_def pid_def by (elim disjE) simp_all

lemma monitor_interrupt_self_ok:
  assumes "pproc_ok s" "disp s SIGINT = H_stop_handler"
  shows "pproc_ok (monitor_interrupt_self w now s)"
proof -
  let ?s = "if stop (core s) then s else in_core (\<lambda>l. l\<lparr>last_stats_time := now\<rparr>) s"
  have s: "pproc_ok ?s" "disp ?s SIGINT = H_stop_handler" using assms in_core_ok [OF assms(1)] by (auto simp: in_core_def)
  have "pproc_ok (in_core (\<lambda>l. l\<lparr>in_interrupt := True\<rparr>) ?s)" by (rule in_core_ok [OF s(1)]) simp_all
  then have "pproc_ok (stop_handler_self w (in_core (\<lambda>l. l\<lparr>in_interrupt := True\<rparr>) ?s))"
    by (rule stop_handler_self_ok) (use s(2) in \<open>simp add: in_core_def\<close>)
  with wake_in_ok [OF assms(1)] wake_in_ok [OF s(1)] show ?thesis
    unfolding monitor_interrupt_self_def Let_def by (simp only: if_split) blast
qed

lemma take_signal_self_ok:
  assumes "pproc_ok s" "sig = SIGINT \<or> sig = SIGALRM \<or> (\<exists>t. sig = CHILD_INTERRUPT_SIGNAL t)"
  shows "pproc_ok (take_signal_self w now sig s)"
  using assms(2)
proof (elim disjE exE)
  assume sig: "sig = SIGINT"
  note pproc_okD(13) [OF assms(1)]
  then show ?thesis
    using end_with_ok [OF assms(1)] stop_handler_self_ok [OF assms(1)]
    by (auto simp: sig take_signal_self_def react_def signal_numbers)
next
  assume sig: "sig = SIGALRM"
  note pproc_okD(16,17) [OF assms(1)]
  then show ?thesis
    using end_with_ok [OF assms(1)] monitor_interrupt_self_ok [OF assms(1)] assms(1)
    by (auto simp: sig take_signal_self_def react_def signal_numbers)
next
  fix t assume sig: "sig = CHILD_INTERRUPT_SIGNAL t"
  note d = pproc_okD(12) [OF assms(1), of t]
  have "pproc_ok (interrupt_process s)" using end_with_ok [OF assms(1)] assms(1) by (simp add: interrupt_process_def)
  with d end_with_ok [OF assms(1)] wake_in_ok interrupt_signal_cases [of t] show ?thesis
    by (auto simp: sig take_signal_self_def react_def SIGCHLD_def)
qed

text \<open>An interrupt that is taken while the program stops ends it.\<close>

lemma interrupt_ends:
  assumes "pproc_ok s" "stop (core s)"
  shows "ended (take_signal_self w now (CHILD_INTERRUPT_SIGNAL t) s) =
     Some (if disp s (CHILD_INTERRUPT_SIGNAL t) = H_interrupt_thread then Exited 0 else Killed (CHILD_INTERRUPT_SIGNAL t))"
proof -
  note d = pproc_okD(12) [OF assms(1), of t]
  with assms(2) interrupt_signal_cases [of t] show ?thesis
    by (auto simp: take_signal_self_def react_def SIGCHLD_def end_with_def interrupt_process_def)
qed

lemma thread_steps_ok:
  assumes "pproc_ok s" "child (core s) t = Starting"
  shows "pid (core s) t = 0 \<Longrightarrow> pproc_ok (thread_ids t n s)"
    and "pproc_ok (thread_handlers t s)"
    and "pid (core s) t \<noteq> 0 \<Longrightarrow> disp s (CHILD_INTERRUPT_SIGNAL t) = H_interrupt_thread \<Longrightarrow> pre_ok pre
      \<Longrightarrow> pproc_ok (thread_report pre t s)"
    and "start (core s) \<Longrightarrow> pproc_ok (in_core (set_child t Running) s)"
proof -
  show "pid (core s) t = 0 \<Longrightarrow> pproc_ok (thread_ids t n s)"
    using assms unfolding pproc_defs thread_ids_def in_core_def pid_def set_pid_def set_tid_def Let_def by auto
  have n: "(child_handlers t (disp s)) sig = (if sig = 4 then H_print_backtrace2
      else if sig = CHILD_INTERRUPT_SIGNAL t then H_interrupt_thread else disp s sig)" for sig
    by (simp add: child_handlers_def setup_crash_handler_def setup_interrupt_signal_def SIGILL_def)
  have m: "(child_handlers t (disp s)) (CHILD_INTERRUPT_SIGNAL u) = (if u = t then H_interrupt_thread else disp s (CHILD_INTERRUPT_SIGNAL u))"
    "(child_handlers t (disp s)) SIGINT = disp s SIGINT" "(child_handlers t (disp s)) SIGALRM = disp s SIGALRM" for u
    unfolding n by (cases t; cases u; simp add: signal_numbers)+
  show "pproc_ok (thread_handlers t s)"
    using assms unfolding pproc_defs thread_handlers_def by (auto simp: m)
  show "start (core s) \<Longrightarrow> pproc_ok (in_core (set_child t Running) s)"
    using assms unfolding pproc_defs in_core_def set_child_def pid_def by auto
  assume p: "pid (core s) t \<noteq> 0" "disp s (CHILD_INTERRUPT_SIGNAL t) = H_interrupt_thread" "pre_ok pre"
  have "pre t d SIGALRM = d SIGALRM" for d using p(3) unfolding pre_ok_def by simp
  with p show "pproc_ok (thread_report pre t s)"
    using assms unfolding pproc_defs thread_report_def in_core_def set_child_def pid_def
    by (intro conjI) (auto simp: pre_ok_keeps [OF p(3)])
qed

lemma monitor_handlers_self_ok:
  assumes "pproc_ok s" "disp s SIGINT = SIG_DFL"
  shows "pproc_ok (monitor_handlers_self s)"
proof -
  have d: "fst (monitor_handlers (disp s, l)) (CHILD_INTERRUPT_SIGNAL t) = disp s (CHILD_INTERRUPT_SIGNAL t)"
    "fst (monitor_handlers (disp s, l)) SIGALRM = disp s SIGALRM" "fst (monitor_handlers (disp s, l)) SIGINT = H_stop_handler" for t l
    by (cases t; simp add: monitor_handlers_def setup_stop_handler_def setup_crash_handler_def setup_child_signals_def signal_numbers)+
  have "monitor_handlers_self s = s\<lparr>disp := fst (monitor_handlers (disp s, core s)), core := (core s)\<lparr>stop := False\<rparr>\<rparr>"
    by (simp add: monitor_handlers_self_def monitor_handlers_def setup_stop_handler_def)
  with assms show ?thesis
    unfolding pproc_defs by (auto simp: d pid_def)
qed

lemma monitor_start_self_ok:
  assumes "pproc_ok s" "disp s SIGINT = H_stop_handler" "ready (core s) Ping" "ready (core s) Pong"
  shows "pproc_ok (monitor_start_self cfg now s)"
proof -
  have d: "((disp s)(SIGALRM := H_monitor_interrupt)) (CHILD_INTERRUPT_SIGNAL t) = disp s (CHILD_INTERRUPT_SIGNAL t)"
    "((disp s)(SIGALRM := H_monitor_interrupt)) SIGINT = disp s SIGINT" for t
    by (cases t; simp add: signal_numbers)+
  let ?c = "monitor_start cfg now (core s)"
  have c: "info ?c = info (core s)" "final_stats ?c = final_stats (core s)" "child ?c = child (core s)"
    "ready ?c = ready (core s)" "visited ?c = visited (core s)" "stop ?c = stop (core s)" "start ?c" "phase ?c = M_test"
    by (simp_all add: monitor_start_def setup_monitor_timer_def)
  show ?thesis
    using assms unfolding pproc_defs monitor_start_self_def in_core_def Let_def pid_def
    by (simp add: c d)
qed

lemma pstep_ok:
  assumes "pstep ends pre cfg s s'" "pproc_ok s" "pre_ok pre"
  shows "pproc_ok s'"
  using assms(1)
proof cases
  case (P_signal sig w now)
  have "pproc_ok (s\<lparr>sig_pending := (sig_pending s)(sig := False)\<rparr>)" using assms(2) unfolding pproc_defs by auto
  moreover have "\<exists>t. sig = CHILD_INTERRUPT_SIGNAL t" using assms(2) P_signal(3) unfolding pproc_defs by blast
  ultimately show ?thesis using take_signal_self_ok P_signal(1) by blast
next
  case P_finish
  have "0 < self s" "pid (core s) Ping = 0 \<or> pid (core s) Ping = self s" using assms(2) unfolding pproc_defs by blast+
  with P_finish(4) show ?thesis by simp
next
  case P_test
  have d: "disp s SIGINT = H_stop_handler" "start (core s)" using assms(2) P_test(3) unfolding pproc_defs by auto
  have "pproc_ok (in_core (\<lambda>l. l\<lparr>phase := M_about\<rparr>) s)" by (rule in_core_ok [OF assms(2)]) (simp_all add: d)
  then show ?thesis using P_test(1) stop_handler_self_ok [OF assms(2) d(1)] end_with_ok [OF assms(2)]
    by (simp add: monitor_test_self_def)
next
  case P_suspend
  have d: "disp s SIGINT = H_stop_handler" "start (core s)" using assms(2) P_suspend(3) unfolding pproc_defs by auto
  show ?thesis unfolding P_suspend(1) by (rule in_core_ok [OF assms(2)]) (simp_all add: d)
next
  case (P_go t)
  then show ?thesis using assms(2) unfolding pproc_defs in_core_def set_child_def pid_def by auto
qed (use assms(2,3) thread_steps_ok [OF assms(2)] end_with_ok take_signal_self_ok monitor_handlers_self_ok monitor_start_self_ok in blast)+

lemma preach_ok:
  assumes "preach ends pre cfg s0 s" "pproc_ok s0" "pre_ok pre"
  shows "pproc_ok s"
  using assms by (induction rule: preach.induct) (auto intro: pstep_ok)

section \<open>Stopping\<close>

text \<open>The stop handler is entered from a state that differs from the one before only in the time of the last row.\<close>

definition same_life :: "pproc \<Rightarrow> pproc \<Rightarrow> bool" where
  "same_life s s' \<longleftrightarrow> self s' = self s \<and> disp s' = disp s \<and> held s' = held s \<and> sig_pending s' = sig_pending s
     \<and> ended s' = ended s \<and> info (core s') = info (core s) \<and> child (core s') = child (core s)
     \<and> ready (core s') = ready (core s) \<and> start (core s') = start (core s) \<and> phase (core s') = phase (core s)
     \<and> visited (core s') = visited (core s)"

lemma monitor_interrupt_self_cases:
  obtains "monitor_interrupt_self w now s = wake_in w s"
  | s' where "same_life s s'" "monitor_interrupt_self w now s = wake_in w s'"
  | s' where "same_life s s'" "monitor_interrupt_self w now s = stop_handler_self w s'"
proof -
  let ?s = "if stop (core s) then s else in_core (\<lambda>l. l\<lparr>last_stats_time := now\<rparr>) s"
  have "same_life s ?s" "same_life s (in_core (\<lambda>l. l\<lparr>in_interrupt := True\<rparr>) ?s)" by (simp_all add: same_life_def in_core_def)
  then show thesis using that unfolding monitor_interrupt_self_def Let_def by metis
qed

lemma take_signal_self_cases:
  assumes "pproc_ok s" "sig = SIGINT \<or> sig = SIGALRM"
  obtains "take_signal_self w now sig s = s" | "take_signal_self w now sig s = end_with (Killed sig) s"
  | s' where "same_life s s'" "take_signal_self w now sig s = wake_in w s'"
  | s' where "same_life s s'" "take_signal_self w now sig s = stop_handler_self w s'"
proof -
  note i = pproc_okD(13,16) [OF assms(1)]
  have r: "same_life s s" by (simp add: same_life_def)
  consider "take_signal_self w now sig s = s" | "take_signal_self w now sig s = end_with (Killed sig) s"
    | "take_signal_self w now sig s = stop_handler_self w s" | "take_signal_self w now sig s = monitor_interrupt_self w now s"
    using i assms(2) by (auto simp: take_signal_self_def react_def SIGINT_def SIGALRM_def SIGCHLD_def)
  then show thesis
    using that r by cases (blast, blast, blast, metis monitor_interrupt_self_cases)
qed

lemma stop_entered:
  assumes "pstep ends pre cfg s s1" "pproc_ok s" "\<not> visited (core s)" "visited (core s1)"
  obtains w s' where "same_life s s'" "can_take w s" "s1 = stop_handler_self w s'"
  using assms(1)
proof cases
  case (P_signal sig w now)
  then show ?thesis using assms(2,3) unfolding pproc_defs by blast
next
  case (P_sigint w now)
  from assms(2) show ?thesis
    by (rule take_signal_self_cases [of s SIGINT w now]) (use that P_sigint assms(3,4) in \<open>auto simp: end_with_def same_life_def\<close>)
next
  case (P_tick w now)
  from assms(2) show ?thesis
    by (rule take_signal_self_cases [of s SIGALRM w now]) (use that P_tick assms(3,4) in \<open>auto simp: end_with_def same_life_def\<close>)
next
  case P_test
  have "same_life s s" "can_take None s" by (simp_all add: same_life_def can_take_def)
  with that P_test assms(3,4) show ?thesis by (auto simp: monitor_test_self_def in_core_def split: if_splits)
qed (use assms(3,4) in \<open>auto simp: self_ops set_tid_def set_pid_def set_child_def monitor_start_def setup_monitor_timer_def Let_def
  stop_finish_def split: if_splits\<close>)

lemma stop_entered_running:
  assumes "pstep ends pre cfg s s1" "pproc_ok s" "\<not> visited (core s)" "visited (core s1)"
  shows "ended s1 = None"
proof -
  have "ended s = None" using assms(1) by cases
  moreover obtain w s' where "same_life s s'" "s1 = stop_handler_self w s'" using stop_entered [OF assms] by blast
  ultimately show ?thesis using assms(3) stop_handler_self_fields(5) [of s' w] by (simp add: same_life_def)
qed

text \<open>A ready child to whose signal the stop handler has sent: the process has ended or will on taking it.\<close>

definition told_self :: "tid \<Rightarrow> pproc \<Rightarrow> bool" where
  "told_self t s \<longleftrightarrow> ended s \<noteq> None \<or> visited (core s) \<and> sig_pending s (CHILD_INTERRUPT_SIGNAL t)
     \<and> disp s (CHILD_INTERRUPT_SIGNAL t) = H_interrupt_thread \<and> child (core s) t \<noteq> Absent"

lemma told_same: "same_life s s' \<Longrightarrow> told_self t s \<Longrightarrow> told_self t s'"
  by (auto simp: told_self_def same_life_def)

lemma told_wake: "told_self t s \<Longrightarrow> told_self t (wake_in w s)"
  by (auto simp: told_self_def)

lemma told_take:
  assumes "told_self t s" "pproc_ok s" "sig = SIGINT \<or> sig = SIGALRM" "ended s = None"
  shows "told_self t (take_signal_self w now sig s)"
proof -
  have v: "visited (core s)" using assms(1,4) by (simp add: told_self_def)
  from assms(2,3) show ?thesis
  proof (rule take_signal_self_cases [of s sig w now])
    fix s' assume s: "same_life s s'" "take_signal_self w now sig s = stop_handler_self w s'"
    then have "take_signal_self w now sig s = wake_in w s'" using v by (simp add: stop_handler_self_def same_life_def)
    moreover have "told_self t (wake_in w s')" by (rule told_wake [OF told_same [OF s(1) assms(1)]])
    ultimately show ?thesis by metis
  next
    have "told_self t (end_with (Killed sig) s)" by (simp add: told_self_def end_with_def)
    then show "told_self t (take_signal_self w now sig s)" if "take_signal_self w now sig s = end_with (Killed sig) s" using that by simp
  qed (use assms(1) told_wake [OF told_same] in simp_all)
qed

lemma told_step:
  assumes "pstep ends pre cfg s s'" "told_self t s" "pproc_ok s" "pre_ok pre"
  shows "told_self t s'"
proof -
  have n: "ended s = None" using assms(1) by cases
  then have v: "visited (core s)" "sig_pending s (CHILD_INTERRUPT_SIGNAL t)"
      "disp s (CHILD_INTERRUPT_SIGNAL t) = H_interrupt_thread" "child (core s) t \<noteq> Absent"
    using assms(2) by (simp_all add: told_self_def)
  have st: "stop (core s)" using v(1) assms(3) unfolding pproc_defs by blast
  from assms(1) show ?thesis
  proof cases
    case (P_signal sig w now)
    obtain u where u: "sig = CHILD_INTERRUPT_SIGNAL u" using assms(3) P_signal(3) unfolding pproc_defs by blast
    have "pproc_ok (s\<lparr>sig_pending := (sig_pending s)(sig := False)\<rparr>)" using assms(3) unfolding pproc_defs by auto
    from interrupt_ends [OF this, of w now u] st show ?thesis using P_signal(1) u by (simp add: told_self_def)
  next
    case (P_sigint w now)
    then show ?thesis using told_take [OF assms(2,3) _ n] by simp
  next
    case (P_tick w now)
    then show ?thesis using told_take [OF assms(2,3) _ n] by simp
  next
    case P_install
    then show ?thesis using assms(3) v(1) unfolding pproc_defs by auto
  next
    case (P_handlers u)
    then show ?thesis using v by (simp add: told_self_def thread_handlers_def child_handlers_def setup_crash_handler_def
        setup_interrupt_signal_def)
       (metis interrupt_signal_cases SIGILL_def numeral_eq_iff num.distinct num.inject)
  qed (use v st n pre_ok_keeps [OF assms(4)] in \<open>auto simp: told_self_def self_ops set_tid_def set_pid_def set_child_def
      monitor_start_def setup_monitor_timer_def monitor_test_self_def stop_finish_def Let_def\<close>)
qed

lemma told_reach:
  assumes "preach ends pre cfg s s'" "told_self t s" "pproc_ok s" "pre_ok pre"
  shows "told_self t s'"
  using assms
proof (induction rule: preach.induct)
  case (PR_step s1 s2)
  then show ?case using told_step preach_ok by blast
qed

text \<open>Told, the process can end at once, with success.\<close>

lemma told_ends:
  assumes "told_self t s" "pproc_ok s" "ended s = None"
  shows "\<exists>s'. pstep ends pre cfg s s' \<and> ended s' = Some (Exited 0)"
proof -
  let ?s = "s\<lparr>sig_pending := (sig_pending s)(CHILD_INTERRUPT_SIGNAL t := False)\<rparr>"
  have v: "visited (core s)" "sig_pending s (CHILD_INTERRUPT_SIGNAL t)" "child (core s) t \<noteq> Absent"
      "disp s (CHILD_INTERRUPT_SIGNAL t) = H_interrupt_thread"
    using assms(1,3) by (simp_all add: told_self_def)
  have "pproc_ok ?s" "stop (core ?s)" using assms(2) v(1) unfolding pproc_defs by auto
  from interrupt_ends [OF this, of "Some t" 0 t] v(4)
  have "ended (take_signal_self (Some t) 0 (CHILD_INTERRUPT_SIGNAL t) ?s) = Some (Exited 0)" by simp
  moreover have "pstep ends pre cfg s (take_signal_self (Some t) 0 (CHILD_INTERRUPT_SIGNAL t) ?s)"
    using assms(3) v by (intro P_signal) (simp_all add: can_take_def)
  ultimately show ?thesis by blast
qed

text \<open>
  How the process can end once it is stopping, if no thread fails: with success, or killed by the interrupt signal of a
  child that has not installed the handler for it yet. The timer never runs without a handler.
\<close>

definition alarm_ok :: "pproc \<Rightarrow> bool" where
  "alarm_ok s \<longleftrightarrow> (timer (core s) \<longrightarrow> disp s SIGALRM \<noteq> SIG_DFL)"

lemma alarm_stop:
  assumes "alarm_ok s"
  shows "alarm_ok (stop_handler_self w s)"
proof (cases "visited (core s)")
  case True
  then show ?thesis using assms by (simp add: alarm_ok_def stop_handler_self_def)
next
  case False
  then show ?thesis by (simp add: alarm_ok_def stop_handler_self_fields)
qed

lemma alarm_interrupt: "alarm_ok s \<Longrightarrow> alarm_ok (monitor_interrupt_self w now s)"
  unfolding monitor_interrupt_self_def Let_def
  by (auto intro!: alarm_stop) (simp_all add: alarm_ok_def in_core_def)

lemma alarm_take: "alarm_ok s \<Longrightarrow> alarm_ok (take_signal_self w now sig s)"
  unfolding take_signal_self_def
  by (auto intro!: alarm_stop alarm_interrupt split: reaction.split) (simp_all add: alarm_ok_def end_with_def interrupt_process_def)

lemma alarm_step:
  assumes "pstep ends pre cfg s s'" "alarm_ok s" "pre_ok pre"
  shows "alarm_ok s'"
  using assms(1)
proof cases
  case (P_signal sig w now)
  have "alarm_ok (s\<lparr>sig_pending := (sig_pending s)(sig := False)\<rparr>)" using assms(2) by (simp add: alarm_ok_def)
  then show ?thesis unfolding P_signal(1) by (rule alarm_take)
next
  case (P_handlers t)
  have "child_handlers t (disp s) SIGALRM = disp s SIGALRM"
    by (cases t) (simp_all add: child_handlers_def setup_crash_handler_def setup_interrupt_signal_def signal_numbers)
  then show ?thesis using P_handlers(1) assms(2) by (simp add: alarm_ok_def thread_handlers_def)
next
  case (P_ready t)
  have "pre t d SIGALRM = d SIGALRM" for d using assms(3) by (simp add: pre_ok_def)
  then show ?thesis using P_ready(1) assms(2) by (simp add: alarm_ok_def thread_report_def in_core_def set_child_def)
next
  case P_install
  then show ?thesis using assms(2)
    by (simp add: alarm_ok_def monitor_handlers_self_def monitor_handlers_def setup_stop_handler_def setup_crash_handler_def
        setup_child_signals_def signal_numbers)
next
  case (P_start now)
  then show ?thesis using assms(2)
    by (simp add: alarm_ok_def monitor_start_self_def in_core_def monitor_start_def setup_monitor_timer_def Let_def)
next
  case P_test
  then show ?thesis using assms(2) alarm_stop [OF assms(2)]
    by (auto simp: monitor_test_self_def) (simp_all add: alarm_ok_def in_core_def end_with_def)
qed (use assms(2) in \<open>auto simp: alarm_take, (auto simp: alarm_ok_def thread_ids_def in_core_def end_with_def set_tid_def
  set_pid_def set_child_def stop_finish_def Let_def)?\<close>)

definition ends_well :: "pproc \<Rightarrow> bool" where
  "ends_well s \<longleftrightarrow> (case ended s of None \<Rightarrow> visited (core s)
     | Some x \<Rightarrow> x = Exited 0 \<or> (\<exists>u. x = Killed (CHILD_INTERRUPT_SIGNAL u) \<and> \<not> ready (core s) u))"

lemma visited_quiet:
  assumes "visited (core s)" "pproc_ok s" "alarm_ok s" "sig = SIGINT \<or> sig = SIGALRM \<and> timer (core s)"
  shows "ended (take_signal_self w now sig s) = ended s \<and> visited (core (take_signal_self w now sig s))"
proof -
  have st: "ended (stop_handler_self w s') = ended s \<and> visited (core (stop_handler_self w s'))" if "same_life s s'" for s'
    using that assms(1) by (simp add: stop_handler_self_def same_life_def)
  have mi: "ended (monitor_interrupt_self w now s) = ended s \<and> visited (core (monitor_interrupt_self w now s))"
    using assms(1) st by (cases rule: monitor_interrupt_self_cases [of w now s]) (auto simp: same_life_def)
  show ?thesis
    using assms(4) pproc_okD(14) [OF assms(2,1)] pproc_okD(16) [OF assms(2)] assms(1,3) mi st [of s]
    by (auto simp: take_signal_self_def react_def alarm_ok_def signals_differ same_life_def)
qed

lemma ends_well_step:
  assumes "pstep False pre cfg s s'" "ends_well s" "pproc_ok s" "alarm_ok s"
  shows "ends_well s'"
proof -
  have n: "ended s = None" using assms(1) by cases
  then have v: "visited (core s)" using assms(2) by (simp add: ends_well_def)
  from assms(1) show ?thesis
  proof cases
    case (P_signal sig w now)
    let ?s = "s\<lparr>sig_pending := (sig_pending s)(sig := False)\<rparr>"
    obtain u where u: "sig = CHILD_INTERRUPT_SIGNAL u" using pproc_okD(19) [OF assms(3)] P_signal(3) by blast
    have ok: "pproc_ok ?s" using assms(3) unfolding pproc_defs by auto
    have st: "stop (core ?s)" using pproc_okD(7) [OF assms(3) v] by simp
    note e = interrupt_ends [OF ok st, of w now u]
    show ?thesis
    proof (cases "disp s sig = H_interrupt_thread")
      case True
      then show ?thesis using e P_signal(1) u by (simp add: ends_well_def)
    next
      case False
      then have d: "disp s sig = SIG_DFL" "\<not> ready (core s) u"
        using pproc_okD(11,12) [OF assms(3), of u] u by auto
      then have "take_signal_self w now sig ?s = end_with (Killed sig) ?s"
        using u interrupt_signal_cases [of u] by (auto simp: take_signal_self_def react_def SIGCHLD_def)
      then show ?thesis using P_signal(1) u d(2) by (auto simp: ends_well_def end_with_def)
    qed
  next
    case (P_sigint w now)
    then show ?thesis using visited_quiet [OF v assms(3,4), of SIGINT w now] n by (simp add: ends_well_def)
  next
    case (P_tick w now)
    then show ?thesis using visited_quiet [OF v assms(3,4), of SIGALRM w now] n by (simp add: ends_well_def)
  next
    case P_install
    then show ?thesis using v pproc_okD(14) [OF assms(3)] by simp
  next
    case P_test
    then show ?thesis using n v by (simp add: monitor_test_self_def ends_well_def in_core_def end_with_def)
  qed (use n v in \<open>auto simp: ends_well_def thread_ids_def thread_handlers_def thread_report_def in_core_def end_with_def
    set_tid_def set_pid_def set_child_def monitor_start_self_def monitor_start_def setup_monitor_timer_def stop_finish_def Let_def\<close>)
qed

lemma alarm_reach: "preach ends pre cfg s s' \<Longrightarrow> alarm_ok s \<Longrightarrow> pre_ok pre \<Longrightarrow> alarm_ok s'"
  by (induction rule: preach.induct) (auto intro: alarm_step)

lemma ends_well_reach:
  assumes "preach False pre cfg s s'" "ends_well s" "pproc_ok s" "alarm_ok s" "pre_ok pre"
  shows "ends_well s'"
  using assms
proof (induction rule: preach.induct)
  case (PR_step s1 s2)
  then show ?case using ends_well_step preach_ok alarm_reach by blast
qed

text \<open>Stopped before the ids are known: nothing has been sent, and nothing ends the wait.\<close>

definition mute :: "pproc \<Rightarrow> bool" where
  "mute s \<longleftrightarrow> ended s = None \<and> visited (core s) \<and> \<not> start (core s) \<and> \<not> timer (core s) \<and> (\<forall>sig. \<not> sig_pending s sig)
     \<and> disp s SIGINT = H_stop_handler
     \<and> (phase (core s) = M_stopping \<or> phase (core s) = M_ready_wait \<and> (\<exists>t. held s t \<and> \<not> ready (core s) t))"

lemma mute_step:
  assumes "pstep False pre cfg s s'" "mute s" "pproc_ok s" "pre_ok pre"
  shows "mute s'"
  using assms(1)
proof cases
  case (P_sigint w now)
  have "take_signal_self w now SIGINT s = wake_in w s"
    using assms(2) by (simp add: mute_def take_signal_self_def react_def stop_handler_self_def)
  then show ?thesis using P_sigint assms(2) by (auto simp: mute_def)
next
  case P_finish
  have "0 < self s" "pid (core s) Ping = 0 \<or> pid (core s) Ping = self s" using assms(3) unfolding pproc_defs by blast+
  with P_finish(4) show ?thesis by simp
next
  case P_start
  have "ready (core s) t" for t using P_start by (cases t) simp_all
  with P_start(3) assms(2) show ?thesis by (simp add: mute_def)
next
  case (P_ready t)
  then have "held s u \<Longrightarrow> u \<noteq> t" for u by auto
  with P_ready assms(2) pre_ok_keeps [OF assms(4)] show ?thesis
    by (auto simp: mute_def thread_report_def in_core_def set_child_def) blast
next
  case (P_handlers t)
  have "child_handlers t (disp s) SIGINT = disp s SIGINT"
    by (cases t) (simp_all add: child_handlers_def setup_crash_handler_def setup_interrupt_signal_def signal_numbers)
  then show ?thesis using P_handlers assms(2) by (auto simp: mute_def thread_handlers_def)
qed (use assms(2) pre_ok_keeps [OF assms(4)] in \<open>auto simp: mute_def thread_ids_def thread_report_def in_core_def
  set_tid_def set_pid_def set_child_def Let_def\<close>)

lemma mute_reach:
  assumes "preach False pre cfg s s'" "mute s" "pproc_ok s" "pre_ok pre"
  shows "mute s'"
  using assms
proof (induction rule: preach.induct)
  case (PR_step s1 s2)
  then show ?case using mute_step preach_ok by blast
qed

lemma stop_entered_tells:
  assumes "pstep ends pre cfg s s1" "pproc_ok s" "\<not> visited (core s)" "visited (core s1)" "pre_ok pre"
  shows "ready (core s) t \<Longrightarrow> told_self t s1"
    and "(\<forall>u. pid (core s) u = 0) \<Longrightarrow> mute s1"
proof -
  obtain w s' where s: "same_life s s'" "can_take w s" "s1 = stop_handler_self w s'"
    using stop_entered [OF assms(1-4)] by blast
  have i: "\<not> visited (core s')" "pid (core s') u = 0 \<or> pid (core s') u = self s'" "0 < self s'" for u
    using s(1) assms(3) pproc_okD(1,2) [OF assms(2)] unfolding same_life_def pid_def by metis+
  note f = stop_handler_self_fields [OF i(1), of w] stop_handler_self_pending [OF i, of w]
  show "told_self t s1" if "ready (core s) t"
  proof -
    have "pid (core s) t = self s" "disp s (CHILD_INTERRUPT_SIGNAL t) = H_interrupt_thread" "child (core s) t \<noteq> Absent"
      using that assms(2) unfolding pproc_defs by (metis, metis, metis less_irrefl)
    then show ?thesis using s(1) unfolding s(3) told_self_def f same_life_def pid_def by auto
  qed
  show "mute s1" if z: "\<forall>u. pid (core s) u = 0"
  proof -
    have r: "\<not> ready (core s) u" "\<not> start (core s)" "\<not> sig_pending s sig" for u sig
      using z assms(2,3) unfolding pproc_defs by (metis less_irrefl, metis less_irrefl, blast)
    have d: "disp s1 SIGINT = H_stop_handler" using pstep_ok [OF assms(1,2,5)] assms(4) unfolding pproc_defs by blast
    have n: "ended s = None" using assms(1) by cases
    have p: "phase (core s) = M_ready_wait \<or> phase (core s) = M_stopping"
      using r(2) assms(2) unfolding pproc_defs by (cases "phase (core s)") simp_all
    have "ended s1 = None" "visited (core s1)" "\<not> start (core s1)" "\<not> timer (core s1)" "\<not> sig_pending s1 sig" for sig
      using n r(2,3) z s(1) i(3) unfolding s(3) f same_life_def pid_def by auto
    moreover have "phase (core s1) = M_stopping \<or> phase (core s1) = M_ready_wait \<and> (\<exists>t. held s1 t \<and> \<not> ready (core s1) t)"
      using p r(1) s(1) unfolding s(3) f same_life_def by (cases w) auto
    ultimately show ?thesis using d by (simp add: mute_def)
  qed
qed

section \<open>Properties\<close>

lemma pthread_start_ok:
  assumes "start_threads Thread_pthread e = Inr l0" "0 < se_self e"
  shows "pproc_ok (pproc_init (se_self e) l0)"
proof -
  have "l0 = (let s1 = spawn Ping (se_self e) init_threads
      in if pt_create1 (se_pthread e) = 0 then spawn Pong (se_self e) s1 else s1)"
    using assms(1) by (auto simp: start_threads_def do_pthread_def bind_res_Inr_iff Let_def simp del: first_failure.simps)
  then show ?thesis using assms(2)
    by (auto simp: pproc_defs pproc_init_def main_dispositions_def setup_crash_handler_def spawn_def init_threads_def
        pid_def Let_def all_tid signal_numbers)
qed

lemma pthread_start_alarm: "start_threads Thread_pthread e = Inr l0 \<Longrightarrow> alarm_ok (pproc_init n l0)"
  by (auto simp: start_threads_def do_pthread_def bind_res_Inr_iff Let_def alarm_ok_def pproc_init_def spawn_def init_threads_def
      simp del: first_failure.simps split: if_splits)

text \<open>
  C16: a run with \<^verbatim>\<open>-t pthread\<close>. Whatever signals come and whichever thread takes them: no child pings or
  pongs before both are ready, but the final statistics are never shown, because the stop handler
  waits for process ids to be cleared that are the monitor's own. Once the stop handler has been entered, a process
  in which no thread fails can end in two ways only: with success, on taking an interrupt that it has sent to
  itself or when the monitor finds the stop handler waiting in a child and returns from \<^verbatim>\<open>main\<close>; or killed
  by such an interrupt, when the child it was meant for has no handler yet. Stopped when a child is
  ready, the process can end with success at any time from then on. Stopped before the ids are known, it waits for
  ever, unless a thread fails.
\<close>

theorem pthread_never_reports:
  assumes "start_threads Thread_pthread e = Inr l0" "0 < se_self e" "pre_ok pre"
    and "preach ends pre cfg (pproc_init (se_self e) l0) s"
  shows "(child (core s) t = Running \<longrightarrow> ready (core s) Ping \<and> ready (core s) Pong)
    \<and> \<not> final_stats (core s) \<and> pid (core s) t \<noteq> -1
    \<and> (\<forall>s1. pstep ends pre cfg s s1 \<and> \<not> visited (core s) \<and> visited (core s1) \<longrightarrow>
         (\<forall>s2 x. preach False pre cfg s1 s2 \<and> ended s2 = Some x \<longrightarrow>
            x = Exited 0 \<or> (\<exists>u. x = Killed (CHILD_INTERRUPT_SIGNAL u) \<and> \<not> ready (core s2) u))
       \<and> (ready (core s) t \<longrightarrow> (\<forall>s2. preach ends pre cfg s1 s2 \<and> ended s2 = None \<longrightarrow>
            (\<exists>s3. pstep ends pre cfg s2 s3 \<and> ended s3 = Some (Exited 0))))
       \<and> ((\<forall>u. pid (core s) u = 0) \<longrightarrow> (\<forall>s2. preach False pre cfg s1 s2 \<longrightarrow> ended s2 = None)))"
proof -
  have ok: "pproc_ok s" using preach_ok [OF assms(4) pthread_start_ok [OF assms(1,2)] assms(3)] .
  have al: "alarm_ok s" using alarm_reach [OF assms(4) pthread_start_alarm [OF assms(1)] assms(3)] .
  have "child (core s) t = Running \<longrightarrow> ready (core s) Ping \<and> ready (core s) Pong" "\<not> final_stats (core s)"
    using ok unfolding pproc_defs by blast+
  moreover have "pid (core s) t \<noteq> -1" using pproc_okD(1) [OF ok] pproc_okD(2) [OF ok, of t] by auto
  moreover {
    fix s1 assume s1: "pstep ends pre cfg s s1" "\<not> visited (core s)" "visited (core s1)"
    note told = stop_entered_tells [OF s1(1) ok s1(2,3) assms(3)] and ok1 = pstep_ok [OF s1(1) ok assms(3)]
    have ew: "ends_well s1" using stop_entered_running [OF s1(1) ok s1(2,3)] s1(3) by (simp add: ends_well_def)
    have how: "x = Exited 0 \<or> (\<exists>u. x = Killed (CHILD_INTERRUPT_SIGNAL u) \<and> \<not> ready (core s2) u)"
      if "preach False pre cfg s1 s2" "ended s2 = Some x" for s2 x
      using ends_well_reach [OF that(1) ew ok1 alarm_step [OF s1(1) al assms(3)] assms(3)] that(2) by (simp add: ends_well_def)
    moreover have "\<exists>s3. pstep ends pre cfg s2 s3 \<and> ended s3 = Some (Exited 0)"
      if "ready (core s) t" "preach ends pre cfg s1 s2" "ended s2 = None" for s2
      using told_ends [OF told_reach [OF that(2) told(1) [OF that(1)] ok1 assms(3)] preach_ok [OF that(2) ok1 assms(3)] that(3)] .
    moreover have "ended s2 = None" if "\<forall>u. pid (core s) u = 0" "preach False pre cfg s1 s2" for s2
      using mute_reach [OF that(2) told(2) [OF that(1)] ok1 assms(3)] by (simp add: mute_def)
    ultimately have "(\<forall>s2 x. preach False pre cfg s1 s2 \<and> ended s2 = Some x \<longrightarrow>
            x = Exited 0 \<or> (\<exists>u. x = Killed (CHILD_INTERRUPT_SIGNAL u) \<and> \<not> ready (core s2) u))
       \<and> (ready (core s) t \<longrightarrow> (\<forall>s2. preach ends pre cfg s1 s2 \<and> ended s2 = None \<longrightarrow>
            (\<exists>s3. pstep ends pre cfg s2 s3 \<and> ended s3 = Some (Exited 0))))
       \<and> ((\<forall>u. pid (core s) u = 0) \<longrightarrow> (\<forall>s2. preach False pre cfg s1 s2 \<longrightarrow> ended s2 = None))" by blast
  }
  ultimately show ?thesis by blast
qed

text \<open>A run with the handlers installed and both children ready, stopped by SIGINT.\<close>

lemma pthread_runs_to_ready:
  assumes "start_threads Thread_pthread e = Inr l0" "0 < se_self e" "pt_create1 (se_pthread e) = 0" "pre_ok pre"
  shows "\<exists>s. preach ends pre cfg (pproc_init (se_self e) l0) s \<and> ended s = None \<and> \<not> visited (core s)
    \<and> ready (core s) Ping \<and> disp s SIGINT = H_stop_handler"
proof -
  let ?s0 = "pproc_init (se_self e) l0"
  have l0: "l0 = spawn Pong (se_self e) (spawn Ping (se_self e) init_threads)"
    using assms(1,3) by (auto simp: start_threads_def do_pthread_def bind_res_Inr_iff Let_def simp del: first_failure.simps)
  let ?s1 = "monitor_handlers_self ?s0" and ?s2 = "thread_ids Ping 7 (monitor_handlers_self ?s0)"
  let ?s3 = "thread_handlers Ping ?s2" and ?s4 = "thread_report pre Ping (thread_handlers Ping ?s2)"
  have "pstep ends pre cfg ?s0 ?s1"
    by (rule P_install) (simp_all add: l0 pproc_init_def spawn_def init_threads_def main_dispositions_def setup_crash_handler_def signal_numbers)
  moreover have f1: "ended ?s1 = None" "child (core ?s1) Ping = Starting" "\<not> held ?s1 Ping" "pid (core ?s1) Ping = 0"
      "self ?s1 = se_self e" "\<not> visited (core ?s1)" "disp ?s1 SIGINT = H_stop_handler"
    by (simp_all add: monitor_handlers_self_def monitor_handlers_def setup_stop_handler_def l0 pproc_init_def spawn_def
        init_threads_def pid_def)
  moreover have "pstep ends pre cfg ?s1 ?s2" by (rule P_ids) (simp_all add: f1)
  moreover have f2: "ended ?s2 = None" "child (core ?s2) Ping = Starting" "\<not> held ?s2 Ping" "pid (core ?s2) Ping = se_self e"
      "\<not> visited (core ?s2)" "disp ?s2 SIGINT = H_stop_handler"
    using f1 by (simp_all add: thread_ids_def in_core_def set_pid_def set_tid_def pid_def Let_def)
  moreover have "pstep ends pre cfg ?s2 ?s3" by (rule P_handlers) (use f2 assms(2) in simp_all)
  moreover have f3: "ended ?s3 = None" "child (core ?s3) Ping = Starting" "\<not> held ?s3 Ping" "pid (core ?s3) Ping = se_self e"
      "\<not> visited (core ?s3)" "disp ?s3 SIGINT = H_stop_handler" "disp ?s3 60 = H_interrupt_thread"
    using f2 by (simp_all add: thread_handlers_def child_handlers_def setup_crash_handler_def setup_interrupt_signal_def signal_numbers)
  moreover have "pstep ends pre cfg ?s3 ?s4" by (rule P_ready) (use f3 assms(2) in simp_all)
  moreover have "ended ?s4 = None" "\<not> visited (core ?s4)" "ready (core ?s4) Ping" "disp ?s4 SIGINT = H_stop_handler"
    using f3 pre_ok_keeps [OF assms(4)] by (simp_all add: thread_report_def in_core_def set_child_def)
  ultimately show ?thesis by (meson PR_init PR_step)
qed

theorem pthread_never_reports_witness:
  "\<exists>l0 s s1 s3. start_threads Thread_pthread example_env = Inr l0
     \<and> preach False (\<lambda>_ d. d) example_cfg (pproc_init 99 l0) s \<and> pstep False (\<lambda>_ d. d) example_cfg s s1
     \<and> pstep False (\<lambda>_ d. d) example_cfg s1 s3 \<and> ended s3 = Some (Exited 0) \<and> \<not> final_stats (core s)"
proof -
  obtain l0 where l0: "start_threads Thread_pthread example_env = Inr l0"
    by (simp add: start_threads_def do_pthread_def example_env_def Let_def)
  have e: "se_self example_env = 99" "pt_create1 (se_pthread example_env) = 0" and p: "pre_ok (\<lambda>_ d. d)"
    by (simp_all add: example_env_def pre_ok_def)
  obtain s where s: "preach False (\<lambda>_ d. d) example_cfg (pproc_init (se_self example_env) l0) s" "ended s = None"
      "\<not> visited (core s)" "ready (core s) Ping" "disp s SIGINT = H_stop_handler"
    using pthread_runs_to_ready [OF l0 _ e(2) p] e(1) by auto
  let ?s1 = "take_signal_self None 0 SIGINT s"
  have h: "?s1 = stop_handler_self None s" using s(5) by (simp add: take_signal_self_def react_def)
  have st: "pstep False (\<lambda>_ d. d) example_cfg s ?s1" by (rule P_sigint [OF s(2)]) (simp add: can_take_def)
  have v: "visited (core ?s1)" "ended ?s1 = None" unfolding h using stop_handler_self_fields [OF s(3)] s(2) by simp_all
  have pos: "0 < se_self example_env" using e(1) by simp
  note r = pthread_never_reports [OF l0 pos p s(1), of Ping]
  have "\<not> final_stats (core s)" using r by blast
  moreover have "\<exists>s3. pstep False (\<lambda>_ d. d) example_cfg ?s1 s3 \<and> ended s3 = Some (Exited 0)"
    using r st s(3,4) v PR_init by blast
  ultimately show ?thesis using l0 s(1) st e(1) by auto
qed

end
