(* ===== verification/Mode_Handlers.thy ===== *)
theory Mode_Handlers
  imports Program Pthread_Life
begin

text \<open>
  What a mode does in a child before the run: \<^verbatim>\<open>config.comm_pre\<close>, which the pipe and the signal mode
  define. Both install handlers of their own; that they leave alone the signals the monitor and
  the children use connects the modes to the life of a run, with processes and with threads.
\<close>

definition comm_no_pre :: "dispositions \<Rightarrow> dispositions" where
  "comm_no_pre d = d"

definition comm_pre_pipe :: "dispositions \<Rightarrow> dispositions" where
  "comm_pre_pipe d = d(SIGPIPE := H_sig_handler_pipe)"

text \<open>\<^verbatim>\<open>sig_handler_pipe\<close> calls \<^verbatim>\<open>comm_cleanup_pipe\<close>: the process ends with success.\<close>

definition sig_handler_pipe :: "pproc \<Rightarrow> pproc" where
  "sig_handler_pipe s = end_with (Exited 0) s"

text \<open>The call through the pointer; \<open>sg\<close> are the signals of the signal mode.\<close>

definition run_pre :: "sig_state \<Rightarrow> comm_fn option \<Rightarrow> tid \<Rightarrow> dispositions \<Rightarrow> dispositions" where
  "run_pre sg f t d =
     (if f = fn ''comm_pre_pipe'' then comm_pre_pipe d
      else if f = fn ''do_pre_signal'' then do_pre_signal sg t d
      else comm_no_pre d)"

section \<open>Lemmas\<close>

lemma built_pre:
  "m \<in> set built_modes \<Longrightarrow> comm_pre (snd m) = None \<and> comm_make_pair (snd m) \<noteq> fn ''pipe'' \<and> comm_make_pair (snd m) \<noteq> fn ''make_signal_pair''
     \<or> comm_pre (snd m) = fn ''comm_pre_pipe'' \<and> comm_make_pair (snd m) = fn ''pipe''
     \<or> comm_pre (snd m) = fn ''do_pre_signal'' \<and> comm_make_pair (snd m) = fn ''make_signal_pair''"
  by (auto simp: built_modes_def add_comm_mode_def comm_ops_defs no_ops_def fn_def)

text \<open>The signals that the signal mode chooses are the two highest but one.\<close>

lemma signal_numbers_chosen:
  assumes "make_pairs (make_signal_pair SIGRTMAX) sg = Inr (wi, sg')" "sig_num sg = 0"
  shows "sigs sg' 0 = 63" "sigs sg' (Suc 0) = 62"
  using assms by (auto simp: make_pairs_def make_signal_pair_def SIGRTMAX_def Let_def)

lemma run_pre_keeps:
  assumes "m \<in> set built_modes" "comm_make_pair (snd m) = Some f"
    and "make_pairs (run_pair pe user name f) w1 = Inr (wi, w)" "sig_num (w_sig w1) = 0" "pe_sigrtmax pe = SIGRTMAX"
  shows "pre_ok (run_pre (w_sig w) (comm_pre (fill_ops (snd m))))"
    and "comm_pre (fill_ops (snd m)) = fn ''do_pre_signal'' \<Longrightarrow> sigs (w_sig w) 0 = 63 \<and> sigs (w_sig w) (Suc 0) = 62"
proof -
  show sg: "sigs (w_sig w) 0 = 63 \<and> sigs (w_sig w) (Suc 0) = 62" if "comm_pre (fill_ops (snd m)) = fn ''do_pre_signal''"
  proof -
    have "comm_pre (snd m) = fn ''do_pre_signal''"
      using that by (auto simp: fill_ops_def or_default_def fn_def split: option.splits)
    then have "f = Mode_fn ''make_signal_pair''" using built_pre [OF assms(1)] assms(2) by (auto simp: fn_def)
    then have "make_pairs (on_part w_sig (\<lambda>x w. w\<lparr>w_sig := x\<rparr>) (make_signal_pair SIGRTMAX)) w1 = Inr (wi, w)"
      using assms(3,5) by (simp add: run_pair_def)
    then have "make_pairs (make_signal_pair SIGRTMAX) (w_sig w1) = Inr (wi, w_sig w)"
      by (rule make_pairs_on_part) simp
    then show ?thesis using signal_numbers_chosen assms(4) by blast
  qed
  consider "comm_pre (fill_ops (snd m)) = Some F_comm_no_pre" | "comm_pre (fill_ops (snd m)) = fn ''comm_pre_pipe''"
    | "comm_pre (fill_ops (snd m)) = fn ''do_pre_signal''"
    using built_pre [OF assms(1)] by (auto simp: fill_ops_def or_default_def fn_def)
  then show "pre_ok (run_pre (w_sig w) (comm_pre (fill_ops (snd m))))"
  proof cases
    case 3
    then show ?thesis using sg by (auto simp: pre_ok_def run_pre_def do_pre_signal_def fn_def signal_numbers split: tid.split)
  qed (simp_all add: pre_ok_def run_pre_def comm_no_pre_def comm_pre_pipe_def fn_def signal_numbers SIGPIPE_def)
qed

section \<open>Properties\<close>

text \<open>What a child does on a signal, after \<^verbatim>\<open>comm_pre\<close> of its mode.\<close>

lemma pre_reacts:
  assumes m: "m \<in> set built_modes" and pre: "comm_pre ops = comm_pre (fill_ops (snd m))" "comm_make_pair ops = comm_make_pair (snd m)"
    and sg: "comm_make_pair ops = fn ''make_signal_pair'' \<longrightarrow> sigs sg 0 = 63 \<and> sigs sg (Suc 0) = 62"
    and d: "d = run_pre sg (comm_pre ops) t (child_handlers t main_dispositions)"
  shows "react d (CHILD_INTERRUPT_SIGNAL t) = Runs H_interrupt_thread
    \<and> react d SIGILL = Runs H_print_backtrace2 \<and> react d SIGINT = Terminates
    \<and> (comm_make_pair ops = fn ''make_signal_pair'' \<longrightarrow> react d (sigs sg (case t of Ping \<Rightarrow> 0 | Pong \<Rightarrow> 1)) = Runs H_signal_catcher)
    \<and> react d SIGPIPE = (if comm_make_pair ops = fn ''pipe'' then Runs H_sig_handler_pipe else Terminates)"
proof -
  have c: "react (child_handlers t main_dispositions) (CHILD_INTERRUPT_SIGNAL t) = Runs H_interrupt_thread"
    "react (child_handlers t main_dispositions) SIGILL = Runs H_print_backtrace2"
    "react (child_handlers t main_dispositions) SIGINT = Terminates"
    "react (child_handlers t main_dispositions) SIGPIPE = Terminates"
    by (cases t; simp add: react_def child_handlers_def setup_crash_handler_def setup_interrupt_signal_def
        main_dispositions_def signal_numbers SIGPIPE_def)+
  consider "comm_pre ops = Some F_comm_no_pre" "comm_make_pair ops \<noteq> fn ''pipe''" "comm_make_pair ops \<noteq> fn ''make_signal_pair''"
    | "comm_pre ops = fn ''comm_pre_pipe''" "comm_make_pair ops = fn ''pipe''"
    | "comm_pre ops = fn ''do_pre_signal''" "comm_make_pair ops = fn ''make_signal_pair''"
    using built_pre [OF m] unfolding pre by (auto simp: fill_ops_def or_default_def fn_def)
  then show ?thesis
  proof cases
    case 1
    then show ?thesis using c by (simp add: d run_pre_def comm_no_pre_def fn_def)
  next
    case 2
    then show ?thesis using c
      by (cases t) (simp_all add: d run_pre_def comm_pre_pipe_def fn_def react_def signal_numbers SIGPIPE_def)
  next
    case 3
    then show ?thesis using sg c
      by (cases t) (simp_all add: d run_pre_def do_pre_signal_def fn_def react_def signal_numbers SIGPIPE_def)
  qed
qed

text \<open>
  C25: the handlers of the modes and those of the life cycle do not get in each other's way. Whatever the
  command line, in a program that has come up on a system with the usual signal numbers each child, once it
  is set up, handles its interrupt signal, crashes with a backtrace on SIGILL and dies of SIGINT;
  in the signal mode it catches the signal of the other child, in the pipe mode it handles SIGPIPE, which
  ends it in all other modes. And if the children are threads, whatever happens the final statistics
  are never shown and nobody pings before both are ready.
\<close>

theorem modes_keep_the_life_signals:
  assumes "main env args w0 = Inr (c, w, s0)" "sig_num (w_sig w0) = 0" "pe_sigrtmax (me_pairs env) = SIGRTMAX"
    and "fold_res (\<lambda>f. f) (do_thread_work c cenv (run_pre (w_sig w) (comm_pre (cfg_ops c)) t) t) cx = Inr cx'"
    and "cx_disp cx = main_dispositions"
  shows "react (cx_disp cx') (CHILD_INTERRUPT_SIGNAL t) = Runs H_interrupt_thread
    \<and> react (cx_disp cx') SIGILL = Runs H_print_backtrace2 \<and> react (cx_disp cx') SIGINT = Terminates
    \<and> (comm_make_pair (cfg_ops c) = fn ''make_signal_pair'' \<longrightarrow>
         react (cx_disp cx') (sigs (w_sig w) (case t of Ping \<Rightarrow> 0 | Pong \<Rightarrow> 1)) = Runs H_signal_catcher)
    \<and> react (cx_disp cx') SIGPIPE = (if comm_make_pair (cfg_ops c) = fn ''pipe'' then Runs H_sig_handler_pipe else Terminates)
    \<and> (thread_mode c = Thread_pthread \<and> 0 < se_self (me_start env) \<longrightarrow>
         (\<forall>ends s u. preach ends (run_pre (w_sig w) (comm_pre (cfg_ops c))) (run_cfg c)
             (pproc_init (se_self (me_start env)) s0) s \<longrightarrow>
           \<not> final_stats (core s) \<and> (child (core s) u = Running \<longrightarrow> ready (core s) Ping \<and> ready (core s) Pong)))"
proof -
  obtain m w1 user f sh po where m: "m \<in> set built_modes" "comm_make_pair (snd m) = Some f"
    and ops: "cfg_ops c = (fill_ops (snd m))\<lparr>comm_show_options := sh, comm_parse_options := po\<rparr>"
    and w1: "same_objects w0 w1"
    and mp: "make_pairs (run_pair (me_pairs env) user (ii_name (fst m)) f) w1 = Inr (wires c, w)"
    and st: "start_threads (thread_mode c) (me_start env) = Inr s0"
    by (rule main_ran [OF assms(1)], rule that)
  let ?pre = "run_pre (w_sig w) (comm_pre (cfg_ops c))"
  have pre: "comm_pre (cfg_ops c) = comm_pre (fill_ops (snd m))" "comm_make_pair (cfg_ops c) = comm_make_pair (snd m)"
    unfolding ops by (simp_all add: fill_ops_def)
  have s0: "sig_num (w_sig w1) = 0" using w1 assms(2) by (simp add: same_objects_def)
  note k = run_pre_keeps [OF m mp s0 assms(3)]
  have ok: "pre_ok ?pre" using k(1) pre(1) by simp
  have d: "cx_disp cx' = ?pre t (child_handlers t main_dispositions)" using setup_done [OF assms(4)] assms(5) by simp
  have sg: "comm_make_pair (cfg_ops c) = fn ''make_signal_pair'' \<longrightarrow> sigs (w_sig w) 0 = 63 \<and> sigs (w_sig w) (Suc 0) = 62"
    using k(2) pre(2) built_pre [OF m(1)] m(2) by (auto simp: fill_ops_def or_default_def fn_def)
  note pre_reacts [OF m(1) pre sg d]
  moreover have "\<not> final_stats (core s) \<and> (child (core s) u = Running \<longrightarrow> ready (core s) Ping \<and> ready (core s) Pong)"
    if "thread_mode c = Thread_pthread" "0 < se_self (me_start env)"
      "preach ends ?pre (run_cfg c) (pproc_init (se_self (me_start env)) s0) s" for ends s u
  proof -
    have "pproc_ok s" by (rule preach_ok [OF that(3) pthread_start_ok [OF _ that(2)] ok]) (use st that(1) in simp)
    then show ?thesis using pproc_okD(3,4,5) by blast
  qed
  ultimately show ?thesis by blast
qed

theorem modes_keep_the_life_signals_witness:
  "\<exists>c w s0 cx'. main all_well ([Short (CHR ''m'') (Some ''pipe'')], []) fresh_world = Inr (c, w, s0)
     \<and> react (cx_disp (cx' :: child_ctx)) SIGPIPE = Runs H_sig_handler_pipe"
proof -
  obtain c w s0 where m: "main all_well ([Short (CHR ''m'') (Some ''pipe'')], []) fresh_world = Inr (c, w, s0)"
    "comm_make_pair (cfg_ops c) = fn ''pipe''" using all_well_pipe by blast
  obtain cx' where x: "fold_res (\<lambda>f. f) (do_thread_work c example_child_env (run_pre (w_sig w) (comm_pre (cfg_ops c)) Ping) Ping)
      example_child = Inr cx'"
    using setup_succeeds [of example_child_env c Ping] by (auto simp: example_child_env_def)
  have h: "sig_num (w_sig fresh_world) = 0" "pe_sigrtmax (me_pairs all_well) = SIGRTMAX" "cx_disp example_child = main_dispositions"
    by (simp_all add: fresh_world_def all_well_def SIGRTMAX_def example_child_def)
  have "react (cx_disp cx') SIGPIPE = Runs H_sig_handler_pipe"
    using modes_keep_the_life_signals [OF m(1) h(1,2) x h(3)] m(2) by simp
  with m(1) show ?thesis by blast
qed

end
