(* ===== verification/Boot.thy ===== *)
theory Boot
  imports Pthread_Life
begin

text \<open>
  The beginning of \<^verbatim>\<open>do_monitor_work\<close> in single steps, with forked or cloned children. The children are
  started first, so they can report themselves ready, or die, before the monitor has installed its
  handlers; and the statistics timer runs before the start time and the end of the run are set. The steps of \<open>lstep\<close> take
  the handlers as installed and do the release of the children in one step; here every statement
  is a step of its own, and what a signal does follows from the dispositions.
\<close>

section \<open>State\<close>

datatype boot_pc =
    At_child_signals
  | At_crash_handler
  | At_stop_flag
  | At_stop_handler
  | At_ready_wait
  | At_timer
  | At_start
  | At_begin
  | At_start_time
  | At_timeout
  | At_loop

record boot =
  b_life :: life
  b_disp :: dispositions
  b_pc :: boot_pc
  b_begun :: bool
  b_end :: "proc_end option"

definition boot_init :: "life \<Rightarrow> boot" where
  "boot_init s = \<lparr>b_life = s, b_disp = main_dispositions, b_pc = At_child_signals, b_begun = False, b_end = None\<rparr>"

definition in_life :: "(life \<Rightarrow> life) \<Rightarrow> boot \<Rightarrow> boot" where
  "in_life f b = b\<lparr>b_life := f (b_life b)\<rparr>"

text \<open>
  One statement of \<^verbatim>\<open>do_monitor_work\<close>. The loop that waits for the ready flags goes on when both are set;
  \<^verbatim>\<open>setup_monitor_timer\<close> installs its handler and starts the timer; \<open>now\<close> is the time that
  \<^verbatim>\<open>get_time\<close> returns.
\<close>

definition boot_step :: "life_cfg \<Rightarrow> rat \<Rightarrow> boot \<Rightarrow> boot" where
  "boot_step cfg now b =
     (case b_pc b of
        At_child_signals \<Rightarrow> b\<lparr>b_disp := setup_child_signals (b_disp b), b_pc := At_crash_handler\<rparr>
      | At_crash_handler \<Rightarrow> b\<lparr>b_disp := setup_crash_handler (b_disp b), b_pc := At_stop_flag\<rparr>
      | At_stop_flag \<Rightarrow> (in_life (\<lambda>s. s\<lparr>stop := False\<rparr>) b)\<lparr>b_pc := At_stop_handler\<rparr>
      | At_stop_handler \<Rightarrow> b\<lparr>b_disp := (b_disp b)(SIGINT := H_stop_handler), b_pc := At_ready_wait\<rparr>
      | At_ready_wait \<Rightarrow> if ready (b_life b) Ping \<and> ready (b_life b) Pong then b\<lparr>b_pc := At_timer\<rparr> else b
      | At_timer \<Rightarrow>
          (in_life (setup_monitor_timer cfg) b)\<lparr>b_pc := At_start,
             b_disp := (if tv_sec (lc_interval cfg) = 0 \<and> tv_usec (lc_interval cfg) = 0 then b_disp b
                        else (b_disp b)(SIGALRM := H_monitor_interrupt))\<rparr>
      | At_start \<Rightarrow> (in_life (\<lambda>s. s\<lparr>start := True\<rparr>) b)\<lparr>b_pc := At_begin\<rparr>
      | At_begin \<Rightarrow> b\<lparr>b_begun := True, b_pc := At_start_time\<rparr>
      | At_start_time \<Rightarrow> (in_life (\<lambda>s. s\<lparr>start_time := now, last_stats_time := now\<rparr>) b)\<lparr>b_pc := At_timeout\<rparr>
      | At_timeout \<Rightarrow>
          (in_life (\<lambda>s. s\<lparr>timeout_time := start_time s + of_int (lc_runtime cfg), phase := M_test\<rparr>) b)\<lparr>b_pc := At_loop\<rparr>
      | At_loop \<Rightarrow> b)"

text \<open>
  What a signal does to the monitor. A handler that stops the timer, because it clears a process id or
  stops the run, also has SIGALRM ignored.
\<close>

definition alarm_after :: "life \<Rightarrow> life \<Rightarrow> dispositions \<Rightarrow> dispositions" where
  "alarm_after s s' d =
     (if visited s' \<and> \<not> visited s \<or> pid s' Ping = -1 \<and> pid s Ping \<noteq> -1 \<or> pid s' Pong = -1 \<and> pid s Pong \<noteq> -1
      then d(SIGALRM := SIG_IGN) else d)"

definition handle :: "(life \<Rightarrow> life) \<Rightarrow> boot \<Rightarrow> boot" where
  "handle f b = b\<lparr>b_life := wake (f (b_life b)), b_disp := alarm_after (b_life b) (f (b_life b)) (b_disp b)\<rparr>"

definition boot_signal :: "rat \<Rightarrow> int \<Rightarrow> boot \<Rightarrow> boot" where
  "boot_signal now sig b =
     (case react (b_disp b) sig of
        Terminates \<Rightarrow> b\<lparr>b_end := Some (Killed sig)\<rparr>
      | Nothing \<Rightarrow> b
      | Runs h \<Rightarrow>
          if h = H_child_handler then handle child_handler b
          else if h = H_stop_handler then handle stop_handler b
          else if h = H_monitor_interrupt then handle (monitor_interrupt now) b
          else b)"

definition sigchld_taken :: "boot \<Rightarrow> boot" where
  "sigchld_taken b = in_life (\<lambda>s. s\<lparr>sigchld_pending := False\<rparr>) b"

section \<open>What can happen\<close>

inductive bstep :: "life_cfg \<Rightarrow> boot \<Rightarrow> boot \<Rightarrow> bool" for cfg where
  B_ready: "child (b_life b) t = Starting \<Longrightarrow> bstep cfg b (in_life (thread_ready t) b)"
| B_go: "child (b_life b) t = Ready \<Longrightarrow> start (b_life b) \<Longrightarrow> bstep cfg b (in_life (set_child t Running) b)"
| B_interrupt: "alive (child (b_life b) t) \<Longrightarrow> interrupt_pending (b_life b) t \<Longrightarrow>
    bstep cfg b (in_life (interrupt_thread t) b)"
| B_dies: "alive (child (b_life b) t) \<Longrightarrow> bstep cfg b (in_life (child_dies t) b)"
| B_sigchld: "b_end b = None \<Longrightarrow> phase (b_life b) \<noteq> M_exited \<Longrightarrow> sigchld_pending (b_life b) \<Longrightarrow>
    bstep cfg b (boot_signal now SIGCHLD (sigchld_taken b))"
| B_tick: "b_end b = None \<Longrightarrow> phase (b_life b) \<noteq> M_exited \<Longrightarrow> timer (b_life b) \<Longrightarrow> bstep cfg b (boot_signal now SIGALRM b)"
| B_sigint: "b_end b = None \<Longrightarrow> phase (b_life b) \<noteq> M_exited \<Longrightarrow> bstep cfg b (boot_signal now SIGINT b)"
| B_boot: "b_end b = None \<Longrightarrow> phase (b_life b) = M_ready_wait \<Longrightarrow> bstep cfg b (boot_step cfg now b)"
| B_test: "b_end b = None \<Longrightarrow> phase (b_life b) = M_test \<Longrightarrow>
    bstep cfg b (handle monitor_test b)"
| B_suspend: "b_end b = None \<Longrightarrow> phase (b_life b) = M_about \<Longrightarrow> bstep cfg b (in_life (\<lambda>s. s\<lparr>phase := M_suspended\<rparr>) b)"
| B_finish: "b_end b = None \<Longrightarrow> phase (b_life b) = M_stopping \<Longrightarrow> pid (b_life b) Ping = -1 \<Longrightarrow> pid (b_life b) Pong = -1 \<Longrightarrow>
    bstep cfg b ((in_life (stop_finish (lc_cleanup_exits cfg)) b)\<lparr>b_end := Some (Exited 0)\<rparr>)"

inductive breach :: "life_cfg \<Rightarrow> boot \<Rightarrow> boot \<Rightarrow> bool" for cfg b0 where
  BR_init: "breach cfg b0 b0"
| BR_step: "breach cfg b0 b \<Longrightarrow> bstep cfg b b' \<Longrightarrow> breach cfg b0 b'"

lemma breach_trans: "breach cfg b c \<Longrightarrow> breach cfg a b \<Longrightarrow> breach cfg a c"
  by (induction rule: breach.induct) (auto intro: breach.intros)

section \<open>Invariant\<close>

text \<open>A SIGCHLD may be lost, so the life invariant holds but for its pending flag.\<close>

primrec pc_rank :: "boot_pc \<Rightarrow> nat" where
  "pc_rank At_child_signals = 0"
| "pc_rank At_crash_handler = 1"
| "pc_rank At_stop_flag = 2"
| "pc_rank At_stop_handler = 3"
| "pc_rank At_ready_wait = 4"
| "pc_rank At_timer = 5"
| "pc_rank At_start = 6"
| "pc_rank At_begin = 7"
| "pc_rank At_start_time = 8"
| "pc_rank At_timeout = 9"
| "pc_rank At_loop = 10"

definition early :: "boot_pc \<Rightarrow> bool" where
  "early p \<longleftrightarrow> pc_rank p < 4"

definition with_chld :: "life \<Rightarrow> life" where
  "with_chld s = s\<lparr>sigchld_pending := True\<rparr>"

definition boot_ok :: "life_cfg \<Rightarrow> boot \<Rightarrow> bool" where
  "boot_ok cfg b \<longleftrightarrow> life_ok cfg (with_chld (b_life b))
     \<and> b_disp b SIGINT = (if early (b_pc b) then SIG_DFL else H_stop_handler)
     \<and> b_disp b SIGCHLD = (if b_pc b = At_child_signals then SIG_DFL else H_child_handler)
     \<and> b_disp b SIGALRM \<in> {SIG_DFL, SIG_IGN, H_monitor_interrupt}
     \<and> (timer (b_life b) \<longrightarrow> b_disp b SIGALRM = H_monitor_interrupt)
     \<and> (early (b_pc b) \<longrightarrow> \<not> visited (b_life b) \<and> phase (b_life b) = M_ready_wait)
     \<and> (timer (b_life b) \<longrightarrow> 6 \<le> pc_rank (b_pc b))
     \<and> (start (b_life b) \<longleftrightarrow> 7 \<le> pc_rank (b_pc b))
     \<and> (5 \<le> pc_rank (b_pc b) \<longrightarrow> ready (b_life b) Ping \<and> ready (b_life b) Pong)
     \<and> (\<forall>sig. b_end b = Some (Killed sig) \<longrightarrow> sig = SIGINT \<and> early (b_pc b))"

lemma boot_okD:
  assumes "boot_ok cfg b"
  shows "life_ok cfg (with_chld (b_life b))"
    "b_disp b SIGINT = (if early (b_pc b) then SIG_DFL else H_stop_handler)"
    "b_disp b SIGCHLD = (if b_pc b = At_child_signals then SIG_DFL else H_child_handler)"
    "b_disp b SIGALRM \<in> {SIG_DFL, SIG_IGN, H_monitor_interrupt}"
    "timer (b_life b) \<Longrightarrow> b_disp b SIGALRM = H_monitor_interrupt"
    "early (b_pc b) \<Longrightarrow> \<not> visited (b_life b)" "early (b_pc b) \<Longrightarrow> phase (b_life b) = M_ready_wait"
    "timer (b_life b) \<Longrightarrow> 6 \<le> pc_rank (b_pc b)"
    "start (b_life b) \<longleftrightarrow> 7 \<le> pc_rank (b_pc b)"
    "5 \<le> pc_rank (b_pc b) \<Longrightarrow> ready (b_life b) t"
    "b_end b = Some (Killed sig) \<Longrightarrow> sig = SIGINT \<and> early (b_pc b)"
  using assms unfolding boot_ok_def by (simp_all, cases t, simp_all)

lemma with_chld_fields [simp]:
  "info (with_chld s) = info s" "ready (with_chld s) = ready s" "start (with_chld s) = start s" "stop (with_chld s) = stop s"
  "timer (with_chld s) = timer s" "visited (with_chld s) = visited s" "phase (with_chld s) = phase s" "pid (with_chld s) = pid s"
  "final_stats (with_chld s) = final_stats s" "child (with_chld s) = child s" "proc (with_chld s) = proc s"
  "in_interrupt (with_chld s) = in_interrupt s" "timeout_time (with_chld s) = timeout_time s"
  "last_stats_time (with_chld s) = last_stats_time s" "start_time (with_chld s) = start_time s"
  "interrupt_pending (with_chld s) = interrupt_pending s" "sigchld_pending (with_chld s)" "with_chld (with_chld s) = with_chld s"
  by (simp_all add: with_chld_def pid_def fun_eq_iff)

text \<open>No operation reads the flag.\<close>

lemma with_chld_send: "snd (send_sig kill_child p sig (with_chld s)) = with_chld (snd (send_sig kill_child p sig s))"
  by (simp add: send_sig_def kill_child_def with_chld_def)

lemma with_chld_updates:
  "(with_chld s)\<lparr>stop := x\<rparr> = with_chld (s\<lparr>stop := x\<rparr>)" "(with_chld s)\<lparr>phase := p\<rparr> = with_chld (s\<lparr>phase := p\<rparr>)"
  "(with_chld s)\<lparr>visited := x\<rparr> = with_chld (s\<lparr>visited := x\<rparr>)" "(with_chld s)\<lparr>timer := x\<rparr> = with_chld (s\<lparr>timer := x\<rparr>)"
  "(with_chld s)\<lparr>start := x\<rparr> = with_chld (s\<lparr>start := x\<rparr>)"
  "(with_chld s)\<lparr>last_stats_time := r\<rparr> = with_chld (s\<lparr>last_stats_time := r\<rparr>)"
  "(with_chld s)\<lparr>start_time := r\<rparr> = with_chld (s\<lparr>start_time := r\<rparr>)"
  "(with_chld s)\<lparr>timeout_time := r\<rparr> = with_chld (s\<lparr>timeout_time := r\<rparr>)"
  "(with_chld s)\<lparr>start_time := r, last_stats_time := r\<rparr> = with_chld (s\<lparr>start_time := r, last_stats_time := r\<rparr>)"
  "(with_chld s)\<lparr>timeout_time := r, phase := p\<rparr> = with_chld (s\<lparr>timeout_time := r, phase := p\<rparr>)"
  "(with_chld s)\<lparr>final_stats := x, phase := p\<rparr> = with_chld (s\<lparr>final_stats := x, phase := p\<rparr>)"
  "(with_chld s)\<lparr>in_interrupt := x\<rparr> = with_chld (s\<lparr>in_interrupt := x\<rparr>)"
  by (simp_all add: with_chld_def)

lemma with_chld_stop: "stop_handler (with_chld s) = with_chld (stop_handler s)"
  unfolding stop_handler_def stop_threads_def stop_timer_def Let_def with_chld_updates with_chld_send with_chld_fields
  by (cases "visited s") (simp_all only: if_True if_False)

lemma with_chld_set:
  "set_child t x (with_chld s) = with_chld (set_child t x s)" "set_pid t p (with_chld s) = with_chld (set_pid t p s)"
  by (simp_all add: with_chld_def set_child_def set_pid_def)

lemma with_chld_wait4: "wait4_nohang p (with_chld s) = with_chld (wait4_nohang p s)"
  unfolding wait4_nohang_def with_chld_fields with_chld_set if_distrib [of with_chld] ..

lemma with_chld_reap: "reap_child t (with_chld s) = with_chld (reap_child t s)"
  by (simp add: reap_child_def mark_dead_def with_chld_set with_chld_updates stop_timer_def Let_def)

lemma with_chld_mark: "mark_dead t (with_chld s) = with_chld (mark_dead t s)"
  by (simp add: mark_dead_def with_chld_set with_chld_updates stop_timer_def)

lemma with_chld_none: "wait_none (with_chld s) = with_chld (wait_none s)"
  by (simp add: wait_none_def with_chld_mark Let_def)

lemma with_chld_handler: "with_chld (child_handler s) = with_chld (child_handler (with_chld s))"
  unfolding child_handler_def with_chld_reap with_chld_none by (simp add: with_chld_def)

lemma with_chld_wake: "wake (with_chld s) = with_chld (wake s)"
  by (simp add: with_chld_def wake_def)

lemma with_chld_interrupt: "monitor_interrupt now (with_chld s) = with_chld (monitor_interrupt now s)"
proof -
  show ?thesis by (simp add: monitor_interrupt_def with_chld_wait4 with_chld_updates with_chld_stop Let_def)
qed

lemma with_chld_child:
  "with_chld (thread_ready t s) = with_chld (thread_ready t (with_chld s))"
  "with_chld (set_child t x s) = set_child t x (with_chld s)"
  "with_chld (interrupt_thread t s) = with_chld (interrupt_thread t (with_chld s))"
  "with_chld (child_dies t s) = child_dies t (with_chld s)"
proof -
  show "with_chld (thread_ready t s) = with_chld (thread_ready t (with_chld s))"
    by (simp add: with_chld_def thread_ready_def set_child_def set_pid_def set_tid_def pid_def Let_def)
  show "with_chld (set_child t x s) = set_child t x (with_chld s)"
    by (simp add: with_chld_def set_child_def)
  show "with_chld (child_dies t s) = child_dies t (with_chld s)"
    by (simp add: with_chld_def child_dies_def set_child_def)
  show "with_chld (interrupt_thread t s) = with_chld (interrupt_thread t (with_chld s))"
    by (simp add: with_chld_def interrupt_thread_def child_dies_def set_child_def Let_def)
qed

lemma life_ok_with_chld: "life_ok cfg s \<Longrightarrow> life_ok cfg (with_chld s)"
  unfolding life_ok_def procs_ok_def barrier_ok_def monitor_ok_def by simp

lemma with_chld_ok:
  assumes "life_ok cfg (with_chld s)"
  shows "child s t = Starting \<Longrightarrow> life_ok cfg (with_chld (thread_ready t s))"
    "child s t = Ready \<Longrightarrow> start s \<Longrightarrow> life_ok cfg (with_chld (set_child t Running s))"
    "alive (child s t) \<Longrightarrow> life_ok cfg (with_chld (interrupt_thread t s))"
    "alive (child s t) \<Longrightarrow> life_ok cfg (with_chld (child_dies t s))"
    "life_ok cfg (with_chld (child_handler s))" "life_ok cfg (with_chld (stop_handler s))"
    "life_ok cfg (with_chld (monitor_interrupt now s))" "life_ok cfg (with_chld (wake s))"
proof -
  show "life_ok cfg (with_chld (thread_ready t s))" if "child s t = Starting"
    by (subst with_chld_child(1), rule life_ok_with_chld, rule thread_ready_ok [OF assms]) (use that in simp)
  show "life_ok cfg (with_chld (set_child t Running s))" if "child s t = Ready" "start s"
    by (subst with_chld_child(2), rule go_ok [OF assms]) (use that in simp_all)
  show "life_ok cfg (with_chld (interrupt_thread t s))" if "alive (child s t)"
    by (subst with_chld_child(3), rule life_ok_with_chld, rule interrupt_thread_ok [OF assms]) (use that in simp)
  show "life_ok cfg (with_chld (child_dies t s))" if "alive (child s t)"
    by (subst with_chld_child(4), rule child_dies_ok [OF assms]) (use that in simp)
  show "life_ok cfg (with_chld (child_handler s))"
    by (subst with_chld_handler, rule life_ok_with_chld, rule child_handler_ok [OF assms])
  show "life_ok cfg (with_chld (stop_handler s))" using stop_handler_ok [OF assms] by (simp only: with_chld_stop)
  show "life_ok cfg (with_chld (monitor_interrupt now s))" using monitor_interrupt_ok [OF assms] by (simp only: with_chld_interrupt)
  show "life_ok cfg (with_chld (wake s))" using wake_ok [OF assms] by (simp only: with_chld_wake)
qed

text \<open>What every handler, and the test of the stop flag, keeps.\<close>

definition calm :: "life \<Rightarrow> life \<Rightarrow> bool" where
  "calm s s' \<longleftrightarrow> ready s' = ready s \<and> start s' = start s \<and> (timer s' \<longrightarrow> timer s)
     \<and> (\<forall>t. pid s t \<noteq> -1 \<and> pid s' t = -1 \<longrightarrow> \<not> timer s')"

lemma calm_trans: "calm s s' \<Longrightarrow> calm s' s'' \<Longrightarrow> calm s s''"
  unfolding calm_def by metis

lemma stop_handler_calm: "calm s (stop_handler s)"
  by (simp add: calm_def stop_handler_def stop_timer_def pid_def)

lemma reap_child_calm: "calm s (reap_child t s)"
  by (cases t) (auto simp: calm_def reap_child_def mark_dead_def set_child_def set_pid_def stop_timer_def pid_def Let_def)

lemma mark_dead_calm: "calm s (mark_dead t s)"
  by (simp add: calm_def mark_dead_fields)

lemma wait_none_calm: "calm s (wait_none s)"
proof (cases rule: wait_none_cases [of s])
  case 1
  then show ?thesis by (simp add: calm_def)
qed (use mark_dead_calm calm_trans [OF mark_dead_calm mark_dead_calm] in simp_all)

lemma child_handler_calm: "calm s (child_handler s)"
proof -
  have "calm s (wait_none (reap_child Pong (reap_child Ping s)))"
    by (intro calm_trans [OF calm_trans [OF reap_child_calm reap_child_calm] wait_none_calm])
  then show ?thesis by (simp add: calm_def child_handler_def pid_def)
qed

lemma wait4_calm: "calm s (wait4_nohang p s)"
  by (simp add: calm_def wait4_nohang_def set_child_def pid_def)

lemma monitor_interrupt_calm: "calm s (monitor_interrupt now s)"
proof -
  let ?s = "wait4_nohang (pid s Pong) (wait4_nohang (pid s Ping) s)"
  have a: "calm s ?s" by (rule calm_trans [OF wait4_calm wait4_calm])
  have b: "calm s (?s\<lparr>last_stats_time := now\<rparr>)" using a by (simp add: calm_def pid_def)
  have "calm s (u\<lparr>in_interrupt := True\<rparr>)" if "calm s u" for u using that by (simp add: calm_def pid_def)
  then show ?thesis using a b
    by (simp add: monitor_interrupt_def Let_def calm_trans [OF _ stop_handler_calm]) (simp add: calm_def)
qed

lemma monitor_test_calm: "calm s (monitor_test s)"
  using stop_handler_calm [of s] by (simp add: monitor_test_def) (simp add: calm_def pid_def)

lemma child_handler_frame: "visited (child_handler s) = visited s" "phase (child_handler s) = phase s"
  by (simp_all add: child_handler_def wait_none_fields)
    (simp_all add: reap_child_def mark_dead_def set_child_def set_pid_def stop_timer_def Let_def)

lemma wake_fields [simp]:
  "timer (wake s) = timer s" "visited (wake s) = visited s" "ready (wake s) = ready s" "start (wake s) = start s"
  "pid (wake s) = pid s" "stop (wake s) = stop s" "final_stats (wake s) = final_stats s"
  "phase (wake s) = (if phase s = M_suspended then M_test else phase s)"
  by (simp_all add: wake_def pid_def fun_eq_iff)

lemma alarm_after_other: "sig \<noteq> SIGALRM \<Longrightarrow> alarm_after s s' d sig = d sig"
  by (simp add: alarm_after_def)

lemma monitor_signals_differ [simp]:
  "SIGINT \<noteq> SIGALRM" "SIGCHLD \<noteq> SIGALRM" "SIGALRM \<noteq> SIGINT" "SIGALRM \<noteq> SIGCHLD" "SIGINT \<noteq> SIGCHLD" "SIGCHLD \<noteq> SIGINT"
  by (simp_all add: SIGINT_def SIGALRM_def SIGCHLD_def)

lemma handle_ok:
  assumes b: "boot_ok cfg b" "b_end b = None" and f: "calm (b_life b) (f (b_life b))"
    and ok: "life_ok cfg (with_chld (f (b_life b)))"
    and fr: "early (b_pc b) \<Longrightarrow> visited (f (b_life b)) = visited (b_life b) \<and> phase (f (b_life b)) = phase (b_life b)"
  shows "boot_ok cfg (handle f b)"
proof -
  let ?s = "f (b_life b)" and ?d = "alarm_after (b_life b) (f (b_life b)) (b_disp b)"
  note d = boot_okD [OF b(1)]
  have w: "life_ok cfg (with_chld (wake ?s))" using wake_ok [OF ok] by (simp only: with_chld_wake)
  have m: "visited ?s \<longrightarrow> \<not> timer ?s" using ok by (simp add: life_ok_def monitor_ok_def)
  have t: "timer ?s \<Longrightarrow> timer (b_life b)" and rs: "ready ?s = ready (b_life b)" "start ?s = start (b_life b)"
    using f by (simp_all add: calm_def)
  have a: "timer ?s \<Longrightarrow> ?d = b_disp b" using f m unfolding calm_def alarm_after_def by auto
  have e: "?d SIGALRM \<in> {SIG_DFL, SIG_IGN, H_monitor_interrupt}"
    using d(4) by (simp add: alarm_after_def)
  show ?thesis
    unfolding boot_ok_def handle_def
    using w e a t rs d(2,3,5,8,9,10) fr d(6,7) b(2) by (simp add: alarm_after_other)
qed

lemma boot_signal_ok:
  assumes b: "boot_ok cfg b" "b_end b = None" and s: "sig \<in> {SIGCHLD, SIGINT} \<or> sig = SIGALRM \<and> timer (b_life b)"
  shows "boot_ok cfg (boot_signal now sig b)"
proof -
  note d = boot_okD [OF b(1)]
  have chld: "boot_ok cfg (handle child_handler b)"
    by (rule handle_ok [where f = child_handler, OF b child_handler_calm with_chld_ok(5) [OF d(1)]])
      (simp add: child_handler_frame)
  have late: "boot_ok cfg (handle f b)"
    if "calm (b_life b) (f (b_life b))" "life_ok cfg (with_chld (f (b_life b)))" "\<not> early (b_pc b)" for f
    by (rule handle_ok [where f = f, OF b that(1,2)]) (use that(3) in simp)
  consider "sig = SIGCHLD" | "sig = SIGINT" | "sig = SIGALRM" "timer (b_life b)" using s by blast
  then show ?thesis
  proof cases
    case 1
    then show ?thesis using b chld d(3) by (simp add: boot_signal_def react_def)
  next
    case 2
    show ?thesis
    proof (cases "early (b_pc b)")
      case True
      then have "boot_signal now sig b = b\<lparr>b_end := Some (Killed SIGINT)\<rparr>"
        using d(2) 2 by (simp add: boot_signal_def react_def)
      then show ?thesis using b True unfolding boot_ok_def by simp
    next
      case False
      then have "boot_signal now sig b = handle stop_handler b"
        using d(2) 2 by (simp add: boot_signal_def react_def)
      then show ?thesis using late [where f = stop_handler, OF stop_handler_calm with_chld_ok(6) [OF d(1)] False] by simp
    qed
  next
    case 3
    have e: "\<not> early (b_pc b)" using d(8) [OF 3(2)] by (simp add: early_def)
    have "boot_signal now sig b = handle (monitor_interrupt now) b"
      using d(5) [OF 3(2)] 3(1) by (simp add: boot_signal_def react_def)
    then show ?thesis using late [where f = "monitor_interrupt now", OF monitor_interrupt_calm with_chld_ok(7) [OF d(1)] e] by simp
  qed
qed

lemma in_life_ok:
  assumes b: "boot_ok cfg b" and ok: "life_ok cfg (with_chld (f (b_life b)))"
    and fr: "timer (f (b_life b)) = timer (b_life b)" "start (f (b_life b)) = start (b_life b)"
      "visited (f (b_life b)) = visited (b_life b)" "\<And>t. ready (b_life b) t \<Longrightarrow> ready (f (b_life b)) t"
      "phase (f (b_life b)) = phase (b_life b) \<or> \<not> early (b_pc b)"
  shows "boot_ok cfg (in_life f b)"
  using ok fr boot_okD [OF b] unfolding boot_ok_def in_life_def by auto

lemma monitor_flags_ok:
  assumes "life_ok cfg (with_chld s)" "phase s = M_ready_wait"
  shows "life_ok cfg (with_chld (s\<lparr>stop := x\<rparr>))"
    "life_ok cfg (with_chld (setup_monitor_timer cfg s))"
    "ready s Ping \<Longrightarrow> ready s Pong \<Longrightarrow> life_ok cfg (with_chld (s\<lparr>start := True\<rparr>))"
    "life_ok cfg (with_chld (s\<lparr>start_time := r, last_stats_time := q\<rparr>))"
    "start s \<Longrightarrow> life_ok cfg (with_chld (s\<lparr>timeout_time := r, phase := M_test\<rparr>))"
  using assms unfolding life_ok_def procs_ok_def barrier_ok_def monitor_ok_def pid_def setup_monitor_timer_def with_chld_def
  by simp_all

lemma boot_step_ok:
  assumes b: "boot_ok cfg b" and e: "b_end b = None" and p: "phase (b_life b) = M_ready_wait"
  shows "boot_ok cfg (boot_step cfg now b)"
proof -
  note d = boot_okD [OF b]
  note m = monitor_flags_ok [OF d(1) p]
  have nt: "pc_rank (b_pc b) < 6 \<Longrightarrow> \<not> timer (b_life b)" using d(8) by auto
  have v: "\<not> visited (b_life b)" using d(1) p by (simp add: life_ok_def monitor_ok_def)
  have frame: "visited (setup_monitor_timer cfg s) = visited s" "phase (setup_monitor_timer cfg s) = phase s"
    "start (setup_monitor_timer cfg s) = start s" "ready (setup_monitor_timer cfg s) = ready s"
    "timer (setup_monitor_timer cfg s) \<Longrightarrow> timer s \<or> \<not> (tv_sec (lc_interval cfg) = 0 \<and> tv_usec (lc_interval cfg) = 0)" for s
    by (simp_all add: setup_monitor_timer_def split: if_splits)
  show ?thesis
  proof (cases "b_pc b")
    case At_timer
    have "\<not> timer (b_life b)" using d(8) At_timer by auto
    then show ?thesis using d m(2) At_timer e frame(5) [of "b_life b"] unfolding boot_ok_def
      by (auto simp: boot_step_def in_life_def frame early_def p v)
  next
    case At_start
    have "life_ok cfg (with_chld ((b_life b)\<lparr>start := True\<rparr>))" by (rule m(3)) (use d(10) At_start in simp_all)
    then show ?thesis using d At_start e unfolding boot_ok_def
      by (simp add: boot_step_def in_life_def early_def p)
  next
    case At_timeout
    have "life_ok cfg (with_chld ((b_life b)\<lparr>timeout_time := start_time (b_life b) + of_int (lc_runtime cfg), phase := M_test\<rparr>))"
      by (rule m(5)) (use d(9) At_timeout in simp)
    then show ?thesis using d At_timeout e unfolding boot_ok_def
      by (auto simp: boot_step_def in_life_def early_def)
  next
    case At_stop_flag
    then show ?thesis using d nt m(1) e v p unfolding boot_ok_def by (auto simp: boot_step_def in_life_def early_def)
  next
    case At_start_time
    then show ?thesis using d m(4) e v p unfolding boot_ok_def by (auto simp: boot_step_def in_life_def early_def)
  next
    case At_child_signals
    then show ?thesis using d nt e v p unfolding boot_ok_def by (simp add: boot_step_def early_def setup_child_signals_def)
  next
    case At_crash_handler
    then show ?thesis using d nt e v p unfolding boot_ok_def
      by (simp add: boot_step_def early_def setup_crash_handler_def SIGILL_def SIGINT_def SIGCHLD_def SIGALRM_def)
  next
    case At_stop_handler
    then show ?thesis using d nt e v p unfolding boot_ok_def by (simp add: boot_step_def early_def)
  next
    case At_ready_wait
    then show ?thesis using d e v p b unfolding boot_ok_def by (simp add: boot_step_def early_def)
  next
    case At_begin
    then show ?thesis using d nt e v p unfolding boot_ok_def by (simp add: boot_step_def early_def)
  next
    case At_loop
    then show ?thesis using b by (simp add: boot_step_def)
  qed
qed

lemma child_frames:
  "timer (thread_ready t s) = timer s" "start (thread_ready t s) = start s" "visited (thread_ready t s) = visited s"
  "phase (thread_ready t s) = phase s" "ready s u \<Longrightarrow> ready (thread_ready t s) u"
  "timer (set_child t x s) = timer s" "start (set_child t x s) = start s" "visited (set_child t x s) = visited s"
  "phase (set_child t x s) = phase s" "ready (set_child t x s) = ready s"
  "timer (child_dies t s) = timer s" "start (child_dies t s) = start s" "visited (child_dies t s) = visited s"
  "phase (child_dies t s) = phase s" "ready (child_dies t s) = ready s"
  "timer (interrupt_thread t s) = timer s" "start (interrupt_thread t s) = start s"
  "visited (interrupt_thread t s) = visited s"
  "phase (interrupt_thread t s) = phase s" "ready (interrupt_thread t s) = ready s"
  by (simp_all add: thread_ready_def set_child_def set_pid_def set_tid_def child_dies_def interrupt_thread_def Let_def)

lemma bstep_ok: "bstep cfg b b' \<Longrightarrow> boot_ok cfg b \<Longrightarrow> boot_ok cfg b'"
proof (induction rule: bstep.induct)
  case (B_ready b t)
  show ?case by (rule in_life_ok [where f = "thread_ready t", OF B_ready(2) with_chld_ok(1) [OF boot_okD(1) [OF B_ready(2)] B_ready(1)]])
      (simp_all add: child_frames)
next
  case (B_go b t)
  show ?case by (rule in_life_ok [where f = "set_child t Running", OF B_go(3) with_chld_ok(2) [OF boot_okD(1) [OF B_go(3)] B_go(1,2)]])
      (simp_all add: child_frames)
next
  case (B_interrupt b t)
  show ?case by (rule in_life_ok [where f = "interrupt_thread t", OF B_interrupt(3) with_chld_ok(3) [OF boot_okD(1) [OF B_interrupt(3)] B_interrupt(1)]])
      (simp_all add: child_frames)
next
  case (B_dies b t)
  show ?case by (rule in_life_ok [where f = "child_dies t", OF B_dies(2) with_chld_ok(4) [OF boot_okD(1) [OF B_dies(2)] B_dies(1)]])
      (simp_all add: child_frames)
next
  case (B_sigchld b now)
  have "boot_ok cfg (sigchld_taken b)" unfolding sigchld_taken_def
    by (rule in_life_ok [OF B_sigchld(4)]) (use boot_okD(1) [OF B_sigchld(4)] in \<open>simp_all add: with_chld_def\<close>)
  then show ?case by (rule boot_signal_ok) (use B_sigchld(1) in \<open>simp_all add: sigchld_taken_def in_life_def\<close>)
next
  case (B_tick b now)
  then show ?case by (simp add: boot_signal_ok)
next
  case (B_sigint b now)
  then show ?case by (simp add: boot_signal_ok)
next
  case (B_boot b now)
  then show ?case by (simp add: boot_step_ok)
next
  case (B_test b)
  have e: "\<not> early (b_pc b)" using boot_okD(7) [OF B_test(3)] B_test(2) by auto
  have p: "phase (with_chld (b_life b)) = M_test" using B_test(2) by simp
  have "life_ok cfg (with_chld (monitor_test (b_life b)))"
    using monitor_test_ok [OF boot_okD(1) [OF B_test(3)] p] by (simp add: monitor_test_def with_chld_stop with_chld_updates split: if_splits)
  then show ?case by (rule handle_ok [where f = monitor_test, OF B_test(3,1) monitor_test_calm]) (use e in simp)
next
  case (B_suspend b)
  have e: "\<not> early (b_pc b)" using boot_okD(7) [OF B_suspend(3)] B_suspend(2) by auto
  have p: "phase (with_chld (b_life b)) = M_about" using B_suspend(2) by simp
  show ?case
    by (rule in_life_ok [OF B_suspend(3)])
      (use suspend_ok [OF boot_okD(1) [OF B_suspend(3)] p] e in \<open>simp_all add: with_chld_updates\<close>)
next
  case (B_finish b)
  have e: "\<not> early (b_pc b)" using boot_okD(7) [OF B_finish(5)] B_finish(2) by auto
  have "life_ok cfg (stop_finish (lc_cleanup_exits cfg) (with_chld (b_life b)))"
    by (rule finish_ok [OF boot_okD(1) [OF B_finish(5)]]) (use B_finish in simp_all)
  then have "life_ok cfg (with_chld (stop_finish (lc_cleanup_exits cfg) (b_life b)))"
    by (simp add: stop_finish_def with_chld_updates)
  then show ?case using boot_okD [OF B_finish(5)] e unfolding boot_ok_def
    by (simp add: in_life_def stop_finish_def)
qed

lemma breach_ok: "breach cfg b0 b \<Longrightarrow> boot_ok cfg b0 \<Longrightarrow> boot_ok cfg b"
  by (induction rule: breach.induct) (auto dest: bstep_ok)

section \<open>The coarse steps\<close>

text \<open>Where a state of the coarse relation stands: before the wait for the flags, or in the loop.\<close>

definition settled :: "life_cfg \<Rightarrow> boot \<Rightarrow> bool" where
  "settled cfg b \<longleftrightarrow> boot_ok cfg b \<and> life_ok cfg (b_life b) \<and> \<not> early (b_pc b)
     \<and> (phase (b_life b) = M_ready_wait \<longrightarrow> b_pc b = At_ready_wait)
     \<and> (phase (b_life b) \<noteq> M_exited \<longrightarrow> b_end b = None)"

lemma fresh_flags:
  assumes "start_threads mode e = Inr s0" "mode = Thread_fork \<or> mode = Thread_thread"
  shows "\<not> timer s0" "\<not> start s0" "\<not> stop s0" "\<not> visited s0" "phase s0 = M_ready_wait" "\<not> sigchld_pending s0"
    "\<not> ready s0 t" "timeout_time s0 = 0" "\<not> in_interrupt s0"
  using assms
  by (auto simp: start_threads_def do_fork_def do_clone_def clone_one_def set_pid_def set_tid_def spawn_def init_threads_def
      Let_def split: if_splits)

lemma boot_init_ok:
  assumes "start_threads mode e = Inr s0" "mode = Thread_fork \<or> mode = Thread_thread" "life_ok cfg s0"
  shows "boot_ok cfg (boot_init s0)"
  using fresh_flags [OF assms(1,2)] life_ok_with_chld [OF assms(3)]
  by (simp add: boot_ok_def boot_init_def early_def main_dispositions_def setup_crash_handler_def SIGILL_def
      SIGINT_def SIGCHLD_def SIGALRM_def)

definition boots :: "life_cfg \<Rightarrow> boot \<Rightarrow> boot \<Rightarrow> bool" where
  "boots cfg b0 b \<longleftrightarrow> breach cfg b0 b \<and> boot_ok cfg b"

lemma boots_step:
  assumes "boots cfg b0 b" "b_end b = None" "phase (b_life b) = M_ready_wait" "b' = boot_step cfg now b"
  shows "boots cfg b0 b'"
  using assms BR_step B_boot boot_step_ok unfolding boots_def by blast

lemma reaches_ready_wait:
  assumes "start_threads mode e = Inr s0" "mode = Thread_fork \<or> mode = Thread_thread" "life_ok cfg s0"
  shows "\<exists>b. breach cfg (boot_init s0) b \<and> b_life b = s0 \<and> settled cfg b"
proof -
  note f = fresh_flags [OF assms(1,2)]
  define b1 where "b1 = boot_step cfg 0 (boot_init s0)"
  define b2 where "b2 = boot_step cfg 0 b1"
  define b3 where "b3 = boot_step cfg 0 b2"
  define b4 where "b4 = boot_step cfg 0 b3"
  have s: "s0\<lparr>stop := False\<rparr> = s0" using f(3) by simp
  have b1: "b_life b1 = s0" "b_end b1 = None" "b_pc b1 = At_crash_handler" by (simp_all add: b1_def boot_init_def boot_step_def)
  have b2: "b_life b2 = s0" "b_end b2 = None" "b_pc b2 = At_stop_flag" using b1 by (simp_all add: b2_def boot_step_def)
  have b3: "b_life b3 = s0" "b_end b3 = None" "b_pc b3 = At_stop_handler"
    using b2 s by (simp_all add: b3_def boot_step_def in_life_def)
  have b4: "b_life b4 = s0" "b_end b4 = None" "b_pc b4 = At_ready_wait" using b3 by (simp_all add: b4_def boot_step_def)
  have "boots cfg (boot_init s0) b1"
    by (rule boots_step [OF _ _ _ b1_def]) (simp_all add: boots_def BR_init boot_init_ok [OF assms], simp_all add: boot_init_def f)
  then have "boots cfg (boot_init s0) b2" by (rule boots_step [OF _ _ _ b2_def]) (simp_all add: b1 f)
  then have "boots cfg (boot_init s0) b3" by (rule boots_step [OF _ _ _ b3_def]) (simp_all add: b2 f)
  then have "boots cfg (boot_init s0) b4" by (rule boots_step [OF _ _ _ b4_def]) (simp_all add: b3 f)
  then have r: "breach cfg (boot_init s0) b4" and "boot_ok cfg b4" by (simp_all add: boots_def)
  then have "settled cfg b4" using b4 f assms(3) by (simp add: settled_def early_def)
  then show ?thesis using r b4(1) by blast
qed

lemma starts_at_once:
  assumes r: "breach cfg b0 b" and s: "settled cfg b" and p: "phase (b_life b) = M_ready_wait"
    and y: "ready (b_life b) Ping" "ready (b_life b) Pong"
  shows "\<exists>b'. breach cfg b0 b' \<and> b_life b' = monitor_start cfg now (b_life b) \<and> settled cfg b'"
proof -
  let ?s = "b_life b"
  let ?s2 = "setup_monitor_timer cfg ?s"
  define b1 where "b1 = boot_step cfg now b"
  define b2 where "b2 = boot_step cfg now b1"
  define b3 where "b3 = boot_step cfg now b2"
  define b4 where "b4 = boot_step cfg now b3"
  define b5 where "b5 = boot_step cfg now b4"
  define b6 where "b6 = boot_step cfg now b5"
  have b0: "b_pc b = At_ready_wait" "b_end b = None" "boot_ok cfg b" "life_ok cfg ?s" using s p by (simp_all add: settled_def)
  have b1: "b_life b1 = ?s" "b_end b1 = None" "b_pc b1 = At_timer" using b0 y by (simp_all add: b1_def boot_step_def)
  have b2: "b_life b2 = ?s2" "b_end b2 = None" "b_pc b2 = At_start" using b1 by (simp_all add: b2_def boot_step_def in_life_def)
  have b3: "b_life b3 = ?s2\<lparr>start := True\<rparr>" "b_end b3 = None" "b_pc b3 = At_begin"
    using b2 by (simp_all add: b3_def boot_step_def in_life_def)
  have b4: "b_life b4 = ?s2\<lparr>start := True\<rparr>" "b_end b4 = None" "b_pc b4 = At_start_time" using b3 by (simp_all add: b4_def boot_step_def)
  have b5: "b_life b5 = ?s2\<lparr>start := True, start_time := now, last_stats_time := now\<rparr>" "b_end b5 = None" "b_pc b5 = At_timeout"
    using b4 by (simp_all add: b5_def boot_step_def in_life_def)
  have b6: "b_life b6 = monitor_start cfg now ?s" "b_end b6 = None" "b_pc b6 = At_loop"
    using b5 by (simp_all add: b6_def boot_step_def in_life_def monitor_start_def)
  have ph: "phase ?s2 = M_ready_wait" using p by (simp add: setup_monitor_timer_def)
  have "boots cfg b0 b1" by (rule boots_step [OF _ b0(2) p b1_def]) (simp add: boots_def r b0(3))
  then have "boots cfg b0 b2" by (rule boots_step [OF _ _ _ b2_def]) (simp_all add: b1 p)
  then have "boots cfg b0 b3" by (rule boots_step [OF _ _ _ b3_def]) (simp_all add: b2 ph)
  then have "boots cfg b0 b4" by (rule boots_step [OF _ _ _ b4_def]) (simp_all add: b3 ph)
  then have "boots cfg b0 b5" by (rule boots_step [OF _ _ _ b5_def]) (simp_all add: b4 ph)
  then have "boots cfg b0 b6" by (rule boots_step [OF _ _ _ b6_def]) (simp_all add: b5 ph)
  then have r6: "breach cfg b0 b6" and "boot_ok cfg b6" by (simp_all add: boots_def)
  moreover have "life_ok cfg (monitor_start cfg now ?s)" by (rule monitor_start_ok [OF b0(4) p y])
  ultimately have "settled cfg b6" using b6 by (simp add: settled_def early_def monitor_start_def)
  then show ?thesis using r6 b6(1) by blast
qed

lemma settled_step:
  assumes "breach cfg b0 b" "settled cfg b" "bstep cfg b b'" "lstep cfg (b_life b) s'" "b_life b' = s'" "b_pc b' = b_pc b"
    and "phase s' = M_ready_wait \<Longrightarrow> phase (b_life b) = M_ready_wait" "phase s' \<noteq> M_exited \<Longrightarrow> b_end b' = None"
  shows "\<exists>b'. breach cfg b0 b' \<and> b_life b' = s' \<and> settled cfg b'"
proof -
  have "breach cfg b0 b'" by (rule BR_step [OF assms(1,3)])
  moreover have "settled cfg b'"
    using assms(2,5-8) bstep_ok [OF assms(3)] lstep_ok [OF assms(4)] unfolding settled_def by simp
  ultimately show ?thesis using assms(5) by blast
qed

lemma child_handler_pending: "child_handler (s\<lparr>sigchld_pending := x\<rparr>) = child_handler s"
proof -
  have w: "with_chld (child_handler (s\<lparr>sigchld_pending := x\<rparr>)) = with_chld (child_handler s)"
    using with_chld_handler [of s] with_chld_handler [of "s\<lparr>sigchld_pending := x\<rparr>"] by (simp add: with_chld_def)
  have "child_handler u = (with_chld (child_handler u))\<lparr>sigchld_pending := False\<rparr>" for u
    by (simp add: child_handler_def with_chld_def)
  then show ?thesis using w by metis
qed

lemma phases_later:
  "phase (wake (stop_handler s)) = M_ready_wait \<Longrightarrow> phase s = M_ready_wait"
  "phase (wake (monitor_interrupt now s)) = M_ready_wait \<Longrightarrow> phase s = M_ready_wait"
  "phase (wake (child_handler s)) = M_ready_wait \<Longrightarrow> phase s = M_ready_wait"
  "phase (monitor_test s) = M_ready_wait \<Longrightarrow> phase s = M_ready_wait"
  by (auto simp: stop_handler_def monitor_interrupt_def monitor_test_def child_handler_frame wait4_nohang_def set_child_def Let_def
      split: if_splits)

lemma phases_running:
  "phase s \<noteq> M_exited \<Longrightarrow> phase (wake (stop_handler s)) \<noteq> M_exited"
  "phase s \<noteq> M_exited \<Longrightarrow> phase (wake (monitor_interrupt now s)) \<noteq> M_exited"
  "phase s \<noteq> M_exited \<Longrightarrow> phase (wake (child_handler s)) \<noteq> M_exited"
  by (auto simp: stop_handler_def monitor_interrupt_def child_handler_frame wait4_nohang_def set_child_def Let_def)

lemma handler_runs:
  assumes "settled cfg b"
  shows "b_life (boot_signal now SIGCHLD (sigchld_taken b)) = wake (child_handler (b_life b))"
    "b_life (boot_signal now SIGINT b) = wake (stop_handler (b_life b))"
    "timer (b_life b) \<Longrightarrow> b_life (boot_signal now SIGALRM b) = wake (monitor_interrupt now (b_life b))"
    "b_pc (boot_signal now SIGCHLD (sigchld_taken b)) = b_pc b" "b_pc (boot_signal now SIGINT b) = b_pc b"
    "timer (b_life b) \<Longrightarrow> b_pc (boot_signal now SIGALRM b) = b_pc b"
    "b_end (boot_signal now SIGCHLD (sigchld_taken b)) = b_end b" "b_end (boot_signal now SIGINT b) = b_end b"
    "timer (b_life b) \<Longrightarrow> b_end (boot_signal now SIGALRM b) = b_end b"
proof -
  have b: "boot_ok cfg b" "\<not> early (b_pc b)" using assms by (simp_all add: settled_def)
  note d = boot_okD [OF b(1)]
  have e: "b_pc b \<noteq> At_child_signals" using b(2) by (auto simp: early_def)
  have "boot_signal now SIGCHLD (sigchld_taken b) = handle child_handler (sigchld_taken b)"
    using d(3) e by (simp add: boot_signal_def react_def sigchld_taken_def in_life_def)
  then show "b_life (boot_signal now SIGCHLD (sigchld_taken b)) = wake (child_handler (b_life b))"
    "b_pc (boot_signal now SIGCHLD (sigchld_taken b)) = b_pc b"
    "b_end (boot_signal now SIGCHLD (sigchld_taken b)) = b_end b"
    by (simp_all add: handle_def sigchld_taken_def in_life_def child_handler_pending)
  have "boot_signal now SIGINT b = handle stop_handler b"
    using d(2) b(2) by (simp add: boot_signal_def react_def)
  then show "b_life (boot_signal now SIGINT b) = wake (stop_handler (b_life b))" "b_pc (boot_signal now SIGINT b) = b_pc b"
    "b_end (boot_signal now SIGINT b) = b_end b"
    by (simp_all add: handle_def)
  assume "timer (b_life b)"
  then have "boot_signal now SIGALRM b = handle (monitor_interrupt now) b"
    using d(5) by (simp add: boot_signal_def react_def)
  then show "b_life (boot_signal now SIGALRM b) = wake (monitor_interrupt now (b_life b))"
    "b_pc (boot_signal now SIGALRM b) = b_pc b" "b_end (boot_signal now SIGALRM b) = b_end b"
    by (simp_all add: handle_def)
qed

lemma coarse_step:
  assumes r: "breach cfg b0 b" and s: "settled cfg b" and l: "lstep cfg (b_life b) s'"
  shows "\<exists>b'. breach cfg b0 b' \<and> b_life b' = s' \<and> settled cfg b'"
  using l
proof (cases rule: lstep.cases)
  case (L_start now)
  then show ?thesis using starts_at_once [OF r s] by metis
next
  case L_ready
  then show ?thesis by (intro settled_step [OF r s B_ready l])
      (use s in \<open>auto simp: in_life_def settled_def child_frames\<close>)
next
  case L_go
  then show ?thesis by (intro settled_step [OF r s B_go l])
      (use s in \<open>auto simp: in_life_def settled_def child_frames\<close>)
next
  case L_interrupt
  then show ?thesis by (intro settled_step [OF r s B_interrupt l])
      (use s in \<open>auto simp: in_life_def settled_def child_frames\<close>)
next
  case L_dies
  then show ?thesis by (intro settled_step [OF r s B_dies l])
      (use s in \<open>auto simp: in_life_def settled_def child_frames\<close>)
next
  case L_sigchld
  then have x: "s' = wake (child_handler (b_life b))" "phase (b_life b) \<noteq> M_exited" "sigchld_pending (b_life b)" by simp_all
  then have e: "b_end b = None" using s by (simp add: settled_def)
  show ?thesis by (rule settled_step [OF r s B_sigchld [OF e x(2,3), where now = 0] l])
      (use phases_later(3) [of "b_life b"] in \<open>simp_all only: handler_runs [OF s] e x(1)\<close>)
next
  case (L_tick now)
  then have x: "s' = wake (monitor_interrupt now (b_life b))" "phase (b_life b) \<noteq> M_exited" "timer (b_life b)" by simp_all
  then have e: "b_end b = None" using s by (simp add: settled_def)
  show ?thesis by (rule settled_step [OF r s B_tick [OF e x(2,3), where now = now] l])
      (use phases_later(2) [of now "b_life b"] in \<open>simp_all only: handler_runs [OF s] e x\<close>)
next
  case L_sigint
  then have x: "s' = wake (stop_handler (b_life b))" "phase (b_life b) \<noteq> M_exited" by simp_all
  then have e: "b_end b = None" using s by (simp add: settled_def)
  show ?thesis by (rule settled_step [OF r s B_sigint [OF e x(2), where now = 0] l])
      (use phases_later(1) [of "b_life b"] in \<open>simp_all only: handler_runs [OF s] e x(1)\<close>)
next
  case L_test
  then have x: "s' = monitor_test (b_life b)" "phase (b_life b) = M_test" by simp_all
  then have e: "b_end b = None" using s by (simp add: settled_def)
  have "wake (monitor_test (b_life b)) = monitor_test (b_life b)"
    using x(2) by (simp add: wake_def monitor_test_def stop_handler_def)
  then have h: "b_life (handle monitor_test b) = s'" "b_pc (handle monitor_test b) = b_pc b" "b_end (handle monitor_test b) = None"
    using x(1) e by (simp_all add: handle_def)
  show ?thesis by (rule settled_step [OF r s B_test [OF e x(2)] l h(1,2) _ h(3)])
      (use phases_later(4) [of "b_life b"] x(1) in simp)
next
  case L_suspend
  then have x: "s' = (b_life b)\<lparr>phase := M_suspended\<rparr>" "phase (b_life b) = M_about" by simp_all
  then have e: "b_end b = None" using s by (simp add: settled_def)
  show ?thesis by (rule settled_step [OF r s B_suspend [OF e x(2)] l]) (simp_all add: in_life_def x e)
next
  case L_finish
  then have x: "s' = stop_finish (lc_cleanup_exits cfg) (b_life b)" "phase (b_life b) = M_stopping"
    "pid (b_life b) Ping = -1" "pid (b_life b) Pong = -1" by simp_all
  then have e: "b_end b = None" using s by (simp add: settled_def)
  show ?thesis by (rule settled_step [OF r s B_finish [OF e x(2,3,4)] l]) (simp_all add: in_life_def x(1) stop_finish_def)
qed

lemma coarse_runs:
  assumes "reach cfg s0 s" "breach cfg b0 b" "b_life b = s0" "settled cfg b"
  shows "\<exists>b'. breach cfg b0 b' \<and> b_life b' = s \<and> settled cfg b'"
  using assms
proof (induction rule: reach.induct)
  case R_init
  then show ?case by blast
next
  case (R_step s s')
  then obtain b' where b: "breach cfg b0 b'" "b_life b' = s" "settled cfg b'" by blast
  then show ?case using coarse_step [OF b(1,3)] R_step.hyps(2) by simp
qed

text \<open>With forked children the process ids are known from the start, and stay known.\<close>

lemma known_frame: "child s' = child s \<Longrightarrow> pid s' = pid s \<Longrightarrow> known s \<Longrightarrow> known s'"
  by (simp add: known_def)

lemma known_child:
  assumes "known s" "alive (child s t)"
  shows "known (thread_ready t s)" "known (set_child t x s)" "known (child_dies t s)" "known (interrupt_thread t s)"
proof -
  have n: "pid s t \<noteq> -1" "pid s t \<noteq> 0" using assms by (auto simp: known_def)
  show "known (thread_ready t s)" using assms(1) n by (auto simp: known_def thread_ready_frame)
  show c: "known (set_child t x s)" for x using assms(1) n by (auto simp: known_def set_child_fields)
  show "known (child_dies t s)" by (rule known_frame [OF _ _ c [of Zombie]]) (simp_all add: child_dies_def pid_def fun_eq_iff)
  show "known (interrupt_thread t s)"
  proof (cases "child s t = Starting \<or> stop s")
    case True
    then show ?thesis
      by (intro known_frame [OF _ _ c [of Zombie]])
        (auto simp: interrupt_thread_def child_dies_def set_child_def pid_def fun_eq_iff Let_def)
  next
    case False
    then show ?thesis
      by (intro known_frame [OF _ _ assms(1)]) (auto simp: interrupt_thread_def pid_def fun_eq_iff Let_def)
  qed
qed

lemma known_wait4: "known s \<Longrightarrow> known (wait4_nohang p s)"
  by (auto simp: known_def wait4_nohang_def set_child_fields)

lemma known_handlers:
  assumes "known s"
  shows "known (stop_handler s)" "known (monitor_interrupt now s)" "known (wake s)" "known (monitor_test s)"
    "life_ok cfg (with_chld s) \<Longrightarrow> known (child_handler s)"
proof -
  let ?u = "wait4_nohang (pid s Pong) (wait4_nohang (pid s Ping) s)"
  have st: "known (stop_handler s)" if "known s" for s
    by (rule known_frame [OF _ _ that]) (simp_all add: stop_handler_frame)
  then show "known (stop_handler s)" using assms by blast
  show "known (wake s)" by (rule known_frame [OF _ _ assms]) (simp_all add: wake_frame)
  show "known (monitor_test s)"
    using st assms by (simp add: monitor_test_def) (simp add: known_def pid_phase)
  have u: "known (?u\<lparr>last_stats_time := x, in_interrupt := y\<rparr>)" "known (?u\<lparr>in_interrupt := y\<rparr>)" "known ?u"
    "known (?u\<lparr>last_stats_time := x\<rparr>)" for x y
    using known_wait4 [OF known_wait4 [OF assms], of "pid s Pong" "pid s Ping"] by (simp_all add: known_def pid_def)
  show "known (monitor_interrupt now s)" using u assms by (simp add: monitor_interrupt_def Let_def st)
  assume l: "life_ok cfg (with_chld s)"
  have "known (with_chld s)" using assms by (simp add: known_def)
  then have "known (reap_child Pong (reap_child Ping (with_chld s)))"
    using l reap_child_known reap_child_ok by blast
  then have "known (reap_child Pong (reap_child Ping s))" by (simp add: with_chld_reap known_def)
  moreover from this have "wait_none (reap_child Pong (reap_child Ping s)) = reap_child Pong (reap_child Ping s)"
    by (intro wait_none_known) (simp add: known_def)
  ultimately show "known (child_handler s)" by (simp add: child_handler_def known_def pid_def)
qed

lemma handle_life: "b_life (handle f b) = wake (f (b_life b))"
  by (simp add: handle_def)

lemma boot_signal_cases:
  "boot_signal now sig b = b\<lparr>b_end := Some (Killed sig)\<rparr> \<or> boot_signal now sig b = b
   \<or> boot_signal now sig b = handle child_handler b \<or> boot_signal now sig b = handle stop_handler b
   \<or> boot_signal now sig b = handle (monitor_interrupt now) b"
  by (simp add: boot_signal_def split: reaction.split)

lemma known_signal:
  assumes "boot_ok cfg b" "known (b_life b)"
  shows "known (b_life (boot_signal now sig b))"
  using boot_signal_cases [of now sig b] known_handlers [OF assms(2)] known_handlers(3) boot_okD(1) [OF assms(1)] assms(2)
  by (elim disjE) (simp_all add: handle_life)

lemma bstep_known:
  assumes "bstep cfg b b'" "boot_ok cfg b" "known (b_life b)"
  shows "known (b_life b')"
  using assms
proof (induction rule: bstep.induct)
  case (B_sigchld b now)
  have "boot_ok cfg (sigchld_taken b)" unfolding sigchld_taken_def
    by (rule in_life_ok [OF B_sigchld(4)]) (use boot_okD(1) [OF B_sigchld(4)] in \<open>simp_all add: with_chld_def\<close>)
  then show ?case
    by (rule known_signal) (use B_sigchld(5) in \<open>simp add: sigchld_taken_def in_life_def known_def pid_def\<close>)
next
  case (B_boot b now)
  then show ?case
    by (cases "b_pc b") (simp_all add: boot_step_def in_life_def setup_monitor_timer_def known_def pid_def)
next
  case (B_tick b now)
  then show ?case by (simp only: known_signal)
next
  case (B_sigint b now)
  then show ?case by (simp only: known_signal)
qed (simp_all add: in_life_def handle_life known_child known_handlers, simp_all add: known_def stop_finish_def pid_def)

lemma breach_known:
  assumes "breach cfg b b'" "boot_ok cfg b" "known (b_life b)"
  shows "known (b_life b')"
  using assms
proof (induction rule: breach.induct)
  case BR_init
  then show ?case by simp
next
  case (BR_step c d)
  then show ?case using bstep_known [OF BR_step.hyps(2) breach_ok [OF BR_step.hyps(1) BR_step.prems(1)]] by simp
qed

text \<open>
  C4: With children that are processes, however the statements of \<^verbatim>\<open>do_monitor_work\<close> and the signals
  interleave: no child runs before both are ready, and when the monitor has exited both process ids have
  been cleared, the timer is off and the final statistics were shown exactly if the mode's cleanup does not
  end the process; with forked children a cleared process id belongs to a child that has been waited for.
  A signal can kill the monitor only before the stop handler is installed, and only SIGINT. Every run of the
  coarse life cycle is one of these runs.
\<close>

theorem monitor_start_in_steps:
  assumes "start_threads mode e = Inr s0" "mode = Thread_fork \<or> mode = Thread_thread"
    and "fst (se_forks e) \<noteq> snd (se_forks e)" "0 < fst (se_clones e) \<longrightarrow> fst (se_clones e) \<noteq> snd (se_clones e)"
  shows "(\<forall>b. breach cfg (boot_init s0) b \<longrightarrow>
      (child (b_life b) t = Running \<longrightarrow> ready (b_life b) Ping \<and> ready (b_life b) Pong)
      \<and> (mode = Thread_fork \<longrightarrow> pid (b_life b) t = -1 \<longrightarrow> child (b_life b) t = Reaped)
      \<and> (phase (b_life b) = M_exited \<longrightarrow> pid (b_life b) t = -1 \<and> stop (b_life b) \<and> \<not> timer (b_life b)
           \<and> final_stats (b_life b) = (\<not> lc_cleanup_exits cfg))
      \<and> (\<forall>sig. b_end b = Some (Killed sig) \<longrightarrow> sig = SIGINT \<and> b_disp b SIGINT = SIG_DFL))
    \<and> (\<forall>s. reach cfg s0 s \<longrightarrow> (\<exists>b. breach cfg (boot_init s0) b \<and> b_life b = s))"
proof (intro conjI allI impI)
  have l: "life_ok cfg s0" by (rule start_ok [OF assms])
  have i: "boot_ok cfg (boot_init s0)" by (rule boot_init_ok [OF assms(1,2) l])
  fix b assume r: "breach cfg (boot_init s0) b"
  then have b: "boot_ok cfg b" using breach_ok i by blast
  note d = boot_okD [OF b]
  have p: "procs_ok (with_chld (b_life b))" "barrier_ok (b_life b)" "monitor_ok cfg (b_life b)"
    using d(1) by (simp_all add: life_ok_def barrier_ok_def monitor_ok_def)
  show "ready (b_life b) Ping" "ready (b_life b) Pong" if "child (b_life b) t = Running"
    using p(2) that by (auto simp: barrier_ok_def)
  show "child (b_life b) t = Reaped" if "mode = Thread_fork" "pid (b_life b) t = -1"
  proof -
    have "told s0" using fork_start(2) assms(1,3) that(1) by blast
    then have "known (b_life (boot_init s0))" by (simp add: told_def boot_init_def)
    then show ?thesis using breach_known [OF r i] that(2) by (simp add: known_def)
  qed
  show "pid (b_life b) t = -1" if "phase (b_life b) = M_exited"
    using p(3) that by (cases t) (simp_all add: monitor_ok_def)
  show "stop (b_life b)" "\<not> timer (b_life b)" "final_stats (b_life b) = (\<not> lc_cleanup_exits cfg)" if "phase (b_life b) = M_exited"
    using p(3) that by (simp_all add: monitor_ok_def)
  show "sig = SIGINT" "b_disp b SIGINT = SIG_DFL" if "b_end b = Some (Killed sig)" for sig
    using d(2) d(11) [OF that] by simp_all
next
  have l: "life_ok cfg s0" by (rule start_ok [OF assms])
  obtain b where b: "breach cfg (boot_init s0) b" "b_life b = s0" "settled cfg b"
    using reaches_ready_wait [OF assms(1,2) l] by blast
  fix s assume "reach cfg s0 s"
  then show "\<exists>b. breach cfg (boot_init s0) b \<and> b_life b = s" using coarse_runs [OF _ b] by blast
qed

section \<open>Races\<close>

text \<open>Until the end of the run is set it is zero.\<close>

definition end_unset :: "life \<Rightarrow> bool" where
  "end_unset s \<longleftrightarrow> (phase s = M_ready_wait \<longrightarrow> timeout_time s = 0 \<and> \<not> in_interrupt s)"

lemma stop_handler_phase:
  assumes "life_ok cfg (with_chld s)"
  shows "phase (stop_handler s) \<noteq> M_ready_wait" "phase (monitor_test s) \<noteq> M_ready_wait"
  using assms by (auto simp: stop_handler_def monitor_test_def life_ok_def monitor_ok_def)

lemma monitor_interrupt_end_unset:
  assumes "life_ok cfg (with_chld s)" "end_unset s"
  shows "end_unset (monitor_interrupt now s)"
proof -
  let ?u = "wait4_nohang (pid s Pong) (wait4_nohang (pid s Ping) s)"
  have fr: "visited ?u = visited s" "phase ?u = phase s" "timeout_time ?u = timeout_time s" "in_interrupt ?u = in_interrupt s"
    by (simp_all add: wait4_nohang_def set_child_def)
  have v: "visited s \<Longrightarrow> phase s \<noteq> M_ready_wait" using assms(1) by (auto simp: life_ok_def monitor_ok_def)
  have h: "phase (stop_handler w) \<noteq> M_ready_wait" if "visited w = visited s" "phase w = phase s" for w
    using that v by (simp add: stop_handler_def)
  show ?thesis using assms(2) fr h
    unfolding end_unset_def monitor_interrupt_def Let_def by auto
qed

lemma reap_child_frame:
  "phase (reap_child t s) = phase s" "timeout_time (reap_child t s) = timeout_time s"
  "in_interrupt (reap_child t s) = in_interrupt s"
  by (simp_all add: reap_child_def mark_dead_def set_child_def set_pid_def stop_timer_def Let_def)

lemma child_handler_end_unset: "end_unset s \<Longrightarrow> end_unset (child_handler s)"
  by (simp add: end_unset_def child_handler_def reap_child_frame wait_none_fields)

lemma wake_end_unset: "end_unset s \<Longrightarrow> end_unset (wake s)"
  by (simp add: end_unset_def wake_def)

lemma boot_signal_end_unset:
  assumes "boot_ok cfg b" "end_unset (b_life b)"
  shows "end_unset (b_life (boot_signal now sig b))"
proof -
  note l = boot_okD(1) [OF assms(1)]
  have "end_unset (stop_handler (b_life b))" using stop_handler_phase(1) [OF l] by (simp add: end_unset_def)
  then show ?thesis
    using boot_signal_cases [of now sig b] monitor_interrupt_end_unset [OF l assms(2)] child_handler_end_unset [OF assms(2)] assms(2)
    by (auto simp: handle_life wake_end_unset)
qed

lemma bstep_end_unset:
  assumes "bstep cfg b b'" "boot_ok cfg b" "end_unset (b_life b)"
  shows "end_unset (b_life b')"
  using assms
proof (induction rule: bstep.induct)
  case (B_sigchld b now)
  have "boot_ok cfg (sigchld_taken b)" unfolding sigchld_taken_def
    by (rule in_life_ok [OF B_sigchld(4)]) (use boot_okD(1) [OF B_sigchld(4)] in \<open>simp_all add: with_chld_def\<close>)
  then show ?case by (rule boot_signal_end_unset) (use B_sigchld(5) in \<open>simp add: sigchld_taken_def in_life_def end_unset_def\<close>)
next
  case (B_boot b now)
  then show ?case
    by (cases "b_pc b") (simp_all add: boot_step_def in_life_def end_unset_def setup_monitor_timer_def)
next
  case (B_test b)
  have "end_unset (monitor_test (b_life b))" using stop_handler_phase(2) [OF boot_okD(1) [OF B_test(3)]] by (simp add: end_unset_def)
  then show ?case by (simp add: handle_life wake_end_unset)
next
  case (B_tick b now)
  then show ?case by (simp only: boot_signal_end_unset)
next
  case (B_sigint b now)
  then show ?case by (simp only: boot_signal_end_unset)
qed (simp_all add: in_life_def end_unset_def stop_finish_def child_frames thread_ready_def
    set_child_def set_pid_def set_tid_def child_dies_def interrupt_thread_def Let_def)

text \<open>Past the wait for the flags the start flag is never set again.\<close>

lemma bstep_start:
  assumes "bstep cfg b b'" "boot_ok cfg b" "phase (b_life b) \<noteq> M_ready_wait"
  shows "start (b_life b') = start (b_life b) \<and> phase (b_life b') \<noteq> M_ready_wait"
proof -
  have sig: "start (b_life (boot_signal now sig c)) = start (b_life c) \<and> phase (b_life (boot_signal now sig c)) \<noteq> M_ready_wait"
    if "phase (b_life c) \<noteq> M_ready_wait" for now sig c
  proof -
    let ?s = "b_life c"
    have p: "phase (wake (stop_handler ?s)) \<noteq> M_ready_wait" "phase (wake (monitor_interrupt now ?s)) \<noteq> M_ready_wait"
      "phase (wake (child_handler ?s)) \<noteq> M_ready_wait"
      using that phases_later by blast+
    have "start (stop_handler ?s) = start ?s" "start (monitor_interrupt now ?s) = start ?s" "start (child_handler ?s) = start ?s"
      using stop_handler_calm child_handler_calm monitor_interrupt_calm unfolding calm_def by blast+
    then show ?thesis
      using boot_signal_cases [of now sig c] that p by (elim disjE) (simp_all add: handle_life del: wake_fields(8))
  qed
  show ?thesis using assms
  proof (induction rule: bstep.induct)
    case (B_sigchld b now)
    then show ?case using sig [of "sigchld_taken b"] by (simp add: sigchld_taken_def in_life_def)
  next
    case (B_test b)
    then show ?case using stop_handler_phase(2) [OF boot_okD(1) [OF B_test(3)]] monitor_test_calm [of "b_life b"]
      by (simp add: handle_life calm_def)
  qed (simp_all add: sig in_life_def child_frames stop_finish_def)
qed

lemma breach_start:
  assumes "breach cfg b b'" "boot_ok cfg b" "phase (b_life b) \<noteq> M_ready_wait"
  shows "start (b_life b') = start (b_life b) \<and> phase (b_life b') \<noteq> M_ready_wait"
  using assms
proof (induction rule: breach.induct)
  case BR_init
  then show ?case by simp
next
  case (BR_step c d)
  then show ?case using bstep_start [OF BR_step.hyps(2) breach_ok [OF BR_step.hyps(1) BR_step.prems(1)]] by simp
qed

lemma breach_end_unset:
  assumes "breach cfg b b'" "boot_ok cfg b" "end_unset (b_life b)"
  shows "end_unset (b_life b')"
  using assms
proof (induction rule: breach.induct)
  case BR_init
  then show ?case by simp
next
  case (BR_step c d)
  then show ?case using bstep_end_unset [OF BR_step.hyps(2) breach_ok [OF BR_step.hyps(1) BR_step.prems(1)]] by simp
qed

lemma tick_before_end:
  assumes "end_unset s" "phase s = M_ready_wait" "\<not> stop s" "\<not> visited s" "0 \<le> now"
  shows "phase (monitor_interrupt now s) = M_stopping \<and> stop (monitor_interrupt now s)
    \<and> start (monitor_interrupt now s) = start s"
  using assms
  by (simp add: end_unset_def monitor_interrupt_def wait4_nohang_def set_child_def stop_handler_def stop_timer_def Let_def)

text \<open>Both children are gone, nobody will tell the monitor, and one was never ready.\<close>

definition unnoticed :: "boot \<Rightarrow> bool" where
  "unnoticed b \<longleftrightarrow> child (b_life b) Ping = Zombie \<and> child (b_life b) Pong = Zombie \<and> \<not> sigchld_pending (b_life b)
     \<and> \<not> (ready (b_life b) Ping \<and> ready (b_life b) Pong) \<and> phase (b_life b) \<noteq> M_exited
     \<and> (\<forall>t. pid (b_life b) t \<noteq> -1)"

lemma stop_handler_kept:
  "child (stop_handler s) = child s" "sigchld_pending (stop_handler s) = sigchld_pending s" "ready (stop_handler s) = ready s"
  "phase s \<noteq> M_exited \<Longrightarrow> phase (stop_handler s) \<noteq> M_exited" "pid (stop_handler s) = pid s"
  by (simp_all add: stop_handler_def stop_timer_def pid_def fun_eq_iff)

lemma wake_children [simp]: "child (wake s) = child s" "sigchld_pending (wake s) = sigchld_pending s"
  by (simp_all add: wake_def)

lemma unnoticedD:
  assumes "boot_ok cfg b" "unnoticed b"
  shows "child (b_life b) t = Zombie" "\<not> sigchld_pending (b_life b)" "\<not> timer (b_life b)" "pid (b_life b) t \<noteq> -1"
proof -
  show c: "child (b_life b) t = Zombie" for t using assms(2) by (cases t; simp add: unnoticed_def)
  show "\<not> sigchld_pending (b_life b)" using assms(2) by (simp add: unnoticed_def)
  have "pc_rank (b_pc b) < 5"
    using boot_okD(10) [OF assms(1)] assms(2) unfolding unnoticed_def by (meson not_le)
  then show "\<not> timer (b_life b)" using boot_okD(8) [OF assms(1)] by force
  show "pid (b_life b) t \<noteq> -1" using assms(2) by (simp add: unnoticed_def)
qed

lemma bstep_unnoticed:
  assumes "bstep cfg b b'" "boot_ok cfg b" "unnoticed b"
  shows "unnoticed b'"
proof -
  note u = unnoticedD [OF assms(2,3)]
  from assms(1) show ?thesis
  proof (cases rule: bstep.cases)
    case (B_sigint now)
    have "unnoticed (handle stop_handler b)" using assms(3) by (simp add: unnoticed_def handle_life stop_handler_kept)
    moreover have "boot_signal now SIGINT b = b\<lparr>b_end := Some (Killed SIGINT)\<rparr> \<or> boot_signal now SIGINT b = handle stop_handler b"
      using boot_okD(2) [OF assms(2)] by (simp add: boot_signal_def react_def)
    ultimately show ?thesis using assms(3) B_sigint(1) by (auto simp: unnoticed_def)
  next
    case B_test
    then show ?thesis using assms(3) by (simp add: unnoticed_def handle_life monitor_test_def stop_handler_kept pid_phase)
  next
    case (B_boot now)
    then show ?thesis using assms(3)
      by (cases "b_pc b") (simp_all add: boot_step_def in_life_def unnoticed_def setup_monitor_timer_def pid_def)
  next
    case B_suspend
    then show ?thesis using assms(3) by (simp add: unnoticed_def in_life_def pid_def)
  qed (use u in auto)
qed

lemma breach_unnoticed:
  assumes "breach cfg b b'" "boot_ok cfg b" "unnoticed b"
  shows "unnoticed b'"
  using assms
proof (induction rule: breach.induct)
  case BR_init
  then show ?case by simp
next
  case (BR_step c d)
  then show ?case using bstep_unnoticed [OF BR_step.hyps(2) breach_ok [OF BR_step.hyps(1) BR_step.prems(1)]] by simp
qed

theorem monitor_start_in_steps_witness:
  "\<exists>s0. start_threads Thread_fork example_env = Inr s0 \<and> (\<exists>b. breach example_cfg (boot_init s0) b \<and> b_life b = s0)"
proof -
  obtain s0 where s: "start_threads Thread_fork example_env = Inr s0" using example_fork by blast
  show ?thesis
    using monitor_start_in_steps [OF s, of example_cfg Ping] s R_init by (auto simp: example_env_def)
qed

lemma early_tick_stops:
  assumes b: "boot_ok cfg b" "b_end b = None" and u: "end_unset (b_life b)"
    and k: "timer (b_life b)" "phase (b_life b) = M_ready_wait" "\<not> stop (b_life b)" "0 \<le> now"
  shows "phase (b_life (boot_signal now SIGALRM b)) = M_stopping \<and> stop (b_life (boot_signal now SIGALRM b))
    \<and> (\<forall>b'. breach cfg (boot_signal now SIGALRM b) b' \<longrightarrow> \<not> start (b_life b) \<longrightarrow> child (b_life b') t \<noteq> Running)"
proof -
  note d = boot_okD [OF b(1)]
  have e: "boot_signal now SIGALRM b = handle (monitor_interrupt now) b"
    using d(5) k by (simp add: boot_signal_def react_def)
  have "\<not> visited (b_life b)" using d(1) k by (simp add: life_ok_def monitor_ok_def)
  then have m: "phase (monitor_interrupt now (b_life b)) = M_stopping" "stop (monitor_interrupt now (b_life b))"
    "start (monitor_interrupt now (b_life b)) = start (b_life b)"
    using tick_before_end [OF u, of now] k by simp_all
  have ok: "boot_ok cfg (boot_signal now SIGALRM b)" by (rule boot_signal_ok [OF b]) (use k in simp)
  have "child (b_life b') t \<noteq> Running"
    if r: "breach cfg (boot_signal now SIGALRM b) b'" and n: "\<not> start (b_life b)" for b'
  proof -
    have "\<not> start (b_life b')" using breach_start [OF r ok] n m by (simp add: e handle_life)
    then show ?thesis using boot_okD(1) [OF breach_ok [OF r ok]] by (auto simp: life_ok_def barrier_ok_def)
  qed
  moreover have "phase (b_life (boot_signal now SIGALRM b)) = M_stopping \<and> stop (b_life (boot_signal now SIGALRM b))"
    using m by (simp add: e handle_life)
  ultimately show ?thesis by blast
qed

text \<open>Before the first statement no process id has been cleared.\<close>

definition untouched :: "boot \<Rightarrow> bool" where
  "untouched b \<longleftrightarrow> (b_pc b = At_child_signals \<longrightarrow> (\<forall>t. pid (b_life b) t \<noteq> -1))"

lemma boot_signal_untouched:
  assumes "boot_ok cfg b" "untouched b" "sig = SIGCHLD \<or> sig = SIGINT"
  shows "untouched (boot_signal now sig b)"
proof (cases "b_pc b = At_child_signals")
  case True
  then have "early (b_pc b)" by (simp add: early_def)
  then have "boot_signal now sig b = b \<or> boot_signal now sig b = b\<lparr>b_end := Some (Killed sig)\<rparr>"
    using boot_okD(2,3) [OF assms(1)] assms(3) True by (auto simp: boot_signal_def react_def)
  then show ?thesis using assms(2) by (auto simp: untouched_def)
next
  case False
  then show ?thesis using boot_signal_cases [of now sig b] by (auto simp: untouched_def handle_def)
qed

lemma bstep_untouched:
  assumes "bstep cfg b b'" "boot_ok cfg b" "untouched b"
  shows "untouched b'"
  using assms
proof (induction rule: bstep.induct)
  case (B_ready b t)
  then have "0 < proc (b_life b) t" using boot_okD(1) by (fastforce simp: life_ok_def procs_ok_def)
  then show ?case using B_ready(3) by (auto simp: untouched_def in_life_def thread_ready_frame)
next
  case (B_sigchld b now)
  have "boot_ok cfg (sigchld_taken b)" unfolding sigchld_taken_def
    by (rule in_life_ok [OF B_sigchld(4)]) (use boot_okD(1) [OF B_sigchld(4)] in \<open>simp_all add: with_chld_def\<close>)
  then show ?case
    by (rule boot_signal_untouched) (use B_sigchld(5) in \<open>simp_all add: sigchld_taken_def in_life_def untouched_def pid_def\<close>)
next
  case (B_boot b now)
  then show ?case by (cases "b_pc b") (simp_all add: boot_step_def in_life_def untouched_def)
next
  case (B_tick b now)
  then have "b_pc b \<noteq> At_child_signals" using boot_okD(8) [OF B_tick(4)] by force
  then show ?case using boot_signal_cases [of now SIGALRM b] by (auto simp: untouched_def handle_def)
next
  case (B_sigint b now)
  then show ?case by (intro boot_signal_untouched) simp_all
next
  case (B_test b)
  then have "b_pc b \<noteq> At_child_signals" using boot_okD(7) [OF B_test(3)] by (force simp: early_def)
  then show ?case by (simp add: untouched_def handle_def)
qed (auto simp: untouched_def in_life_def set_child_fields child_dies_frame interrupt_thread_def stop_finish_def pid_def
    child_dies_def set_child_def Let_def)

lemma breach_untouched:
  assumes "breach cfg b b'" "boot_ok cfg b" "untouched b"
  shows "untouched b'"
  using assms
proof (induction rule: breach.induct)
  case BR_init
  then show ?case by simp
next
  case (BR_step c d)
  then show ?case using bstep_untouched [OF BR_step.hyps(2) breach_ok [OF BR_step.hyps(1) BR_step.prems(1)]] by simp
qed

lemma fresh_pids:
  assumes "start_threads mode e = Inr s0" "mode = Thread_fork \<or> mode = Thread_thread"
    and "fst (se_forks e) \<noteq> snd (se_forks e)"
  shows "pid s0 t \<noteq> -1"
  using assms(2)
proof
  assume "mode = Thread_fork"
  then show ?thesis using fork_ok(2) [OF fork_start(3)] assms(1,3) by blast
next
  assume "mode = Thread_thread"
  then show ?thesis using clone_fresh(1) [of e s0 t] assms(1) by simp
qed

lemma early_deaths_hang:
  assumes b: "boot_ok cfg b" "b_end b = None" "untouched b"
    and k: "b_pc b = At_child_signals" "child (b_life b) Ping = Zombie" "child (b_life b) Pong = Zombie"
      "\<not> (ready (b_life b) Ping \<and> ready (b_life b) Pong)"
    and r: "breach cfg (boot_signal now SIGCHLD (sigchld_taken b)) b'"
  shows "phase (b_life b') \<noteq> M_exited"
proof -
  let ?c = "boot_signal now SIGCHLD (sigchld_taken b)"
  note d = boot_okD [OF b(1)]
  have c: "?c = sigchld_taken b"
    using d(3) k by (simp add: boot_signal_def react_def sigchld_taken_def in_life_def)
  have "boot_ok cfg (sigchld_taken b)" unfolding sigchld_taken_def
    by (rule in_life_ok [OF b(1)]) (use d(1) in \<open>simp_all add: with_chld_def\<close>)
  then have ok: "boot_ok cfg ?c" by (simp only: c)
  have "phase (b_life b) = M_ready_wait" using d(7) k by (simp add: early_def)
  then have "unnoticed ?c" unfolding c using k b(3)
    by (simp add: unnoticed_def untouched_def sigchld_taken_def in_life_def) (simp add: pid_def)
  then show ?thesis using breach_unnoticed [OF r ok] by (simp add: unnoticed_def)
qed

text \<open>
  C30: Two races at the start. A tick of the statistics timer that comes before the end of the run has been
  computed finds the zero the shared area was cleared to, and stops the run; if it comes before the start flag is
  set, no child ever runs. And if both children die before the handler for SIGCHLD is installed, one of
  them without being ready, the signal is discarded and the monitor never exits.
\<close>

theorem start_races:
  assumes "start_threads mode e = Inr s0" "mode = Thread_fork \<or> mode = Thread_thread"
    and "fst (se_forks e) \<noteq> snd (se_forks e)" "0 < fst (se_clones e) \<longrightarrow> fst (se_clones e) \<noteq> snd (se_clones e)"
    and "breach cfg (boot_init s0) b" "b_end b = None"
  shows "(timer (b_life b) \<and> phase (b_life b) = M_ready_wait \<and> \<not> stop (b_life b) \<and> 0 \<le> now \<longrightarrow>
       phase (b_life (boot_signal now SIGALRM b)) = M_stopping \<and> stop (b_life (boot_signal now SIGALRM b))
       \<and> (\<forall>b'. breach cfg (boot_signal now SIGALRM b) b' \<longrightarrow> \<not> start (b_life b) \<longrightarrow> child (b_life b') t \<noteq> Running))
    \<and> (b_pc b = At_child_signals \<and> child (b_life b) Ping = Zombie \<and> child (b_life b) Pong = Zombie
         \<and> \<not> (ready (b_life b) Ping \<and> ready (b_life b) Pong) \<longrightarrow>
       (\<forall>b'. breach cfg (boot_signal now SIGCHLD (sigchld_taken b)) b' \<longrightarrow> phase (b_life b') \<noteq> M_exited))"
proof -
  have i: "boot_ok cfg (boot_init s0)" by (rule boot_init_ok [OF assms(1,2) start_ok [OF assms(1-4)]])
  have b: "boot_ok cfg b" by (rule breach_ok [OF assms(5) i])
  have u: "end_unset (b_life b)"
    by (rule breach_end_unset [OF assms(5) i]) (use fresh_flags [OF assms(1,2)] in \<open>simp add: end_unset_def boot_init_def\<close>)
  have n: "untouched b"
    by (rule breach_untouched [OF assms(5) i]) (simp add: untouched_def boot_init_def fresh_pids [OF assms(1-3)])
  show ?thesis using early_tick_stops [OF b assms(6) u] early_deaths_hang [OF b assms(6) n] by blast
qed


text \<open>The two situations of the theorem in runs of the example.\<close>

lemma timer_before_start:
  assumes "start_threads mode e = Inr s0" "mode = Thread_fork \<or> mode = Thread_thread" "life_ok cfg s0"
    and c: "\<forall>t. child s0 t = Starting" and g: "tv_sec (lc_interval cfg) \<noteq> 0"
  shows "\<exists>b. breach cfg (boot_init s0) b \<and> b_end b = None \<and> timer (b_life b) \<and> phase (b_life b) = M_ready_wait
    \<and> \<not> stop (b_life b) \<and> \<not> start (b_life b)"
proof -
  note f = fresh_flags [OF assms(1,2)]
  let ?s1 = "thread_ready Ping s0"
  let ?s2 = "thread_ready Pong ?s1"
  have s2: "ready ?s2 Ping" "ready ?s2 Pong" "phase ?s2 = M_ready_wait" "\<not> stop ?s2" "\<not> start ?s2"
    using f by (simp_all add: thread_ready_def set_child_def set_pid_def set_tid_def Let_def)
  have "lstep cfg s0 ?s1" using c by (intro L_ready) simp
  moreover have "lstep cfg ?s1 ?s2"
    using c by (intro L_ready) (simp add: thread_ready_def set_child_def set_pid_def set_tid_def Let_def)
  ultimately obtain b where b: "breach cfg (boot_init s0) b" "b_life b = ?s2" "settled cfg b"
    using reaches_ready_wait [OF assms(1-3)] coarse_step by metis
  define b1 where "b1 = boot_step cfg 0 b"
  define b2 where "b2 = boot_step cfg 0 b1"
  have x: "b_pc b = At_ready_wait" "b_end b = None" "boot_ok cfg b" using b(2,3) s2(3) by (simp_all add: settled_def)
  have y: "b_life b1 = ?s2" "b_end b1 = None" "b_pc b1 = At_timer"
    using x b(2) s2(1,2) by (simp_all add: b1_def boot_step_def)
  have "boots cfg (boot_init s0) b1"
    by (rule boots_step [OF _ x(2) _ b1_def]) (simp_all add: boots_def b(1,2) x(3) s2(3))
  then have "boots cfg (boot_init s0) b2" by (rule boots_step [OF _ _ _ b2_def]) (simp_all add: y s2)
  moreover have "b_end b2 = None" "b_life b2 = ?s2\<lparr>timer := True\<rparr>"
    using y g by (simp_all add: b2_def boot_step_def in_life_def setup_monitor_timer_def)
  ultimately show ?thesis using s2 by (auto simp: boots_def)
qed

lemma both_die_first:
  assumes "\<forall>t. child s0 t = Starting" "\<not> ready s0 Ping"
  shows "\<exists>b. breach cfg (boot_init s0) b \<and> b_end b = None \<and> b_pc b = At_child_signals
    \<and> child (b_life b) Ping = Zombie \<and> child (b_life b) Pong = Zombie \<and> \<not> ready (b_life b) Ping"
proof -
  let ?b1 = "in_life (child_dies Ping) (boot_init s0)"
  let ?b2 = "in_life (child_dies Pong) ?b1"
  have l: "child (b_life ?b1) = (child s0)(Ping := Zombie)" by (simp add: in_life_def boot_init_def child_dies_def set_child_def)
  have "breach cfg (boot_init s0) ?b1" by (rule BR_step [OF BR_init B_dies]) (use assms in \<open>simp add: boot_init_def\<close>)
  then have "breach cfg (boot_init s0) ?b2" by (rule BR_step [OF _ B_dies]) (use assms l in simp)
  moreover have "b_end ?b2 = None \<and> b_pc ?b2 = At_child_signals \<and> child (b_life ?b2) Ping = Zombie
      \<and> child (b_life ?b2) Pong = Zombie \<and> \<not> ready (b_life ?b2) Ping"
    using assms(2) by (simp add: in_life_def boot_init_def child_dies_def set_child_def)
  ultimately show ?thesis by blast
qed

theorem start_races_witness:
  "\<exists>s0 b c. breach example_cfg (boot_init s0) b \<and> breach example_cfg (boot_init s0) c
     \<and> stop (b_life (boot_signal 0 SIGALRM b)) \<and> \<not> start (b_life b)
     \<and> (\<forall>b'. breach example_cfg (boot_signal 0 SIGALRM b) b' \<longrightarrow> child (b_life b') Ping \<noteq> Running)
     \<and> (\<forall>c'. breach example_cfg (boot_signal 0 SIGCHLD (sigchld_taken c)) c' \<longrightarrow> phase (b_life c') \<noteq> M_exited)"
proof -
  obtain s0 where s: "start_threads Thread_fork example_env = Inr s0" using example_fork by blast
  have f: "life_ok example_cfg s0" "\<forall>t. child s0 t = Starting"
    using fork_ok [of "se_forks example_env" s0] s by (simp_all add: start_threads_def example_env_def)
  have e: "fst (se_forks example_env) \<noteq> snd (se_forks example_env)"
    "0 < fst (se_clones example_env) \<longrightarrow> fst (se_clones example_env) \<noteq> snd (se_clones example_env)"
    by (simp_all add: example_env_def)
  obtain b where b: "breach example_cfg (boot_init s0) b" "b_end b = None" "timer (b_life b)" "phase (b_life b) = M_ready_wait"
      "\<not> stop (b_life b)" "\<not> start (b_life b)"
    using timer_before_start [OF s _ f] by (auto simp: example_cfg_def)
  obtain c where c: "breach example_cfg (boot_init s0) c" "b_end c = None" "b_pc c = At_child_signals"
      "child (b_life c) Ping = Zombie" "child (b_life c) Pong = Zombie" "\<not> ready (b_life c) Ping"
    using both_die_first [OF f(2)] fresh_flags(7) [OF s] by blast
  have "stop (b_life (boot_signal 0 SIGALRM b))"
    "\<forall>b'. breach example_cfg (boot_signal 0 SIGALRM b) b' \<longrightarrow> child (b_life b') Ping \<noteq> Running"
    using start_races [OF s _ e b(1,2), of 0 Ping] b by simp_all
  moreover have "\<forall>c'. breach example_cfg (boot_signal 0 SIGCHLD (sigchld_taken c)) c' \<longrightarrow> phase (b_life c') \<noteq> M_exited"
    using start_races [OF s _ e c(1,2), of 0 Ping] c by simp
  ultimately show ?thesis using b(1,6) c(1) by blast
qed

end
