(* ===== verification/Nested_Handlers.thy ===== *)
theory Nested_Handlers
  imports Boot
begin

text \<open>
  The handlers of the monitor (\<^verbatim>\<open>threads_monitor.c\<close>) statement by statement. All are installed with an
  empty mask, so each can be interrupted by the others: what runs in the monitor is a stack of
  handlers over the main program, and a signal is blocked only while its own handler is on the
  stack. Every step of \<open>Threads\<close> is a sequence of steps here. The invariant holds of every stack; a stop handler that
  waits ends the run unless it has interrupted the child handler or a child was waited for elsewhere.
\<close>

section \<open>Handlers on a stack\<close>

text \<open>The stop handler is called by SIGINT, by the timer handler, and by the main program at its end.\<close>

datatype caller = By_int | By_tick | By_main

datatype frame =
    C_wait | C_got int | C_set tid | C_flag | C_timer
  | I_enter | I_count | I_time | I_wait0 rat | I_wait1 rat | I_stop rat | I_store rat | I_check | I_called | I_leave
  | S_enter caller | S_visit caller | S_timer caller | S_flag caller | S_kill0 caller | S_kill1 caller | S_wait caller

datatype handler_kind = K_chld | K_alrm | K_stop caller

fun kind :: "frame \<Rightarrow> handler_kind" where
  "kind C_wait = K_chld" | "kind (C_got p) = K_chld" | "kind (C_set t) = K_chld" | "kind C_flag = K_chld"
| "kind C_timer = K_chld"
| "kind I_enter = K_alrm" | "kind I_count = K_alrm" | "kind I_time = K_alrm" | "kind (I_wait0 r) = K_alrm"
| "kind (I_wait1 r) = K_alrm" | "kind (I_stop r) = K_alrm" | "kind (I_store r) = K_alrm" | "kind I_check = K_alrm"
| "kind I_called = K_alrm" | "kind I_leave = K_alrm"
| "kind (S_enter b) = K_stop b" | "kind (S_visit b) = K_stop b" | "kind (S_timer b) = K_stop b"
| "kind (S_flag b) = K_stop b" | "kind (S_kill0 b) = K_stop b" | "kind (S_kill1 b) = K_stop b"
| "kind (S_wait b) = K_stop b"

text \<open>
  \<^verbatim>\<open>waitpid (-1, WNOHANG)\<close>: one of the dead, 0 while there is a child and none is dead, -1 when there is
  none; which of two is an argument.
\<close>

definition waitpid_any :: "tid \<Rightarrow> life \<Rightarrow> int \<times> life" where
  "waitpid_any t s =
     (if child s t = Zombie then (proc s t, set_child t Reaped s)
      else (let u = (case t of Ping \<Rightarrow> Pong | Pong \<Rightarrow> Ping)
            in if child s u = Zombie then (proc s u, set_child u Reaped s)
               else if alive (child s t) \<or> alive (child s u) then (0, s) else (-1, s)))"

text \<open>\<^verbatim>\<open>child_handler\<close>: what takes the place of the statement, and the state.\<close>

fun child_frame :: "tid \<Rightarrow> frame \<Rightarrow> life \<Rightarrow> frame list \<times> life" where
  "child_frame t C_wait s = (let (p, s') = waitpid_any t s in (if p = -1 then [] else [C_got p], s'))"
| "child_frame t (C_got p) s =
     (if p = pid s Ping then [C_set Ping] else if p = pid s Pong then [C_set Pong]
      else if p = 0 then [] else [C_wait], s)"
| "child_frame t (C_set u) s = ([C_flag], set_pid u (-1) s)"
| "child_frame t C_flag s = ([C_timer], s\<lparr>stop := True\<rparr>)"
| "child_frame t C_timer s = ([C_wait], stop_timer s)"
| "child_frame t f s = ([f], s)"

text \<open>\<^verbatim>\<open>monitor_interrupt\<close> with \<^verbatim>\<open>show_periodic_stats\<close>: the time is taken first and stored last.\<close>

fun tick_frame :: "rat \<Rightarrow> frame \<Rightarrow> life \<Rightarrow> frame list \<times> life" where
  "tick_frame now I_enter s = (if in_interrupt s then [] else [I_count], s)"
| "tick_frame now I_count s = ([I_time], s\<lparr>in_interrupt := True\<rparr>)"
| "tick_frame now I_time s = ([I_wait0 now], s)"
| "tick_frame now (I_wait0 r) s = ([I_wait1 r], wait4_nohang (pid s Ping) s)"
| "tick_frame now (I_wait1 r) s = ([I_stop r], wait4_nohang (pid s Pong) s)"
| "tick_frame now (I_stop r) s = (if stop s then [I_check] else [I_store r], s)"
| "tick_frame now (I_store r) s = ([I_check], s\<lparr>last_stats_time := r\<rparr>)"
| "tick_frame now I_check s =
     (if timeout_time s \<le> last_stats_time s then [S_enter By_tick, I_called] else [I_leave], s)"
| "tick_frame now I_called s = ([], s)"
| "tick_frame now I_leave s = ([], s\<lparr>in_interrupt := False\<rparr>)"
| "tick_frame now f s = ([f], s)"

text \<open>\<^verbatim>\<open>stop_handler\<close>, which does not return once it is past its test.\<close>

fun stop_frame :: "life_cfg \<Rightarrow> frame \<Rightarrow> life \<Rightarrow> frame list \<times> life" where
  "stop_frame cfg (S_enter b) s = (if visited s then [] else [S_visit b], s)"
| "stop_frame cfg (S_visit b) s = ([S_timer b], s\<lparr>visited := True\<rparr>)"
| "stop_frame cfg (S_timer b) s = ([S_flag b], stop_timer s)"
| "stop_frame cfg (S_flag b) s = ([S_kill0 b], s\<lparr>stop := True\<rparr>)"
| "stop_frame cfg (S_kill0 b) s = ([S_kill1 b], snd (send_sig kill_child (pid s Ping) 60 s))"
| "stop_frame cfg (S_kill1 b) s = ([S_wait b], snd (send_sig kill_child (pid s Pong) 61 s))"
| "stop_frame cfg (S_wait b) s =
     ([S_wait b], if pid s Ping = -1 \<and> pid s Pong = -1 then stop_finish (lc_cleanup_exits cfg) s else s)"
| "stop_frame cfg f s = ([f], s)"

definition frame_step :: "life_cfg \<Rightarrow> rat \<Rightarrow> tid \<Rightarrow> frame \<Rightarrow> life \<Rightarrow> frame list \<times> life" where
  "frame_step cfg now t f s =
     (case kind f of K_chld \<Rightarrow> child_frame t f s | K_alrm \<Rightarrow> tick_frame now f s | K_stop b \<Rightarrow> stop_frame cfg f s)"

record nest =
  n_life :: life
  n_stack :: "frame list"

definition on_stack :: "handler_kind \<Rightarrow> nest \<Rightarrow> bool" where
  "on_stack k n \<longleftrightarrow> k \<in> kind ` set (n_stack n)"

text \<open>The handler that returns to the main program ends its suspension.\<close>

definition run_top :: "life_cfg \<Rightarrow> rat \<Rightarrow> tid \<Rightarrow> nest \<Rightarrow> nest" where
  "run_top cfg now t n =
     (case n_stack n of
        [] \<Rightarrow> n
      | f # fs \<Rightarrow>
          (let (gs, s) = frame_step cfg now t f (n_life n)
           in \<lparr>n_life = (if gs @ fs = [] then wake s else s), n_stack = gs @ fs\<rparr>))"

definition push_frame :: "frame \<Rightarrow> nest \<Rightarrow> nest" where
  "push_frame f n = n\<lparr>n_stack := f # n_stack n\<rparr>"

definition nlife :: "(life \<Rightarrow> life) \<Rightarrow> nest \<Rightarrow> nest" where
  "nlife f n = n\<lparr>n_life := f (n_life n)\<rparr>"

text \<open>The main program, when no handler runs: the test of the loop and the call at its end.\<close>

definition main_test :: "nest \<Rightarrow> nest" where
  "main_test n =
     (if stop (n_life n) then push_frame (S_enter By_main) (nlife (\<lambda>s. s\<lparr>phase := M_stopping\<rparr>) n)
      else nlife (\<lambda>s. s\<lparr>phase := M_about\<rparr>) n)"

inductive nstep :: "life_cfg \<Rightarrow> nest \<Rightarrow> nest \<Rightarrow> bool" for cfg where
  N_ready: "child (n_life n) t = Starting \<Longrightarrow> nstep cfg n (nlife (thread_ready t) n)"
| N_go: "child (n_life n) t = Ready \<Longrightarrow> start (n_life n) \<Longrightarrow> nstep cfg n (nlife (set_child t Running) n)"
| N_interrupt: "alive (child (n_life n) t) \<Longrightarrow> interrupt_pending (n_life n) t \<Longrightarrow>
    nstep cfg n (nlife (interrupt_thread t) n)"
| N_dies: "alive (child (n_life n) t) \<Longrightarrow> nstep cfg n (nlife (child_dies t) n)"
| N_sigchld: "phase (n_life n) \<noteq> M_exited \<Longrightarrow> sigchld_pending (n_life n) \<Longrightarrow> \<not> on_stack K_chld n \<Longrightarrow>
    nstep cfg n (push_frame C_wait (nlife (\<lambda>s. s\<lparr>sigchld_pending := False\<rparr>) n))"
| N_tick: "phase (n_life n) \<noteq> M_exited \<Longrightarrow> timer (n_life n) \<Longrightarrow> \<not> on_stack K_alrm n \<Longrightarrow>
    nstep cfg n (push_frame I_enter n)"
| N_sigint: "phase (n_life n) \<noteq> M_exited \<Longrightarrow> \<not> on_stack (K_stop By_int) n \<Longrightarrow>
    nstep cfg n (push_frame (S_enter By_int) n)"
| N_frame: "phase (n_life n) \<noteq> M_exited \<Longrightarrow> n_stack n \<noteq> [] \<Longrightarrow> nstep cfg n (run_top cfg now t n)"
| N_start: "n_stack n = [] \<Longrightarrow> phase (n_life n) = M_ready_wait \<Longrightarrow> ready (n_life n) Ping \<Longrightarrow> ready (n_life n) Pong \<Longrightarrow>
    nstep cfg n (nlife (monitor_start cfg now) n)"
| N_test: "n_stack n = [] \<Longrightarrow> phase (n_life n) = M_test \<Longrightarrow> nstep cfg n (main_test n)"
| N_suspend: "n_stack n = [] \<Longrightarrow> phase (n_life n) = M_about \<Longrightarrow>
    nstep cfg n (nlife (\<lambda>s. s\<lparr>phase := M_suspended\<rparr>) n)"

inductive nreach :: "life_cfg \<Rightarrow> nest \<Rightarrow> nest \<Rightarrow> bool" for cfg n0 where
  NR_init: "nreach cfg n0 n0"
| NR_step: "nreach cfg n0 n \<Longrightarrow> nstep cfg n n' \<Longrightarrow> nreach cfg n0 n'"

lemma nlife_simps [simp]:
  "n_life (nlife f n) = f (n_life n)" "n_stack (nlife f n) = n_stack n"
  "n_life (push_frame fr n) = n_life n" "n_stack (push_frame fr n) = fr # n_stack n"
  by (simp_all add: nlife_def push_frame_def)

lemma nreach_trans: "nreach cfg b c \<Longrightarrow> nreach cfg a b \<Longrightarrow> nreach cfg a c"
  by (induction rule: nreach.induct) (auto intro: nreach.intros)

definition nest_init :: "life \<Rightarrow> nest" where
  "nest_init s = \<lparr>n_life = s, n_stack = []\<rparr>"

section \<open>The shape of the stack\<close>

fun shape :: "frame list \<Rightarrow> bool" where
  "shape [] = True"
| "shape (f # fs) \<longleftrightarrow> kind f \<notin> kind ` set fs \<and> (kind f = K_stop By_tick \<longrightarrow> I_called \<in> set fs)
     \<and> (kind f = K_stop By_main \<longrightarrow> fs = []) \<and> shape fs"

lemma frame_kinds:
  assumes "frame_step cfg now t f s = (gs, s')"
  shows "gs = [] \<or> (\<exists>g. gs = [g] \<and> kind g = kind f) \<or> f = I_check \<and> gs = [S_enter By_tick, I_called]"
  using assms by (cases f) (auto simp: frame_step_def Let_def split: prod.splits if_splits)

lemma shape_tick: "shape fs \<Longrightarrow> K_stop By_tick \<in> kind ` set fs \<Longrightarrow> I_called \<in> set fs"
  by (induction fs) auto

lemma shape_step:
  assumes "shape (f # fs)" "frame_step cfg now t f s = (gs, s')"
  shows "shape (gs @ fs)"
  using frame_kinds [OF assms(2)]
proof (elim disjE exE conjE)
  assume g: "f = I_check" "gs = [S_enter By_tick, I_called]"
  then have "K_alrm \<notin> kind ` set fs" using assms(1) by simp
  then have "I_called \<notin> set fs" by force
  then show ?thesis using assms(1) g shape_tick by auto
qed (use assms(1) in auto)

lemma kind_cases: "k = K_chld \<or> k = K_alrm \<or> k = K_stop By_int \<or> k = K_stop By_tick \<or> k = K_stop By_main"
  by (cases k) (auto, metis caller.exhaust)

lemma shape_depth:
  assumes "shape fs"
  shows "length fs \<le> 5"
proof -
  have "distinct (map kind fs)" using assms by (induction fs) auto
  then have "length fs = card (kind ` set fs)" by (metis distinct_card length_map set_map)
  also have "\<dots> \<le> card {K_chld, K_alrm, K_stop By_int, K_stop By_tick, K_stop By_main}"
    using kind_cases by (intro card_mono) auto
  finally show ?thesis by simp
qed

lemma run_topE:
  assumes "n_stack n \<noteq> []"
  obtains f fs gs s' where "n_stack n = f # fs" "frame_step cfg now t f (n_life n) = (gs, s')"
    "run_top cfg now t n = \<lparr>n_life = (if gs @ fs = [] then wake s' else s'), n_stack = gs @ fs\<rparr>"
proof -
  obtain f fs where f: "n_stack n = f # fs" using assms by (cases "n_stack n") auto
  obtain gs s' where g: "frame_step cfg now t f (n_life n) = (gs, s')" by fastforce
  show ?thesis by (rule that [OF f g]) (simp add: run_top_def f g)
qed

lemma nstep_shape: "nstep cfg n n' \<Longrightarrow> shape (n_stack n) \<Longrightarrow> shape (n_stack n')"
proof (induction rule: nstep.induct)
  case (N_frame n now t)
  obtain f fs gs s' where e: "n_stack n = f # fs" "frame_step cfg now t f (n_life n) = (gs, s')"
    "n_stack (run_top cfg now t n) = gs @ fs"
    by (rule run_topE [OF N_frame(2), of cfg now t]) auto
  show ?case using shape_step [OF _ e(2), of fs] N_frame(3) e(1,3) by simp
qed (simp_all add: nlife_def push_frame_def on_stack_def main_test_def)

section \<open>Invariant\<close>

text \<open>The processes and the start barrier, which do not depend on what runs in the monitor.\<close>

definition base_ok :: "life \<Rightarrow> bool" where
  "base_ok s \<longleftrightarrow>
     (\<forall>t. child s t \<noteq> Absent \<longrightarrow> 0 < proc s t) \<and> (\<forall>t. child s t = Absent \<longrightarrow> proc s t = 0)
     \<and> (proc s Ping = proc s Pong \<longrightarrow> proc s Ping = 0)
     \<and> (\<forall>t. pid s t = 0 \<or> pid s t = -1 \<or> pid s t = proc s t)
     \<and> (start s \<longrightarrow> (\<forall>t. ready s t)) \<and> (\<forall>t. child s t = Running \<longrightarrow> start s) \<and> (\<forall>t. ready s t \<longrightarrow> pid s t \<noteq> 0)"

lemma base_frame:
  "child s' = child s \<Longrightarrow> proc s' = proc s \<Longrightarrow> pid s' = pid s \<Longrightarrow> start s' = start s \<Longrightarrow> ready s' = ready s
    \<Longrightarrow> base_ok s \<Longrightarrow> base_ok s'"
  by (simp add: base_ok_def)

lemma base_thread_ready:
  assumes "base_ok s" "child s t = Starting"
  shows "base_ok (thread_ready t s)"
proof -
  have p: "0 < proc s t" using assms by (simp add: base_ok_def)
  then show ?thesis using assms unfolding base_ok_def thread_ready_frame all_tid by (cases t) auto
qed

lemma base_set_child:
  assumes "base_ok s" "child s t \<noteq> Absent" "x \<noteq> Absent" "x = Running \<longrightarrow> start s"
  shows "base_ok (set_child t x s)"
  using assms unfolding base_ok_def by (auto simp: set_child_fields set_child_more) (auto simp: set_child_def)

lemma base_mark: "base_ok s \<Longrightarrow> base_ok (set_pid t (-1) s)"
  by (simp add: base_ok_def set_pid_def pid_def)

lemma base_start:
  assumes "base_ok s" "ready s Ping" "ready s Pong"
  shows "base_ok (monitor_start cfg now s)"
  using assms unfolding base_ok_def all_tid by (auto simp: monitor_start_frame)

lemma base_child_dies: "base_ok s \<Longrightarrow> alive (child s t) \<Longrightarrow> base_ok (child_dies t s)"
  by (rule base_frame [OF _ _ _ _ _ base_set_child [of s t Zombie]])
    (auto simp: child_dies_def pid_def fun_eq_iff)

lemma base_interrupt:
  assumes "base_ok s" "alive (child s t)"
  shows "base_ok (interrupt_thread t s)"
proof -
  let ?s = "s\<lparr>interrupt_pending := (interrupt_pending s)(t := False)\<rparr>"
  have "base_ok ?s" by (rule base_frame [OF _ _ _ _ _ assms(1)]) (simp_all add: pid_def fun_eq_iff)
  then show ?thesis using base_child_dies [of ?s t] assms(2) by (simp add: interrupt_thread_def Let_def)
qed

lemma base_wait4: "base_ok s \<Longrightarrow> base_ok (wait4_nohang p s)"
  by (auto simp: wait4_nohang_def intro!: base_set_child)

lemma base_waitpid: "base_ok s \<Longrightarrow> base_ok (snd (waitpid_any t s))"
  by (auto simp: waitpid_any_def Let_def split: tid.splits intro!: base_set_child)

text \<open>What the statements leave alone.\<close>

lemma kill_frame:
  "child (snd (send_sig kill_child p g s)) = child s" "proc (snd (send_sig kill_child p g s)) = proc s"
  "pid (snd (send_sig kill_child p g s)) = pid s" "start (snd (send_sig kill_child p g s)) = start s"
  "ready (snd (send_sig kill_child p g s)) = ready s" "phase (snd (send_sig kill_child p g s)) = phase s"
  "stop (snd (send_sig kill_child p g s)) = stop s" "timer (snd (send_sig kill_child p g s)) = timer s"
  "final_stats (snd (send_sig kill_child p g s)) = final_stats s"
  "visited (snd (send_sig kill_child p g s)) = visited s"
  by (simp_all add: send_sig_def kill_child_def pid_def fun_eq_iff)

lemma wait_frame:
  "proc (wait4_nohang p s) = proc s" "pid (wait4_nohang p s) = pid s" "phase (wait4_nohang p s) = phase s"
  "stop (wait4_nohang p s) = stop s" "timer (wait4_nohang p s) = timer s" "start (wait4_nohang p s) = start s"
  "final_stats (wait4_nohang p s) = final_stats s" "ready (wait4_nohang p s) = ready s" "visited (wait4_nohang p s) = visited s"
  by (simp_all add: wait4_nohang_def set_child_def pid_def fun_eq_iff)

lemma waitpid_frame:
  assumes "waitpid_any t s = (p, s')"
  shows "proc s' = proc s" "pid s' = pid s" "phase s' = phase s" "stop s' = stop s" "timer s' = timer s"
    "start s' = start s" "final_stats s' = final_stats s" "ready s' = ready s"
  using assms by (auto simp: waitpid_any_def Let_def set_child_def pid_def fun_eq_iff split: if_splits)

lemma pid_updates:
  "pid (stop_timer s) = pid s" "pid (stop_finish e s) = pid s" "pid (s\<lparr>in_interrupt := b\<rparr>) = pid s"
  "pid (s\<lparr>last_stats_time := r\<rparr>) = pid s" "pid (s\<lparr>visited := b\<rparr>) = pid s" "pid (s\<lparr>stop := b\<rparr>) = pid s"
  "child (stop_timer s) = child s" "child (stop_finish e s) = child s" "proc (stop_timer s) = proc s"
  "proc (stop_finish e s) = proc s"
  by (simp_all add: stop_timer_def stop_finish_def pid_def fun_eq_iff)

lemma frame_base:
  assumes "base_ok s" "frame_step cfg now t f s = (gs, s')"
  shows "base_ok s'"
proof (cases f)
  case C_wait
  then have "s' = snd (waitpid_any t s)" using assms(2) by (simp add: frame_step_def Let_def split: prod.splits)
  then show ?thesis using base_waitpid [OF assms(1)] by simp
next
  case (C_set u)
  then show ?thesis using base_mark [OF assms(1)] assms(2) by (auto simp: frame_step_def)
next
  case (I_wait0 r)
  then show ?thesis using base_wait4 [OF assms(1)] assms(2) by (auto simp: frame_step_def)
next
  case (I_wait1 r)
  then show ?thesis using base_wait4 [OF assms(1)] assms(2) by (auto simp: frame_step_def)
next
  case (S_kill0 b)
  then show ?thesis using assms by (auto simp: frame_step_def kill_frame intro: base_frame)
next
  case (S_kill1 b)
  then show ?thesis using assms by (auto simp: frame_step_def kill_frame intro: base_frame)
qed (use assms in \<open>auto simp: frame_step_def base_ok_def stop_timer_def stop_finish_def pid_def split: if_splits\<close>)

lemma nstep_base: "nstep cfg n n' \<Longrightarrow> base_ok (n_life n) \<Longrightarrow> base_ok (n_life n')"
proof (induction rule: nstep.induct)
  case (N_frame n now t)
  obtain f fs gs s' where e: "frame_step cfg now t f (n_life n) = (gs, s')"
    "n_life (run_top cfg now t n) = (if gs @ fs = [] then wake s' else s')"
    by (rule run_topE [OF N_frame(2), of cfg now t]) auto
  have "base_ok s'" by (rule frame_base [OF N_frame(3) e(1)])
  then show ?case by (auto simp: e(2) wake_def base_ok_def pid_def)
next
  case (N_start n now)
  then show ?case by (simp add: nlife_def base_start)
next
  case (N_test n)
  then show ?case by (simp add: main_test_def nlife_def push_frame_def base_ok_def pid_def)
qed (auto simp: nlife_def push_frame_def base_thread_ready base_interrupt base_child_dies base_set_child
    intro: base_frame simp: pid_def fun_eq_iff)

text \<open>The monitor: what a stop handler has done by the statement it has come to.\<close>

fun timer_off :: "frame \<Rightarrow> bool" where
  "timer_off (S_flag b) = True" | "timer_off (S_kill0 b) = True" | "timer_off (S_kill1 b) = True"
| "timer_off (S_wait b) = True" | "timer_off f = False"

fun flag_set :: "frame \<Rightarrow> bool" where
  "flag_set (S_kill0 b) = True" | "flag_set (S_kill1 b) = True" | "flag_set (S_wait b) = True" | "flag_set f = False"

definition exit_ok :: "life_cfg \<Rightarrow> life \<Rightarrow> bool" where
  "exit_ok cfg s \<longleftrightarrow>
     (phase s = M_exited \<longrightarrow> pid s Ping = -1 \<and> pid s Pong = -1 \<and> stop s \<and> \<not> timer s
        \<and> final_stats s = (\<not> lc_cleanup_exits cfg))
     \<and> (phase s \<noteq> M_exited \<longrightarrow> \<not> final_stats s)"

definition mon_ok :: "life_cfg \<Rightarrow> life \<Rightarrow> frame list \<Rightarrow> bool" where
  "mon_ok cfg s fs \<longleftrightarrow> exit_ok cfg s \<and> (\<forall>f \<in> set fs. (timer_off f \<longrightarrow> \<not> timer s) \<and> (flag_set f \<longrightarrow> stop s))"

lemma mon_frame:
  "phase s' = phase s \<Longrightarrow> stop s' = stop s \<Longrightarrow> timer s' = timer s \<Longrightarrow> final_stats s' = final_stats s
    \<Longrightarrow> (\<And>t. pid s t = -1 \<Longrightarrow> pid s' t = -1) \<Longrightarrow> mon_ok cfg s fs \<Longrightarrow> mon_ok cfg s' fs"
  by (auto simp: mon_ok_def exit_ok_def)

lemma frame_monotone:
  assumes "frame_step cfg now t f s = (gs, s')" "phase s \<noteq> M_exited"
  shows "timer s' \<longrightarrow> timer s" "stop s \<longrightarrow> stop s'" "\<forall>g \<in> set gs. timer_off g \<longrightarrow> timer_off f \<or> \<not> timer s'"
    "\<forall>g \<in> set gs. flag_set g \<longrightarrow> flag_set f \<or> stop s'"
    "phase s' = phase s \<and> final_stats s' = final_stats s
     \<or> phase s' = M_exited \<and> timer_off f \<and> flag_set f \<and> timer s' = timer s \<and> stop s' = stop s
        \<and> pid s' Ping = -1 \<and> pid s' Pong = -1 \<and> final_stats s' = (\<not> lc_cleanup_exits cfg)"
  using assms waitpid_frame [of t s]
  by (cases f; auto simp: frame_step_def kill_frame wait_frame stop_timer_def stop_finish_def set_pid_def pid_def Let_def
      split: prod.splits if_splits)+

lemma mon_top:
  assumes "mon_ok cfg s (f # fs)" "frame_step cfg now t f s = (gs, s')" "phase s \<noteq> M_exited"
  shows "mon_ok cfg s' (gs @ fs)"
proof -
  note m = frame_monotone [OF assms(2,3)]
  have o: "timer_off g \<longrightarrow> \<not> timer s" "flag_set g \<longrightarrow> stop s" if "g = f \<or> g \<in> set fs" for g
    using assms(1) that by (auto simp: mon_ok_def)
  have "(timer_off g \<longrightarrow> \<not> timer s') \<and> (flag_set g \<longrightarrow> stop s')" if "g \<in> set (gs @ fs)" for g
    using that m(1-4) o by auto
  moreover have "exit_ok cfg s'" using m(5) o [of f] assms(1,3) by (auto simp: exit_ok_def mon_ok_def)
  ultimately show ?thesis by (auto simp: mon_ok_def)
qed

lemma nstep_mon: "nstep cfg n n' \<Longrightarrow> mon_ok cfg (n_life n) (n_stack n) \<Longrightarrow> mon_ok cfg (n_life n') (n_stack n')"
proof (induction rule: nstep.induct)
  case (N_ready n t)
  show ?case using N_ready(2) unfolding nlife_simps
    by (rule mon_frame [rotated 5]) (auto simp: thread_ready_frame)
next
  case (N_go n t)
  show ?case using N_go(3) unfolding nlife_simps
    by (rule mon_frame [rotated 5]) (simp_all add: set_child_def pid_def)
next
  case (N_interrupt n t)
  show ?case using N_interrupt(3) unfolding nlife_simps
    by (rule mon_frame [rotated 5]) (simp_all add: interrupt_thread_def child_dies_def set_child_def pid_def Let_def)
next
  case (N_dies n t)
  show ?case using N_dies(2) unfolding nlife_simps
    by (rule mon_frame [rotated 5]) (simp_all add: child_dies_def set_child_def pid_def)
next
  case (N_frame n now t)
  obtain f fs gs s' where e: "n_stack n = f # fs" "frame_step cfg now t f (n_life n) = (gs, s')"
    "run_top cfg now t n = \<lparr>n_life = (if gs @ fs = [] then wake s' else s'), n_stack = gs @ fs\<rparr>"
    by (rule run_topE [OF N_frame(2)])
  have m: "mon_ok cfg s' (gs @ fs)" by (rule mon_top [OF _ e(2) N_frame(1)]) (use N_frame(3) e(1) in simp)
  then show ?case by (auto simp: e(3) wake_def mon_ok_def exit_ok_def pid_def)
next
  case (N_start n now)
  then show ?case
    by (simp add: nlife_def mon_ok_def exit_ok_def) (simp add: monitor_start_frame monitor_start_def setup_monitor_timer_def)
next
  case (N_test n)
  then show ?case by (simp add: main_test_def nlife_def push_frame_def mon_ok_def exit_ok_def)
qed (auto simp: nlife_def push_frame_def mon_ok_def exit_ok_def pid_def)

definition nest_ok :: "life_cfg \<Rightarrow> nest \<Rightarrow> bool" where
  "nest_ok cfg n \<longleftrightarrow> base_ok (n_life n) \<and> shape (n_stack n) \<and> mon_ok cfg (n_life n) (n_stack n)"

lemma nreach_ok: "nreach cfg n n' \<Longrightarrow> nest_ok cfg n \<Longrightarrow> nest_ok cfg n'"
  by (induction rule: nreach.induct) (auto simp: nest_ok_def dest: nstep_base nstep_shape nstep_mon)

lemma nest_init_ok:
  assumes "life_ok cfg s" "phase s = M_ready_wait"
  shows "nest_ok cfg (nest_init s)"
proof -
  have "base_ok s" using assms(1) unfolding life_ok_def procs_ok_def barrier_ok_def base_ok_def all_tid by auto
  then show ?thesis using assms by (simp add: nest_ok_def nest_init_def mon_ok_def exit_ok_def life_ok_def monitor_ok_def)
qed

text \<open>With forked children: what the child handler is about to record has been waited for.\<close>

fun waited_for :: "life \<Rightarrow> frame \<Rightarrow> bool" where
  "waited_for s (C_got p) \<longleftrightarrow> p = 0 \<or> (\<exists>t. p = proc s t \<and> child s t = Reaped)"
| "waited_for s (C_set t) \<longleftrightarrow> child s t = Reaped"
| "waited_for s f \<longleftrightarrow> True"

definition all_known :: "nest \<Rightarrow> bool" where
  "all_known n \<longleftrightarrow> known (n_life n) \<and> (\<forall>f \<in> set (n_stack n). waited_for (n_life n) f)"

lemma waited_mono:
  "waited_for s f \<Longrightarrow> proc s' = proc s \<Longrightarrow> (\<And>t. child s t = Reaped \<Longrightarrow> child s' t = Reaped) \<Longrightarrow> waited_for s' f"
  by (cases f) auto

lemma all_known_mono:
  assumes "all_known n" "n_stack n' = n_stack n" "known (n_life n')" "proc (n_life n') = proc (n_life n)"
    "\<And>t. child (n_life n) t = Reaped \<Longrightarrow> child (n_life n') t = Reaped"
  shows "all_known n'"
  using assms(1-3) waited_mono [OF _ assms(4,5)] by (auto simp: all_known_def)

lemma waitpid_known:
  assumes "known s" "base_ok s" "waitpid_any t s = (p, s')"
  shows "known s'" "p = -1 \<or> p = 0 \<or> (\<exists>u. p = proc s' u \<and> child s' u = Reaped)"
    "child s u = Reaped \<Longrightarrow> child s' u = Reaped"
  using assms by (auto simp: waitpid_any_def known_def set_child_fields Let_def split: if_splits tid.splits)

lemma got_known:
  assumes "known s" "base_ok s" "waited_for s (C_got p)" "p = pid s t"
  shows "child s t = Reaped"
proof -
  have "p \<noteq> 0" using assms(1,4) by (simp add: known_def)
  then obtain u where u: "p = proc s u" "child s u = Reaped" using assms(3) by auto
  show ?thesis
  proof (cases "pid s t = -1")
    case True
    then show ?thesis using assms(1) by (simp add: known_def)
  next
    case False
    then have "proc s t = proc s u" using assms(1,2,4) u(1) unfolding known_def base_ok_def by metis
    moreover have "proc s u \<noteq> 0" using u(1) \<open>p \<noteq> 0\<close> by simp
    ultimately have "t = u" using assms(2) unfolding base_ok_def by (cases t; cases u) auto
    then show ?thesis using u(2) by simp
  qed
qed

lemma frame_known:
  assumes "known s" "base_ok s" "frame_step cfg now t f s = (gs, s')" "\<forall>g \<in> set (f # fs). waited_for s g"
  shows "known s' \<and> (\<forall>g \<in> set (gs @ fs). waited_for s' g)"
proof -
  have w: "waited_for s f" "\<forall>g \<in> set fs. waited_for s g" using assms(4) by simp_all
  have keep: "known s' \<and> (\<forall>g \<in> set (gs @ fs). waited_for s' g)"
    if "known s'" "proc s' = proc s" "\<And>u. child s u = Reaped \<Longrightarrow> child s' u = Reaped" "\<forall>g \<in> set gs. waited_for s' g"
    using that w(2) waited_mono [OF _ that(2,3)] by auto
  have same: "known s' \<and> (\<forall>g \<in> set (gs @ fs). waited_for s' g)"
    if "child s' = child s" "pid s' = pid s" "proc s' = proc s" "\<forall>g \<in> set gs. waited_for s' g"
    using keep [OF _ that(3) _ that(4)] assms(1) that(1,2) by (simp add: known_def)
  have w4: "child (wait4_nohang p s) u = Reaped" if "child s u = Reaped" for p u
    using that by (cases u) (simp_all add: wait4_nohang_def set_child_def)
  show ?thesis
  proof (cases f)
    case C_wait
    obtain p where p: "waitpid_any t s = (p, s')" "gs = (if p = -1 then [] else [C_got p])"
      using assms(3) by (auto simp: C_wait frame_step_def Let_def split: prod.splits)
    note k = waitpid_known [OF assms(1,2) p(1)]
    show ?thesis by (rule keep [OF k(1) waitpid_frame(1) [OF p(1)] k(3)]) (use k(2) p(2) in auto)
  next
    case (C_got p)
    then have s: "s' = s" using assms(3) by (simp add: frame_step_def split: if_splits)
    have "child s u = Reaped" if "p = pid s u" for u
      using got_known [OF assms(1,2) _ that] w(1) C_got by simp
    then show ?thesis using assms(3) C_got s by (intro same) (auto simp: frame_step_def split: if_splits)
  next
    case (C_set u)
    then have "s' = set_pid u (-1) s" "gs = [C_flag]" "child s u = Reaped" using assms(3) w(1) by (auto simp: frame_step_def)
    then show ?thesis using assms(1) by (intro keep) (auto simp: known_def set_pid_def pid_def)
  next
    case (I_wait0 r)
    then show ?thesis using assms(1,3) w4 by (intro keep) (auto simp: frame_step_def wait_frame known_wait4)
  next
    case (I_wait1 r)
    then show ?thesis using assms(1,3) w4 by (intro keep) (auto simp: frame_step_def wait_frame known_wait4)
  qed (rule same; use assms(3) in \<open>auto simp: frame_step_def kill_frame pid_updates split: if_splits\<close>)+
qed

lemma nstep_known: "nstep cfg n n' \<Longrightarrow> base_ok (n_life n) \<Longrightarrow> all_known n \<Longrightarrow> all_known n'"
proof (induction rule: nstep.induct)
  case (N_ready n t)
  then have "alive (child (n_life n) t)" by simp
  with N_ready show ?case
    by (intro all_known_mono [OF N_ready(3)]) (auto simp: all_known_def known_child thread_ready_frame)
next
  case (N_go n t)
  then have "alive (child (n_life n) t)" by simp
  with N_go show ?case
    by (intro all_known_mono [OF N_go(4)]) (auto simp: all_known_def known_child set_child_fields)
next
  case (N_interrupt n t)
  have "known (interrupt_thread t (n_life n))"
    using known_child(4) [OF _ N_interrupt(1)] N_interrupt(4) by (simp add: all_known_def)
  then show ?case using N_interrupt(1)
    by (intro all_known_mono [OF N_interrupt(4)])
      (auto simp: interrupt_thread_def child_dies_def set_child_def Let_def)
next
  case (N_dies n t)
  then show ?case
    by (intro all_known_mono [OF N_dies(3)]) (auto simp: all_known_def known_child child_dies_frame)
next
  case (N_frame n now t)
  obtain f fs gs s' where e: "n_stack n = f # fs" "frame_step cfg now t f (n_life n) = (gs, s')"
    "run_top cfg now t n = \<lparr>n_life = (if gs @ fs = [] then wake s' else s'), n_stack = gs @ fs\<rparr>"
    by (rule run_topE [OF N_frame(2)])
  have "known (n_life n)" "\<forall>g \<in> set (f # fs). waited_for (n_life n) g"
    using N_frame(4) e(1) by (simp_all add: all_known_def)
  from frame_known [OF this(1) N_frame(3) e(2) this(2)]
  show ?case by (auto simp: e(3) all_known_def known_handlers(3))
next
  case (N_sigchld n)
  then show ?case by (auto simp: all_known_def known_def pid_def intro: waited_mono)
next
  case (N_start n now)
  then show ?case by (simp add: all_known_def known_def monitor_start_frame)
next
  case (N_test n)
  then show ?case by (simp add: all_known_def known_def main_test_def pid_phase)
next
  case (N_suspend n)
  then show ?case by (simp add: all_known_def known_def pid_phase)
qed (simp_all add: all_known_def)

lemma nreach_known:
  assumes "nreach cfg n n'" "nest_ok cfg n" "all_known n"
  shows "all_known n'"
  using assms
proof (induction rule: nreach.induct)
  case (NR_step c d)
  then have "base_ok (n_life c)" using nreach_ok by (auto simp: nest_ok_def)
  with NR_step show ?case using nstep_known by blast
qed

section \<open>A stop handler that interrupts the child handler\<close>

text \<open>A stop handler past its test with a child handler below it, which waits for it to return.\<close>

fun in_stop :: "frame \<Rightarrow> bool" where
  "in_stop (S_visit b) = True" | "in_stop (S_timer b) = True" | "in_stop (S_flag b) = True"
| "in_stop (S_kill0 b) = True" | "in_stop (S_kill1 b) = True" | "in_stop (S_wait b) = True" | "in_stop f = False"

fun stop_over_child :: "frame list \<Rightarrow> bool" where
  "stop_over_child [] = False"
| "stop_over_child (f # fs) \<longleftrightarrow> in_stop f \<and> K_chld \<in> kind ` set fs \<or> stop_over_child fs"

lemma stop_over_child_on: "stop_over_child fs \<Longrightarrow> K_chld \<in> kind ` set fs"
  by (induction fs) auto

lemma in_stop_stays:
  assumes "in_stop f" "frame_step cfg now t f s = (gs, s')"
  shows "\<exists>g. gs = [g] \<and> in_stop g"
  using assms by (cases f) (auto simp: frame_step_def)

lemma stop_over_child_push: "stop_over_child fs \<Longrightarrow> stop_over_child (gs @ fs)"
  by (induction gs) auto

lemma frame_ids:
  assumes "frame_step cfg now t f s = (gs, s')" "kind f \<noteq> K_chld"
  shows "pid s' = pid s"
  using assms by (cases f)
    (auto simp: frame_step_def kill_frame wait_frame pid_updates split: if_splits)

definition wedged :: "nest \<Rightarrow> bool" where
  "wedged n \<longleftrightarrow> stop_over_child (n_stack n) \<and> phase (n_life n) \<noteq> M_exited \<and> (\<exists>t. pid (n_life n) t \<noteq> -1)"

lemma wedged_top:
  assumes "shape (f # fs)" "stop_over_child (f # fs)" "frame_step cfg now t f s = (gs, s')" "phase s \<noteq> M_exited"
    "\<exists>t. pid s t \<noteq> -1"
  shows "stop_over_child (gs @ fs)" "phase s' \<noteq> M_exited" "pid s' = pid s"
proof -
  show "stop_over_child (gs @ fs)"
  proof (cases "stop_over_child fs")
    case True
    then show ?thesis by (rule stop_over_child_push)
  next
    case False
    then have "in_stop f" "K_chld \<in> kind ` set fs" using assms(2) by auto
    then show ?thesis using in_stop_stays [OF _ assms(3)] by auto
  qed
  have "K_chld \<in> kind ` set fs" using assms(2) stop_over_child_on by auto
  then have k: "kind f \<noteq> K_chld" using assms(1) by auto
  then show p: "pid s' = pid s" by (rule frame_ids [OF assms(3)])
  have "\<not> (pid s' Ping = -1 \<and> pid s' Pong = -1)" using assms(5) p by (metis tid.exhaust)
  then show "phase s' \<noteq> M_exited" using frame_monotone(5) [OF assms(3,4)] assms(4) by auto
qed

lemma nstep_wedged: "nstep cfg n n' \<Longrightarrow> nest_ok cfg n \<Longrightarrow> wedged n \<Longrightarrow> wedged n'"
proof (induction rule: nstep.induct)
  case (N_ready n t)
  then have "0 < proc (n_life n) t" by (simp add: nest_ok_def base_ok_def)
  with N_ready(3) show ?case by (auto simp: wedged_def thread_ready_frame)
next
  case (N_frame n now t)
  obtain f fs gs s' where e: "n_stack n = f # fs" "frame_step cfg now t f (n_life n) = (gs, s')"
    "run_top cfg now t n = \<lparr>n_life = (if gs @ fs = [] then wake s' else s'), n_stack = gs @ fs\<rparr>"
    by (rule run_topE [OF N_frame(2)])
  have h: "shape (f # fs)" "stop_over_child (f # fs)" "\<exists>t. pid (n_life n) t \<noteq> -1"
    using N_frame(3,4) e(1) by (simp_all add: nest_ok_def wedged_def)
  note w = wedged_top [OF h(1,2) e(2) N_frame(1) h(3)]
  have "gs @ fs \<noteq> []" using w(1) by auto
  then show ?case using w h(3) by (simp add: e(3) wedged_def)
qed (auto simp: wedged_def interrupt_thread_def child_dies_def set_child_def pid_def Let_def)

lemma nreach_wedged:
  assumes "nreach cfg n n'" "nest_ok cfg n" "wedged n"
  shows "wedged n'"
  using assms
proof (induction rule: nreach.induct)
  case (NR_step c d)
  then show ?case using nstep_wedged nreach_ok by blast
qed

section \<open>The coarse steps\<close>

text \<open>A handler of \<open>Threads\<close> is what its statements do one after the other, undisturbed.\<close>

lemma pid_pending: "pid (s\<lparr>sigchld_pending := b\<rparr>) = pid s"
  by (simp add: pid_def fun_eq_iff)

definition at_top :: "life \<Rightarrow> frame list \<Rightarrow> nest" where
  "at_top s fs = \<lparr>n_life = (if fs = [] then wake s else s), n_stack = fs\<rparr>"

lemma top_step:
  assumes "phase s \<noteq> M_exited" "frame_step cfg now t f s = (gs, s')"
  shows "nreach cfg (at_top s (f # fs)) (at_top s' (gs @ fs))"
proof -
  have "nstep cfg (at_top s (f # fs)) (run_top cfg now t (at_top s (f # fs)))"
    by (rule N_frame) (simp_all add: at_top_def assms(1))
  moreover have "run_top cfg now t (at_top s (f # fs)) = at_top s' (gs @ fs)"
    by (simp add: run_top_def at_top_def assms(2))
  ultimately show ?thesis using NR_step [OF NR_init] by fastforce
qed

lemmas top_steps = top_step [where gs = "[]", simplified] top_step [where gs = "[g]" for g, simplified]

lemma mark_run:
  assumes "phase s \<noteq> M_exited"
  shows "nreach cfg (at_top s (C_set t # fs)) (at_top (mark_dead t s) (C_wait # fs))"
proof -
  let ?a = "set_pid t (-1) s"
  let ?b = "?a\<lparr>stop := True\<rparr>"
  have p: "phase ?a = phase s" "phase ?b = phase s" by (simp_all add: set_pid_def)
  have 1: "nreach cfg (at_top s (C_set t # fs)) (at_top ?a (C_flag # fs))"
    by (rule top_steps(2)) (simp_all add: assms frame_step_def)
  have 2: "nreach cfg (at_top ?a (C_flag # fs)) (at_top ?b (C_timer # fs))"
    by (rule top_steps(2)) (simp_all add: assms p frame_step_def)
  have 3: "nreach cfg (at_top ?b (C_timer # fs)) (at_top (stop_timer ?b) (C_wait # fs))"
    by (rule top_steps(2)) (simp_all add: assms p frame_step_def)
  show ?thesis using nreach_trans [OF 3 nreach_trans [OF 2 1]] by (simp add: mark_dead_def)
qed

lemma reap_phase: "phase (reap_child t s) = phase s"
  by (simp add: reap_child_frames)

lemma reap_run:
  assumes "phase s \<noteq> M_exited" "base_ok s"
  shows "nreach cfg (at_top s (C_wait # fs)) (at_top (reap_child t s) (C_wait # fs))"
proof (cases "child s t = Zombie")
  case True
  let ?p = "proc s t" and ?s = "set_child t Reaped s"
  have pos: "0 < ?p" using assms(2) True by (simp add: base_ok_def)
  have ph: "phase ?s \<noteq> M_exited" using assms(1) by (simp add: set_child_def)
  have 1: "nreach cfg (at_top s (C_wait # fs)) (at_top ?s (C_got ?p # fs))"
    by (rule top_steps(2) [where t = t]) (use pos True in \<open>simp_all add: assms frame_step_def waitpid_any_def\<close>)
  have got: "nreach cfg (at_top ?s (C_got ?p # fs)) (at_top ?s (g # fs))"
    if "g = (if ?p = pid ?s Ping then C_set Ping else if ?p = pid ?s Pong then C_set Pong else C_wait)" for g
    by (rule top_steps(2)) (use pos in \<open>simp_all add: ph frame_step_def that\<close>)
  consider "?p = pid ?s Ping" | "?p \<noteq> pid ?s Ping" "?p = pid ?s Pong" | "?p \<noteq> pid ?s Ping" "?p \<noteq> pid ?s Pong" by blast
  then show ?thesis
  proof cases
    case 1
    then have "nreach cfg (at_top s (C_wait # fs)) (at_top (mark_dead Ping ?s) (C_wait # fs))"
      using nreach_trans [OF mark_run [OF ph] nreach_trans [OF got \<open>nreach cfg (at_top s (C_wait # fs)) _\<close>], of Ping] by simp
    then show ?thesis using True 1 by (simp add: reap_child_def Let_def)
  next
    case 2
    then have "nreach cfg (at_top s (C_wait # fs)) (at_top (mark_dead Pong ?s) (C_wait # fs))"
      using nreach_trans [OF mark_run [OF ph] nreach_trans [OF got \<open>nreach cfg (at_top s (C_wait # fs)) _\<close>], of Pong] by simp
    then show ?thesis using True 2 by (simp add: reap_child_def Let_def)
  next
    case 3
    then have "nreach cfg (at_top s (C_wait # fs)) (at_top ?s (C_wait # fs))"
      using nreach_trans [OF got \<open>nreach cfg (at_top s (C_wait # fs)) _\<close>, of C_wait] by simp
    then show ?thesis using True 3 by (simp add: reap_child_def Let_def)
  qed
qed (simp add: reap_child_def NR_init)

lemma none_run:
  assumes "phase s \<noteq> M_exited" "\<forall>t. child s t \<noteq> Zombie"
  shows "nreach cfg (at_top s (C_wait # fs)) (at_top (wait_none s) fs)"
proof (cases "alive (child s Ping) \<or> alive (child s Pong)")
  case False
  then show ?thesis using assms
    by (simp add: wait_none_def) (intro top_steps(1) [where t = Ping], simp_all add: frame_step_def waitpid_any_def)
next
  case True
  have zero: "nreach cfg (at_top u (C_wait # fs)) (at_top u (C_got 0 # fs))"
    if "phase u \<noteq> M_exited" "child u = child s" for u
    by (rule top_steps(2) [where t = Ping])
      (use that True assms(2) in \<open>simp_all add: frame_step_def waitpid_any_def disj_commute\<close>)
  have got: "nreach cfg (at_top u (C_got 0 # fs)) (at_top u (C_set v # fs))"
    if "phase u \<noteq> M_exited" "v = (if 0 = pid u Ping then Ping else Pong)" "pid u v = 0" for u v
    by (rule top_steps(2)) (use that in \<open>auto simp: frame_step_def split: if_splits\<close>)
  have ends: "nreach cfg (at_top u (C_got 0 # fs)) (at_top u fs)"
    if "phase u \<noteq> M_exited" "pid u Ping \<noteq> 0" "pid u Pong \<noteq> 0" for u
    by (rule top_steps(1)) (use that in \<open>simp_all add: frame_step_def\<close>)
  have mark: "nreach cfg (at_top u (C_wait # fs)) (at_top (mark_dead v u) (C_wait # fs))"
    if "phase u \<noteq> M_exited" "child u = child s" "v = (if 0 = pid u Ping then Ping else Pong)" "pid u v = 0" for u v
    by (rule nreach_trans [OF mark_run [OF that(1)] nreach_trans [OF got [OF that(1,3,4)] zero [OF that(1,2)]]])
  have pop: "nreach cfg (at_top u (C_wait # fs)) (at_top u fs)"
    if "phase u \<noteq> M_exited" "child u = child s" "pid u Ping \<noteq> 0" "pid u Pong \<noteq> 0" for u
    by (rule nreach_trans [OF ends [OF that(1,3,4)] zero [OF that(1,2)]])
  let ?a = "if 0 = pid s Ping then mark_dead Ping s else s"
  let ?b = "if 0 = pid ?a Pong then mark_dead Pong ?a else ?a"
  have a: "phase ?a = phase s" "child ?a = child s" "pid ?a Ping \<noteq> 0" by (simp_all add: mark_dead_fields)
  have b: "phase ?b = phase s" "child ?b = child s" "pid ?b Ping \<noteq> 0" "pid ?b Pong \<noteq> 0" using a by (simp_all add: mark_dead_fields)
  have 1: "nreach cfg (at_top s (C_wait # fs)) (at_top ?a (C_wait # fs))"
    using mark [OF assms(1) refl, of Ping] by (simp add: NR_init)
  have 2: "nreach cfg (at_top ?a (C_wait # fs)) (at_top ?b (C_wait # fs))"
    using mark [of ?a Pong] assms(1) a by (simp add: NR_init split del: if_split) (simp add: NR_init)
  have 3: "nreach cfg (at_top ?b (C_wait # fs)) (at_top ?b fs)" by (rule pop) (use assms(1) b in simp_all)
  have "wait_none s = ?b" using True by (simp add: wait_none_def Let_def)
  then show ?thesis using nreach_trans [OF 3 nreach_trans [OF 2 1]] by simp
qed

lemma reap_base: "base_ok s \<Longrightarrow> base_ok (reap_child t s)"
proof -
  assume b: "base_ok s"
  have m: "base_ok (mark_dead u v)" if "base_ok v" for u v
    using that by (simp add: base_ok_def mark_dead_fields)
  show ?thesis using b by (auto simp: reap_child_def Let_def intro!: m base_set_child)
qed

lemma child_run:
  assumes "phase s \<noteq> M_exited" "base_ok s"
  shows "nreach cfg (at_top (s\<lparr>sigchld_pending := False\<rparr>) (C_wait # fs)) (at_top (child_handler s) fs)"
proof -
  let ?s = "s\<lparr>sigchld_pending := False\<rparr>"
  let ?a = "reap_child Ping ?s"
  let ?b = "reap_child Pong ?a"
  have s: "phase ?s \<noteq> M_exited" "base_ok ?s"
    using assms by (simp_all add: base_ok_def pid_pending)
  have a: "phase ?a \<noteq> M_exited" "base_ok ?a" using s by (simp_all add: reap_phase reap_base)
  have b: "phase ?b \<noteq> M_exited" using a by (simp add: reap_phase)
  have z: "\<forall>t. child ?b t \<noteq> Zombie" by (simp add: all_tid reap_child_child)
  have p: "\<not> sigchld_pending ?b"
    by (simp add: reap_child_def set_child_fields mark_dead_fields Let_def)
  have "child_handler s = wait_none ?b"
  proof -
    have "child_handler ?s = wait_none ?b \<lparr>sigchld_pending := False\<rparr>" by (simp add: child_handler_def)
    also have "\<dots> = wait_none ?b" using p wait_none_fields(8) [of ?b] by simp
    finally show ?thesis by (simp add: child_handler_pending)
  qed
  then show ?thesis
    using nreach_trans [OF none_run [OF b z] nreach_trans [OF reap_run [OF a] reap_run [OF s]]] by simp
qed

text \<open>The stop handler up to its wait.\<close>

definition stop_work :: "life \<Rightarrow> life" where
  "stop_work s = stop_threads (stop_timer (s\<lparr>visited := True\<rparr>))"

lemma stop_work_phase: "phase (stop_work s) = phase s"
  by (simp add: stop_work_def stop_timer_def)

lemma stop_run:
  assumes "phase s \<noteq> M_exited" "\<not> visited s"
  shows "nreach cfg (at_top s (S_enter c # fs)) (at_top (stop_work s) (S_wait c # fs))"
proof -
  let ?a = "s\<lparr>visited := True\<rparr>"
  let ?b = "stop_timer ?a"
  let ?c = "?b\<lparr>stop := True\<rparr>"
  let ?d = "snd (send_sig kill_child (pid ?c Ping) 60 ?c)"
  let ?e = "snd (send_sig kill_child (pid ?d Pong) 61 ?d)"
  have p: "phase ?a \<noteq> M_exited" "phase ?b \<noteq> M_exited" "phase ?c \<noteq> M_exited" "phase ?d \<noteq> M_exited"
    using assms(1) by (simp_all add: stop_timer_def kill_frame)
  have 1: "nreach cfg (at_top s (S_enter c # fs)) (at_top s (S_visit c # fs))"
    by (rule top_steps(2)) (use assms in \<open>simp_all add: frame_step_def\<close>)
  have 2: "nreach cfg (at_top s (S_visit c # fs)) (at_top ?a (S_timer c # fs))"
    by (rule top_steps(2)) (use assms in \<open>simp_all add: frame_step_def\<close>)
  have 3: "nreach cfg (at_top ?a (S_timer c # fs)) (at_top ?b (S_flag c # fs))"
    by (rule top_steps(2)) (use p in \<open>simp_all add: frame_step_def\<close>)
  have 4: "nreach cfg (at_top ?b (S_flag c # fs)) (at_top ?c (S_kill0 c # fs))"
    by (rule top_steps(2)) (use p in \<open>simp_all add: frame_step_def\<close>)
  have 5: "nreach cfg (at_top ?c (S_kill0 c # fs)) (at_top ?d (S_kill1 c # fs))"
    by (rule top_steps(2)) (use p in \<open>simp_all add: frame_step_def\<close>)
  have 6: "nreach cfg (at_top ?d (S_kill1 c # fs)) (at_top ?e (S_wait c # fs))"
    by (rule top_steps(2)) (use p in \<open>simp_all add: frame_step_def\<close>)
  have "stop_work s = ?e" by (simp add: stop_work_def stop_threads_def Let_def)
  then show ?thesis
    using nreach_trans [OF 6 nreach_trans [OF 5 nreach_trans [OF 4 nreach_trans [OF 3 nreach_trans [OF 2 1]]]]] by simp
qed

lemma stop_work_handler: "\<not> visited s \<Longrightarrow> stop_handler s = (stop_work s)\<lparr>phase := M_stopping\<rparr>"
  by (simp add: stop_handler_def stop_work_def)

text \<open>The timer handler, in which the run time is over or not.\<close>

definition tick_stats :: "rat \<Rightarrow> life \<Rightarrow> life" where
  "tick_stats now s =
     (let s1 = wait4_nohang (pid s Pong) (wait4_nohang (pid s Ping) s)
      in if stop s1 then s1 else s1\<lparr>last_stats_time := now\<rparr>)"

lemma wait4_in_interrupt: "wait4_nohang p (s\<lparr>in_interrupt := b\<rparr>) = (wait4_nohang p s)\<lparr>in_interrupt := b\<rparr>"
proof -
  have c: "set_child t x (s\<lparr>in_interrupt := b\<rparr>) = (set_child t x s)\<lparr>in_interrupt := b\<rparr>" for t x
    by (simp add: set_child_def)
  have i: "(if x then y else z)\<lparr>in_interrupt := b\<rparr> = (if x then y\<lparr>in_interrupt := b\<rparr> else z\<lparr>in_interrupt := b\<rparr>)"
    for x and y z :: life by simp
  have f: "child (s\<lparr>in_interrupt := b\<rparr>) = child s" "proc (s\<lparr>in_interrupt := b\<rparr>) = proc s" by simp_all
  show ?thesis unfolding wait4_nohang_def i c f ..
qed

lemma tick_stats_frame:
  "phase (tick_stats now s) = phase s" "visited (tick_stats now s) = visited s"
  "in_interrupt (tick_stats now s) = in_interrupt s"
  "tick_stats now (s\<lparr>in_interrupt := b\<rparr>) = (tick_stats now s)\<lparr>in_interrupt := b\<rparr>"
  by (simp_all add: tick_stats_def Let_def wait_frame wait4_in_interrupt pid_updates)
    (simp_all add: wait4_nohang_def set_child_def)

lemma tick_stats_run:
  assumes "phase s \<noteq> M_exited"
  shows "nreach cfg (at_top s (I_time # fs)) (at_top (tick_stats now s) (I_check # fs))"
proof -
  let ?a = "wait4_nohang (pid s Ping) s"
  let ?b = "wait4_nohang (pid s Pong) ?a"
  have p: "phase ?a \<noteq> M_exited" "phase ?b \<noteq> M_exited" using assms by (simp_all add: wait_frame)
  have 1: "nreach cfg (at_top s (I_time # fs)) (at_top s (I_wait0 now # fs))"
    by (rule top_steps(2) [where now = now]) (use assms in \<open>simp_all add: frame_step_def\<close>)
  have 2: "nreach cfg (at_top s (I_wait0 now # fs)) (at_top ?a (I_wait1 now # fs))"
    by (rule top_steps(2)) (use assms in \<open>simp_all add: frame_step_def\<close>)
  have 3: "nreach cfg (at_top ?a (I_wait1 now # fs)) (at_top ?b (I_stop now # fs))"
    by (rule top_steps(2)) (use p in \<open>simp_all add: frame_step_def wait_frame\<close>)
  note r = nreach_trans [OF 3 nreach_trans [OF 2 1]]
  show ?thesis
  proof (cases "stop ?b")
    case True
    have 4: "nreach cfg (at_top ?b (I_stop now # fs)) (at_top ?b (I_check # fs))"
      by (rule top_steps(2)) (use p True in \<open>simp_all add: frame_step_def\<close>)
    show ?thesis using nreach_trans [OF 4 r] True by (simp add: tick_stats_def)
  next
    case False
    have 4: "nreach cfg (at_top ?b (I_stop now # fs)) (at_top ?b (I_store now # fs))"
      by (rule top_steps(2)) (use p False in \<open>simp_all add: frame_step_def\<close>)
    have 5: "nreach cfg (at_top ?b (I_store now # fs)) (at_top (?b\<lparr>last_stats_time := now\<rparr>) (I_check # fs))"
      by (rule top_steps(2)) (use p in \<open>simp_all add: frame_step_def\<close>)
    show ?thesis using nreach_trans [OF 5 nreach_trans [OF 4 r]] False by (simp add: tick_stats_def)
  qed
qed

lemma tick_run:
  assumes "phase s \<noteq> M_exited" "\<not> visited s"
  shows "nreach cfg (at_top s (I_enter # fs)) (at_top (monitor_interrupt now s) fs) \<and> phase (monitor_interrupt now s) = phase s
    \<or> (\<exists>u. nreach cfg (at_top s (I_enter # fs)) (at_top u (S_wait By_tick # I_called # fs)) \<and> phase u = phase s
        \<and> monitor_interrupt now s = u\<lparr>phase := M_stopping\<rparr>)"
proof (cases "in_interrupt s")
  case True
  have "nreach cfg (at_top s (I_enter # fs)) (at_top s fs)"
    by (rule top_steps(1)) (use assms True in \<open>simp_all add: frame_step_def\<close>)
  then show ?thesis using True by (simp add: monitor_interrupt_def)
next
  case False
  let ?a = "s\<lparr>in_interrupt := True\<rparr>"
  let ?u = "tick_stats now s"
  let ?b = "?u\<lparr>in_interrupt := True\<rparr>"
  have p: "phase ?a \<noteq> M_exited" "phase ?b \<noteq> M_exited" using assms by (simp_all add: tick_stats_frame)
  have 1: "nreach cfg (at_top s (I_enter # fs)) (at_top s (I_count # fs))"
    by (rule top_steps(2)) (use assms False in \<open>simp_all add: frame_step_def\<close>)
  have 2: "nreach cfg (at_top s (I_count # fs)) (at_top ?a (I_time # fs))"
    by (rule top_steps(2)) (use assms in \<open>simp_all add: frame_step_def\<close>)
  have 3: "nreach cfg (at_top ?a (I_time # fs)) (at_top ?b (I_check # fs))"
    using tick_stats_run [OF p(1), of cfg fs now] by (simp add: tick_stats_frame)
  note r = nreach_trans [OF 3 nreach_trans [OF 2 1]]
  have m: "monitor_interrupt now s = (if timeout_time ?u \<le> last_stats_time ?u then stop_handler ?b else ?u)"
    using False by (simp add: monitor_interrupt_def tick_stats_def Let_def)
  show ?thesis
  proof (cases "timeout_time ?u \<le> last_stats_time ?u")
    case True
    have 4: "nreach cfg (at_top ?b (I_check # fs)) (at_top ?b (S_enter By_tick # I_called # fs))"
      using top_step [OF p(2), of cfg 0 Ping I_check "[S_enter By_tick, I_called]" ?b fs] True
      by (simp add: frame_step_def)
    have v: "\<not> visited ?b" using assms(2) by (simp add: tick_stats_frame)
    have "nreach cfg (at_top s (I_enter # fs)) (at_top (stop_work ?b) (S_wait By_tick # I_called # fs))"
      by (rule nreach_trans [OF stop_run [OF p(2) v] nreach_trans [OF 4 r]])
    moreover have "phase (stop_work ?b) = phase s" by (simp add: stop_work_phase tick_stats_frame)
    ultimately show ?thesis using m True stop_work_handler [OF v] by auto
  next
    case n: False
    have 4: "nreach cfg (at_top ?b (I_check # fs)) (at_top ?b (I_leave # fs))"
      by (rule top_steps(2)) (use p n in \<open>simp_all add: frame_step_def\<close>)
    have u: "?b\<lparr>in_interrupt := False\<rparr> = ?u" using False tick_stats_frame(3) [of now s] by simp
    have 5: "nreach cfg (at_top ?b (I_leave # fs)) (at_top ?u fs)"
      by (rule top_steps(1)) (use p u in \<open>simp_all add: frame_step_def\<close>)
    show ?thesis using nreach_trans [OF 5 nreach_trans [OF 4 r]] m n by (simp add: tick_stats_frame)
  qed
qed

text \<open>
  The states that match: no handler runs, or the stop handler waits and the main program is wherever it
  was when it was entered.
\<close>

definition matches :: "life \<Rightarrow> nest \<Rightarrow> bool" where
  "matches s n \<longleftrightarrow>
     (if phase s = M_stopping
      then (\<exists>p. p \<noteq> M_exited \<and> n_life n = s\<lparr>phase := p\<rparr>)
           \<and> ((\<exists>c. n_stack n = [S_wait c]) \<or> n_stack n = [S_wait By_tick, I_called])
      else n_life n = s \<and> (phase s = M_exited \<or> n_stack n = []))"

lemma phase_commutes:
  "(thread_ready t s)\<lparr>phase := p\<rparr> = thread_ready t (s\<lparr>phase := p\<rparr>)"
  "(set_child t x s)\<lparr>phase := p\<rparr> = set_child t x (s\<lparr>phase := p\<rparr>)"
  "(interrupt_thread t s)\<lparr>phase := p\<rparr> = interrupt_thread t (s\<lparr>phase := p\<rparr>)"
  "(child_dies t s)\<lparr>phase := p\<rparr> = child_dies t (s\<lparr>phase := p\<rparr>)"
  by (simp_all add: thread_ready_def set_child_def set_pid_def set_tid_def interrupt_thread_def child_dies_def pid_def Let_def)

lemma mark_commutes: "(mark_dead t s)\<lparr>phase := p\<rparr> = mark_dead t (s\<lparr>phase := p\<rparr>)"
  by (simp add: mark_dead_def stop_timer_def set_pid_def)

lemma reap_commutes: "(reap_child t s)\<lparr>phase := p\<rparr> = reap_child t (s\<lparr>phase := p\<rparr>)"
  by (simp add: reap_child_def mark_commutes phase_commutes pid_phase set_child_fields Let_def)

lemma none_commutes: "(wait_none s)\<lparr>phase := p\<rparr> = wait_none (s\<lparr>phase := p\<rparr>)"
  by (simp add: wait_none_def mark_commutes pid_phase mark_dead_fields Let_def)

lemma child_handler_commutes: "(child_handler s)\<lparr>phase := p\<rparr> = child_handler (s\<lparr>phase := p\<rparr>)"
proof -
  have "(wait_none u \<lparr>sigchld_pending := False\<rparr>)\<lparr>phase := p\<rparr> = (wait_none (u\<lparr>phase := p\<rparr>))\<lparr>sigchld_pending := False\<rparr>" for u
    by (simp add: none_commutes [symmetric])
  then show ?thesis by (simp add: child_handler_def reap_commutes)
qed

lemma matches_child:
  assumes m: "matches s n" and c: "\<And>p. (g s)\<lparr>phase := p\<rparr> = g (s\<lparr>phase := p\<rparr>)" and ph: "phase (g s) = phase s"
    and st: "nstep cfg n (nlife g n)"
  shows "\<exists>n'. nreach cfg n n' \<and> matches (g s) n'"
proof -
  have "matches (g s) (nlife g n)" using m ph by (auto simp: matches_def c [symmetric] split: if_splits)
  then show ?thesis using NR_step [OF NR_init st] by blast
qed

lemma matches_life: "matches s n \<Longrightarrow> child (n_life n) = child s \<and> start (n_life n) = start s
    \<and> interrupt_pending (n_life n) = interrupt_pending s \<and> sigchld_pending (n_life n) = sigchld_pending s
    \<and> pid (n_life n) = pid s \<and> (phase s \<noteq> M_exited \<longrightarrow> phase (n_life n) \<noteq> M_exited)"
  by (auto simp: matches_def pid_phase split: if_splits)

lemma matches_top: "matches s n \<Longrightarrow> phase s \<noteq> M_exited \<Longrightarrow> phase s \<noteq> M_suspended \<or> n_stack n = []"
  by (auto simp: matches_def split: if_splits)

lemma pushed: "n = \<lparr>n_life = s, n_stack = fs\<rparr> \<Longrightarrow> push_frame f (nlife g n) = at_top (g s) (f # fs)"
  "n = \<lparr>n_life = s, n_stack = fs\<rparr> \<Longrightarrow> push_frame f n = at_top s (f # fs)"
  by (simp_all add: push_frame_def nlife_def at_top_def)

lemma matches_sigchld:
  assumes m: "matches s n" and b: "base_ok s" and k: "phase s \<noteq> M_exited" "sigchld_pending s"
  shows "\<exists>n'. nreach cfg n n' \<and> matches (wake (child_handler s)) n'"
proof -
  obtain u fs where n: "n = \<lparr>n_life = u, n_stack = fs\<rparr>" by (cases n) auto
  have l: "phase u \<noteq> M_exited" "sigchld_pending u" using matches_life [OF m] k n by simp_all
  have o: "\<not> on_stack K_chld n" using m k(1) n by (auto simp: matches_def on_stack_def split: if_splits)
  have ub: "base_ok u" using m b n by (auto simp: matches_def base_ok_def pid_phase split: if_splits)
  have "nstep cfg n (at_top (u\<lparr>sigchld_pending := False\<rparr>) (C_wait # fs))"
    using N_sigchld [of n cfg] o l n pushed(1) [OF n, of C_wait "\<lambda>s. s\<lparr>sigchld_pending := False\<rparr>"] by simp
  then have r: "nreach cfg n (at_top (child_handler u) fs)"
    using nreach_trans [OF child_run [OF l(1) ub] NR_step [OF NR_init]] by blast
  have "matches (wake (child_handler s)) (at_top (child_handler u) fs)"
  proof (cases "phase s = M_stopping")
    case True
    then obtain p where p: "p \<noteq> M_exited" "u = s\<lparr>phase := p\<rparr>" "fs \<noteq> []"
        "(\<exists>c. fs = [S_wait c]) \<or> fs = [S_wait By_tick, I_called]"
      using m n by (auto simp: matches_def)
    have "wake (child_handler s) = child_handler s" using True by (simp add: wake_def child_handler_frame)
    then show ?thesis using p True
      by (auto simp: matches_def at_top_def child_handler_frame child_handler_commutes [symmetric])
  next
    case False
    then have "u = s" "fs = []" using m n k(1) by (auto simp: matches_def split: if_splits)
    then show ?thesis using False by (simp add: matches_def at_top_def child_handler_frame)
  qed
  then show ?thesis using r by blast
qed

lemma matches_stop:
  assumes "nreach cfg n (at_top u (S_wait c # fs))" "c = By_tick \<and> fs = [I_called] \<or> fs = []" "phase u \<noteq> M_exited"
  shows "\<exists>n'. nreach cfg n n' \<and> matches (u\<lparr>phase := M_stopping\<rparr>) n'"
proof -
  have "matches (u\<lparr>phase := M_stopping\<rparr>) (at_top u (S_wait c # fs))"
    using assms(2,3) by (auto simp: matches_def at_top_def intro!: exI [of _ "phase u"])
  then show ?thesis using assms(1) by blast
qed

lemma matches_tick:
  assumes m: "matches s n" and v: "\<not> visited s" "phase s \<noteq> M_stopping" and k: "phase s \<noteq> M_exited" "timer s"
  shows "\<exists>n'. nreach cfg n n' \<and> matches (wake (monitor_interrupt now s)) n'"
proof -
  have n: "n = \<lparr>n_life = s, n_stack = []\<rparr>" using m v(2) k(1) by (cases n) (simp add: matches_def)
  have "nstep cfg n (at_top s [I_enter])"
    using N_tick [of n cfg] k pushed(2) [OF n, of I_enter] by (simp add: n on_stack_def)
  then have 1: "nreach cfg n (at_top s [I_enter])" by (rule NR_step [OF NR_init])
  from tick_run [OF k(1) v(1), of cfg "[]" now] show ?thesis
  proof (elim disjE exE conjE)
    assume r: "nreach cfg (at_top s [I_enter]) (at_top (monitor_interrupt now s) [])"
      and p: "phase (monitor_interrupt now s) = phase s"
    have "matches (wake (monitor_interrupt now s)) (at_top (monitor_interrupt now s) [])"
      using p v(2) by (simp add: matches_def at_top_def)
    then show ?thesis using nreach_trans [OF r 1] by blast
  next
    fix u
    assume r: "nreach cfg (at_top s [I_enter]) (at_top u [S_wait By_tick, I_called])" "phase u = phase s"
      and u: "monitor_interrupt now s = u\<lparr>phase := M_stopping\<rparr>"
    have "wake (monitor_interrupt now s) = u\<lparr>phase := M_stopping\<rparr>" by (simp add: u wake_def)
    then show ?thesis using matches_stop [OF nreach_trans [OF r(1) 1]] r(2) k(1) by simp
  qed
qed

lemma matches_sigint:
  assumes m: "matches s n" and v: "visited s \<longleftrightarrow> phase s = M_stopping \<or> phase s = M_exited" and k: "phase s \<noteq> M_exited"
  shows "\<exists>n'. nreach cfg n n' \<and> matches (wake (stop_handler s)) n'"
proof (cases "phase s = M_stopping")
  case True
  then have "wake (stop_handler s) = s" using v by (simp add: stop_handler_def wake_def)
  then show ?thesis using m NR_init by metis
next
  case False
  then have n: "n = \<lparr>n_life = s, n_stack = []\<rparr>" and nv: "\<not> visited s" using m v k by (cases n, simp_all add: matches_def)
  have "nstep cfg n (at_top s [S_enter By_int])"
    using N_sigint [of n cfg] k pushed(2) [OF n, of "S_enter By_int"] by (simp add: n on_stack_def)
  then have r: "nreach cfg n (at_top (stop_work s) [S_wait By_int])"
    using nreach_trans [OF stop_run [OF k nv] NR_step [OF NR_init]] by blast
  have "wake (stop_handler s) = (stop_work s)\<lparr>phase := M_stopping\<rparr>" by (simp add: stop_work_handler [OF nv] wake_def)
  then show ?thesis using matches_stop [OF r] k by (simp add: stop_work_phase)
qed

lemma matches_test:
  assumes m: "matches s n" and v: "\<not> visited s" and k: "phase s = M_test"
  shows "\<exists>n'. nreach cfg n n' \<and> matches (monitor_test s) n'"
proof -
  have n: "n = \<lparr>n_life = s, n_stack = []\<rparr>" using m k by (cases n) (simp add: matches_def)
  have t: "nstep cfg n (main_test n)" using k n by (intro N_test) simp_all
  show ?thesis
  proof (cases "stop s")
    case True
    let ?u = "s\<lparr>phase := M_stopping\<rparr>"
    have "main_test n = at_top ?u [S_enter By_main]" using True by (simp add: n main_test_def at_top_def push_frame_def nlife_def)
    then have a: "nreach cfg n (at_top ?u [S_enter By_main])" using NR_step [OF NR_init t] by simp
    have r: "nreach cfg n (at_top (stop_work ?u) [S_wait By_main])"
      by (rule nreach_trans [OF stop_run a]) (use v in simp_all)
    have "monitor_test s = (stop_work ?u)\<lparr>phase := M_stopping\<rparr>"
      using True v by (simp add: monitor_test_def stop_handler_def stop_work_def stop_threads_def stop_timer_def
          send_sig_def kill_child_def pid_def Let_def)
    then show ?thesis using matches_stop [OF r] by (simp add: stop_work_phase)
  next
    case False
    then have "matches (monitor_test s) (main_test n)" by (simp add: n main_test_def monitor_test_def matches_def nlife_def)
    then show ?thesis using NR_step [OF NR_init t] by blast
  qed
qed

lemma matches_finish:
  assumes m: "matches s n" and k: "phase s = M_stopping" "pid s Ping = -1" "pid s Pong = -1"
  shows "\<exists>n'. nreach cfg n n' \<and> matches (stop_finish (lc_cleanup_exits cfg) s) n'"
proof -
  obtain p c fs where p: "p \<noteq> M_exited" "n_life n = s\<lparr>phase := p\<rparr>" "n_stack n = S_wait c # fs"
    using m k(1) by (auto simp: matches_def)
  have "run_top cfg 0 Ping n = \<lparr>n_life = stop_finish (lc_cleanup_exits cfg) s, n_stack = S_wait c # fs\<rparr>"
    using k p(2,3) by (simp add: run_top_def frame_step_def pid_phase stop_finish_def)
  moreover have "nstep cfg n (run_top cfg 0 Ping n)" using p by (intro N_frame) simp_all
  ultimately have "nreach cfg n \<lparr>n_life = stop_finish (lc_cleanup_exits cfg) s, n_stack = S_wait c # fs\<rparr>"
    using NR_step [OF NR_init] by metis
  then show ?thesis by (intro exI conjI) (assumption, simp add: matches_def stop_finish_def)
qed

lemma matches_step:
  assumes l: "lstep cfg s s'" and m: "matches s n" and ok: "life_ok cfg s"
  shows "\<exists>n'. nreach cfg n n' \<and> matches s' n'"
proof -
  note f = matches_life [OF m]
  have v: "visited s \<longleftrightarrow> phase s = M_stopping \<or> phase s = M_exited" "visited s \<longrightarrow> \<not> timer s"
    using ok by (simp_all add: life_ok_def monitor_ok_def)
  have b: "base_ok s" using ok unfolding life_ok_def procs_ok_def barrier_ok_def base_ok_def all_tid by auto
  from l show ?thesis
  proof (cases rule: lstep.cases)
    case (L_ready t)
    then show ?thesis using matches_child [OF m phase_commutes(1) _ N_ready [of n t cfg]] f by (simp add: thread_ready_frame)
  next
    case (L_go t)
    then show ?thesis using matches_child [OF m phase_commutes(2) _ N_go [of n t cfg]] f by (simp add: set_child_fields)
  next
    case (L_interrupt t)
    then show ?thesis using matches_child [OF m phase_commutes(3) _ N_interrupt [of n t cfg]] f
      by (simp add: interrupt_thread_def child_dies_def set_child_def Let_def)
  next
    case (L_dies t)
    then show ?thesis using matches_child [OF m phase_commutes(4) _ N_dies [of n t cfg]] f by (simp add: child_dies_frame)
  next
    case L_sigchld
    then show ?thesis using matches_sigchld [OF m b] by simp
  next
    case (L_tick now)
    then have "\<not> visited s" using v(2) by blast
    then show ?thesis using matches_tick [OF m] v(1) L_tick by blast
  next
    case L_sigint
    then show ?thesis using matches_sigint [OF m v(1)] by simp
  next
    case (L_start now)
    have n: "n_life n = s" "n_stack n = []" using m L_start(2) by (simp_all add: matches_def)
    have "nstep cfg n (nlife (monitor_start cfg now) n)" by (rule N_start) (use L_start n in simp_all)
    moreover have "matches s' (nlife (monitor_start cfg now) n)" by (simp add: matches_def L_start(1) n monitor_start_frame)
    ultimately show ?thesis using NR_step [OF NR_init] by blast
  next
    case L_test
    then show ?thesis using matches_test [OF m] v(1) by simp
  next
    case L_suspend
    have n: "n_life n = s" "n_stack n = []" using m L_suspend(2) by (simp_all add: matches_def)
    have "nstep cfg n (nlife (\<lambda>s. s\<lparr>phase := M_suspended\<rparr>) n)" by (rule N_suspend) (use L_suspend n in simp_all)
    moreover have "matches s' (nlife (\<lambda>s. s\<lparr>phase := M_suspended\<rparr>) n)" by (simp add: matches_def L_suspend(1) n)
    ultimately show ?thesis using NR_step [OF NR_init] by blast
  next
    case L_finish
    then show ?thesis using matches_finish [OF m] by simp
  qed
qed

lemma coarse_runs_nest:
  assumes "reach cfg s0 s" "life_ok cfg s0" "phase s0 = M_ready_wait"
  shows "\<exists>n. nreach cfg (nest_init s0) n \<and> matches s n"
  using assms
proof (induction rule: reach.induct)
  case R_init
  then show ?case by (intro exI [of _ "nest_init s0"]) (simp add: NR_init matches_def nest_init_def)
next
  case (R_step s s')
  then obtain n where n: "nreach cfg (nest_init s0) n" "matches s n" by blast
  have "life_ok cfg s" using R_step.hyps(1) R_step.prems(1) by (rule reach_ok)
  from matches_step [OF R_step.hyps(2) n(2) this] show ?case using n(1) nreach_trans by blast
qed

lemma matches_phase:
  "matches s n \<Longrightarrow> n_life n = s\<lparr>phase := phase (n_life n)\<rparr> \<and> (phase (n_life n) = M_exited \<longleftrightarrow> phase s = M_exited)"
  by (auto simp: matches_def split: if_splits)

lemma example_exits:
  "\<exists>s0 s. start_threads Thread_fork example_env = Inr s0 \<and> reach example_cfg s0 s \<and> phase s = M_exited"
proof -
  obtain s0 where s: "start_threads Thread_fork example_env = Inr s0" using example_fork by blast
  have e: "fst (se_forks example_env) \<noteq> snd (se_forks example_env)" by (simp add: example_env_def)
  note f = fork_start [OF s e]
  have v: "\<not> visited s0" "phase s0 = M_ready_wait" using fresh_flags [OF s] by simp_all
  have c: "\<forall>t. child s0 t = Starting" using fork_ok(2) [OF f(3) e] by blast
  let ?s = "wake (stop_handler s0)"
  have st: "lstep example_cfg s0 ?s" using v by (intro L_sigint) simp
  have "life_ok example_cfg ?s" "told ?s" using lstep_ok [OF st f(1)] lstep_told [OF st f(2,1)] by simp_all
  moreover have "phase ?s = M_stopping" "child ?s = child s0" using v by (simp_all add: wake_def stop_handler_def stop_timer_def)
  ultimately obtain s' where "reach example_cfg ?s s'" "phase s' = M_exited"
    using stop_reaches_exit [of example_cfg ?s] c by auto
  then show ?thesis using s reach_trans R_step [OF R_init st] by blast
qed

section \<open>A stop handler that waits\<close>

text \<open>What the stop handler has done for the children by the statement it has come to.\<close>

fun stop_did :: "life \<Rightarrow> frame \<Rightarrow> bool" where
  "stop_did s (S_timer b) \<longleftrightarrow> visited s" | "stop_did s (S_flag b) \<longleftrightarrow> visited s" | "stop_did s (S_kill0 b) \<longleftrightarrow> visited s"
| "stop_did s (S_kill1 b) \<longleftrightarrow> visited s \<and> (alive (child s Ping) \<longrightarrow> interrupt_pending s Ping)"
| "stop_did s (S_wait b) \<longleftrightarrow> visited s \<and> (\<forall>t. alive (child s t) \<longrightarrow> interrupt_pending s t)"
| "stop_did s f \<longleftrightarrow> True"

text \<open>A child handler that still comes to a call of \<^verbatim>\<open>waitpid\<close>.\<close>

definition chld_busy :: "frame \<Rightarrow> bool" where
  "chld_busy f \<longleftrightarrow> kind f = K_chld \<and> f \<noteq> C_got 0"

definition chld_due :: "nest \<Rightarrow> bool" where
  "chld_due n \<longleftrightarrow> ((\<exists>t. child (n_life n) t = Zombie) \<longrightarrow> sigchld_pending (n_life n) \<or> (\<exists>f \<in> set (n_stack n). chld_busy f))"

definition fork_nest :: "life_cfg \<Rightarrow> nest \<Rightarrow> bool" where
  "fork_nest cfg n \<longleftrightarrow> nest_ok cfg n \<and> all_known n \<and> (\<forall>t. child (n_life n) t \<noteq> Absent) \<and> chld_due n
     \<and> (\<forall>f \<in> set (n_stack n). stop_did (n_life n) f)"

lemma stop_did_mono:
  assumes "stop_did s f" "flag_set f \<longrightarrow> stop s" "visited s \<longrightarrow> visited s'"
    and "\<And>t. stop s \<Longrightarrow> alive (child s' t) \<Longrightarrow> alive (child s t) \<and> (interrupt_pending s t \<longrightarrow> interrupt_pending s' t)"
  shows "stop_did s' f"
  using assms by (cases f) auto

lemma frame_children:
  assumes "frame_step cfg now t f s = (gs, s')"
  shows "visited s \<longrightarrow> visited s'" "alive (child s' u) \<longrightarrow> alive (child s u)" "interrupt_pending s u \<longrightarrow> interrupt_pending s' u"
    "child s' u = Zombie \<longrightarrow> child s u = Zombie" "sigchld_pending s' = sigchld_pending s" "child s' u = Absent \<longrightarrow> child s u = Absent"
proof -
  have w: "visited (wait4_nohang p s) = visited s" "alive (child (wait4_nohang p s) u) \<longrightarrow> alive (child s u)"
    "interrupt_pending (wait4_nohang p s) = interrupt_pending s" "child (wait4_nohang p s) u = Zombie \<longrightarrow> child s u = Zombie"
    "sigchld_pending (wait4_nohang p s) = sigchld_pending s" "child (wait4_nohang p s) u = Absent \<longrightarrow> child s u = Absent" for p
    by (simp_all add: wait4_nohang_def set_child_fields)
  have k: "visited (snd (send_sig kill_child p g s)) = visited s" "child (snd (send_sig kill_child p g s)) = child s"
    "interrupt_pending s u \<longrightarrow> interrupt_pending (snd (send_sig kill_child p g s)) u"
    "sigchld_pending (snd (send_sig kill_child p g s)) = sigchld_pending s" for p g
    by (simp_all add: send_sig_def kill_child_def)
  have y: "visited (snd (waitpid_any t s)) = visited s" "alive (child (snd (waitpid_any t s)) u) \<longrightarrow> alive (child s u)"
    "interrupt_pending (snd (waitpid_any t s)) = interrupt_pending s"
    "child (snd (waitpid_any t s)) u = Zombie \<longrightarrow> child s u = Zombie"
    "sigchld_pending (snd (waitpid_any t s)) = sigchld_pending s"
    "child (snd (waitpid_any t s)) u = Absent \<longrightarrow> child s u = Absent"
    by (simp_all add: waitpid_any_def Let_def set_child_fields)
  have "(visited s \<longrightarrow> visited s') \<and> (alive (child s' u) \<longrightarrow> alive (child s u)) \<and> (interrupt_pending s u \<longrightarrow> interrupt_pending s' u)
    \<and> (child s' u = Zombie \<longrightarrow> child s u = Zombie) \<and> sigchld_pending s' = sigchld_pending s
    \<and> (child s' u = Absent \<longrightarrow> child s u = Absent)"
    using assms
  proof (cases f)
    case C_wait
    then have "s' = snd (waitpid_any t s)" using assms by (simp add: frame_step_def Let_def split: prod.splits)
    then show ?thesis using y by simp
  next
    case (I_wait0 r)
    then show ?thesis using assms w by (auto simp: frame_step_def)
  next
    case (I_wait1 r)
    then show ?thesis using assms w by (auto simp: frame_step_def)
  next
    case (S_kill0 b)
    then show ?thesis using assms k by (auto simp: frame_step_def)
  next
    case (S_kill1 b)
    then show ?thesis using assms k by (auto simp: frame_step_def)
  qed (use assms in \<open>auto simp: frame_step_def stop_timer_def set_pid_def stop_finish_def split: if_splits\<close>)
  then show "visited s \<longrightarrow> visited s'" "alive (child s' u) \<longrightarrow> alive (child s u)" "interrupt_pending s u \<longrightarrow> interrupt_pending s' u"
    "child s' u = Zombie \<longrightarrow> child s u = Zombie" "sigchld_pending s' = sigchld_pending s" "child s' u = Absent \<longrightarrow> child s u = Absent"
    by blast+
qed

lemma known_alive_pid:
  assumes "known s" "base_ok s" "alive (child s t)"
  shows "pid s t = proc s t" "0 < proc s t"
proof -
  have "child s t \<noteq> Absent" "pid s t \<noteq> -1" "pid s t \<noteq> 0" using assms(1,3) by (auto simp: known_def)
  then show "pid s t = proc s t" "0 < proc s t" using assms(2) unfolding base_ok_def by blast+
qed

lemma frame_did:
  assumes "frame_step cfg now t f s = (gs, s')" "known s" "base_ok s" "stop_did s f" "g \<in> set gs"
  shows "stop_did s' g"
proof (cases f)
  case (S_kill0 b)
  have "visited s" using assms(4) S_kill0 by simp
  moreover have "alive (child s Ping) \<Longrightarrow> interrupt_pending (snd (send_sig kill_child (pid s Ping) 60 s)) Ping"
    using known_alive_pid [OF assms(2,3), of Ping] by (simp add: send_sig_def kill_child_def)
  ultimately show ?thesis using assms(1,5) S_kill0 by (auto simp: frame_step_def kill_frame)
next
  case (S_kill1 b)
  let ?s = "snd (send_sig kill_child (pid s Pong) 61 s)"
  have "visited s" "alive (child s Ping) \<Longrightarrow> interrupt_pending s Ping" using assms(4) S_kill1 by simp_all
  moreover have "alive (child s Pong) \<Longrightarrow> interrupt_pending ?s Pong"
    using known_alive_pid [OF assms(2,3), of Pong] by (simp add: send_sig_def kill_child_def)
  moreover have "interrupt_pending s Ping \<Longrightarrow> interrupt_pending ?s Ping" by (simp add: send_sig_def kill_child_def)
  ultimately have "alive (child s u) \<Longrightarrow> interrupt_pending ?s u" for u by (cases u) auto
  then show ?thesis using assms(1,5) S_kill1 \<open>visited s\<close> by (auto simp: frame_step_def kill_frame)
qed (use assms in \<open>auto simp: frame_step_def stop_timer_def stop_finish_def waitpid_any_def Let_def split: if_splits prod.splits\<close>)

lemma frame_due:
  assumes "frame_step cfg now t f s = (gs, s')" "base_ok s" "chld_busy f" "\<not> (\<exists>g \<in> set gs. chld_busy g)"
  shows "child s' u \<noteq> Zombie"
proof (cases f)
  case C_wait
  have z: "u = t \<or> (case t of Ping \<Rightarrow> Pong | Pong \<Rightarrow> Ping) = u" by (cases t; cases u) simp_all
  have p: "child s v = Zombie \<Longrightarrow> 0 < proc s v" for v using assms(2) by (auto simp: base_ok_def)
  let ?v = "case t of Ping \<Rightarrow> Pong | Pong \<Rightarrow> Ping"
  have "\<not> child s t = Zombie"
  proof
    assume "child s t = Zombie"
    then show False using assms(1,4) p [of t] C_wait by (auto simp: frame_step_def waitpid_any_def chld_busy_def)
  qed
  moreover have "\<not> child s ?v = Zombie"
  proof
    assume "child s ?v = Zombie"
    then show False using assms(1,4) p [of ?v] C_wait calculation
      by (auto simp: frame_step_def waitpid_any_def chld_busy_def Let_def)
  qed
  ultimately show ?thesis using frame_children(4) [OF assms(1), of u] z by blast
qed (use assms in \<open>auto simp: frame_step_def chld_busy_def split: if_splits\<close>)

lemma nstep_absent: "nstep cfg n n' \<Longrightarrow> \<forall>t. child (n_life n) t \<noteq> Absent \<Longrightarrow> child (n_life n') u \<noteq> Absent"
proof (induction rule: nstep.induct)
  case (N_frame n now t)
  obtain f fs gs s' where e: "frame_step cfg now t f (n_life n) = (gs, s')"
    "n_life (run_top cfg now t n) = (if gs @ fs = [] then wake s' else s')"
    by (rule run_topE [OF N_frame(2), of cfg now t]) auto
  then show ?case using frame_children(6) [OF e(1), of u] N_frame(3) by (auto simp: wake_def)
next
  case (N_interrupt n t)
  then show ?case by (auto simp: interrupt_thread_def child_dies_def set_child_def Let_def)
qed (auto simp: thread_ready_frame set_child_fields child_dies_frame monitor_start_frame main_test_def)

lemma nstep_did:
  assumes "nstep cfg n n'" "nest_ok cfg n" "all_known n" "\<forall>f \<in> set (n_stack n). stop_did (n_life n) f"
  shows "\<forall>f \<in> set (n_stack n'). stop_did (n_life n') f"
proof -
  have fl: "flag_set f \<longrightarrow> stop (n_life n)" if "f \<in> set (n_stack n)" for f
    using assms(2) that by (auto simp: nest_ok_def mon_ok_def)
  have keep: "\<forall>f \<in> set (n_stack n). stop_did s f"
    if "visited (n_life n) \<longrightarrow> visited s"
      "\<And>t. stop (n_life n) \<Longrightarrow> alive (child s t) \<Longrightarrow>
        alive (child (n_life n) t) \<and> (interrupt_pending (n_life n) t \<longrightarrow> interrupt_pending s t)" for s
    using stop_did_mono [OF _ fl that] assms(4) by blast
  from assms(1) show ?thesis
  proof (cases rule: nstep.cases)
    case (N_ready t)
    have "\<forall>f \<in> set (n_stack n). stop_did (thread_ready t (n_life n)) f"
      by (rule keep) (use N_ready(2) in \<open>auto simp: thread_ready_frame split: if_splits\<close>)
    then show ?thesis by (simp add: N_ready(1))
  next
    case (N_go t)
    have "\<forall>f \<in> set (n_stack n). stop_did (set_child t Running (n_life n)) f"
      by (rule keep) (use N_go(2) in \<open>auto simp: set_child_fields split: if_splits\<close>)
    then show ?thesis by (simp add: N_go(1))
  next
    case (N_interrupt t)
    have "\<forall>f \<in> set (n_stack n). stop_did (interrupt_thread t (n_life n)) f"
      by (rule keep) (auto simp: interrupt_thread_def child_dies_def set_child_def Let_def split: if_splits)
    then show ?thesis by (simp add: N_interrupt(1))
  next
    case (N_dies t)
    have "\<forall>f \<in> set (n_stack n). stop_did (child_dies t (n_life n)) f"
      by (rule keep) (auto simp: child_dies_def set_child_def split: if_splits)
    then show ?thesis by (simp add: N_dies(1))
  next
    case N_sigchld
    have "\<forall>f \<in> set (n_stack n). stop_did ((n_life n)\<lparr>sigchld_pending := False\<rparr>) f" by (rule keep) simp_all
    then show ?thesis by (simp add: N_sigchld(1))
  next
    case (N_frame now t)
    obtain f fs gs s' where e: "n_stack n = f # fs" "frame_step cfg now t f (n_life n) = (gs, s')"
      "n' = \<lparr>n_life = (if gs @ fs = [] then wake s' else s'), n_stack = gs @ fs\<rparr>"
      using run_topE [OF N_frame(3), of cfg now t] N_frame(1) by metis
    note c = frame_children [OF e(2)]
    have "\<forall>g \<in> set (n_stack n). stop_did s' g" by (rule keep) (use c in blast)+
    moreover have "\<forall>g \<in> set gs. stop_did s' g"
      using frame_did [OF e(2)] assms(2-4) e(1) by (simp add: nest_ok_def all_known_def)
    ultimately show ?thesis using e(1) by (auto simp: e(3))
  qed (use assms(4) in \<open>simp_all add: main_test_def\<close>)
qed

lemma nstep_due:
  assumes "nstep cfg n n'" "base_ok (n_life n)" "chld_due n"
  shows "chld_due n'"
  using assms(1)
proof (cases rule: nstep.cases)
  case (N_ready t)
  then show ?thesis using assms(3) by (auto simp: chld_due_def thread_ready_frame split: if_splits)
next
  case (N_go t)
  then show ?thesis using assms(3) by (auto simp: chld_due_def set_child_fields split: if_splits)
next
  case (N_interrupt t)
  then show ?thesis using assms(3) by (auto simp: chld_due_def interrupt_thread_def child_dies_def set_child_def Let_def)
next
  case (N_dies t)
  then show ?thesis by (simp add: chld_due_def child_dies_def)
next
  case (N_frame now t)
  obtain f fs gs s' where e: "n_stack n = f # fs" "frame_step cfg now t f (n_life n) = (gs, s')"
    "n' = \<lparr>n_life = (if gs @ fs = [] then wake s' else s'), n_stack = gs @ fs\<rparr>"
    using run_topE [OF N_frame(3), of cfg now t] N_frame(1) by metis
  note c = frame_children [OF e(2)]
  have "sigchld_pending s' \<or> (\<exists>g \<in> set (gs @ fs). chld_busy g)" if z: "child s' u = Zombie" for u
  proof (cases "chld_busy f")
    case True
    then show ?thesis using frame_due [OF e(2) assms(2), of u] z by auto
  next
    case False
    then show ?thesis using assms(3) c(4) [of u] c(5) z e(1) by (auto simp: chld_due_def)
  qed
  then show ?thesis by (auto simp: e(3) chld_due_def wake_def)
next
  case (N_start now)
  then show ?thesis using assms(3) by (simp add: chld_due_def monitor_start_frame)
qed (use assms(3) in \<open>auto simp: chld_due_def chld_busy_def main_test_def\<close>)

lemma nstep_fork: "nstep cfg n n' \<Longrightarrow> fork_nest cfg n \<Longrightarrow> fork_nest cfg n'"
  unfolding fork_nest_def
  using nstep_absent nstep_did nstep_due nstep_known nreach_ok [OF NR_step [OF NR_init]]
  by (simp add: nest_ok_def)

lemma nreach_fork: "nreach cfg n n' \<Longrightarrow> fork_nest cfg n \<Longrightarrow> fork_nest cfg n'"
  by (induction rule: nreach.induct) (auto dest: nstep_fork)


lemma fork_nest_init:
  assumes "start_threads Thread_fork e = Inr s0" "fst (se_forks e) \<noteq> snd (se_forks e)"
  shows "fork_nest cfg (nest_init s0)"
proof -
  have "nest_ok cfg (nest_init s0)"
    by (rule nest_init_ok [OF fork_start(1) [OF assms]]) (simp add: fresh_flags(5) [OF assms(1)])
  moreover have "told s0" by (rule fork_start(2) [OF assms])
  moreover have "child s0 t = Starting" for t using fork_ok(2) [OF fork_start(3) [OF assms] assms(2)] by blast
  ultimately show ?thesis by (simp add: fork_nest_def told_def all_known_def nest_init_def chld_due_def)
qed

text \<open>
  A stop handler at its wait, with no child handler below it. Above it are a child handler, which brings it on,
  and a second stop handler, which returns at its test.
\<close>

fun above :: "frame \<Rightarrow> bool" where
  "above (S_enter b) \<longleftrightarrow> b = By_int"
| "above f \<longleftrightarrow> kind f = K_chld"

definition collected :: "life \<Rightarrow> frame list \<Rightarrow> bool" where
  "collected s us \<longleftrightarrow> (\<forall>t. child s t = Reaped \<longrightarrow> pid s t = -1 \<or> C_got (proc s t) \<in> set us \<or> C_set t \<in> set us)"

definition winding :: "life_cfg \<Rightarrow> frame list \<Rightarrow> caller \<Rightarrow> frame list \<Rightarrow> nest \<Rightarrow> bool" where
  "winding cfg us b ds n \<longleftrightarrow> fork_nest cfg n \<and> n_stack n = us @ S_wait b # ds \<and> K_chld \<notin> kind ` set ds
     \<and> (\<forall>f \<in> set us. above f) \<and> collected (n_life n) us"

definition unwind_effort :: "life \<Rightarrow> nat" where
  "unwind_effort s = (\<Sum>t\<leftarrow>[Ping, Pong]. case child s t of Absent \<Rightarrow> 0 | Starting \<Rightarrow> 11 | Ready \<Rightarrow> 10 | Running \<Rightarrow> 9 | Zombie \<Rightarrow> 5 | Reaped \<Rightarrow> 0)
     + 3 * of_bool (sigchld_pending s) + of_bool (phase s \<noteq> M_exited)"

fun frame_effort :: "frame \<Rightarrow> nat" where
  "frame_effort C_wait = 2" | "frame_effort (C_got p) = (if p = 0 then 1 else 6)" | "frame_effort (C_set t) = 5"
| "frame_effort C_flag = 4" | "frame_effort C_timer = 3" | "frame_effort f = 1"

definition nest_effort :: "frame list \<Rightarrow> life \<Rightarrow> nat" where
  "nest_effort us s = sum_list (map frame_effort us) + unwind_effort s"

lemma unwind_effort_bound: "unwind_effort s \<le> 26"
  by (simp add: unwind_effort_def of_bool_def split: child_state.split)

lemma windingD:
  assumes "winding cfg us b ds n"
  shows "nest_ok cfg n" "visited (n_life n)" "stop (n_life n)" "\<not> timer (n_life n)" "base_ok (n_life n)" "known (n_life n)"
    "\<And>t. alive (child (n_life n) t) \<Longrightarrow> interrupt_pending (n_life n) t" "n_stack n = us @ S_wait b # ds"
proof -
  show o: "nest_ok cfg n" and n: "n_stack n = us @ S_wait b # ds" using assms by (simp_all add: winding_def fork_nest_def)
  have w: "S_wait b \<in> set (n_stack n)" by (simp add: n)
  then have "stop_did (n_life n) (S_wait b)" using assms unfolding winding_def fork_nest_def by blast
  then show "visited (n_life n)" "\<And>t. alive (child (n_life n) t) \<Longrightarrow> interrupt_pending (n_life n) t" by simp_all
  show "stop (n_life n)" "\<not> timer (n_life n)" using o w by (force simp: nest_ok_def mon_ok_def)+
  show "base_ok (n_life n)" using o by (simp add: nest_ok_def)
  show "known (n_life n)" using assms by (simp add: winding_def fork_nest_def all_known_def)
qed

lemma winding_keep:
  assumes "winding cfg us b ds n" "nstep cfg n n'" "n_stack n' = vs @ S_wait b # ds" "\<forall>f \<in> set vs. above f"
    "collected (n_life n') vs"
  shows "winding cfg vs b ds n'"
  using assms nstep_fork by (simp add: winding_def)

lemma collected_mono:
  assumes "collected s us" "pid s' = pid s" "proc s' = proc s" "\<And>t. child s' t = Reaped \<Longrightarrow> child s t = Reaped" "set us \<subseteq> set vs"
  shows "collected s' vs"
  using assms unfolding collected_def by fastforce

text \<open>The child handler above the stop handler.\<close>

lemma waitpid_cases:
  assumes "waitpid_any t s = (p, s')"
  shows "(\<exists>u. child s u = Zombie \<and> p = proc s u \<and> s' = set_child u Reaped s) \<or> s' = s \<and> (p = 0 \<or> p = -1)"
proof -
  let ?u = "case t of Ping \<Rightarrow> Pong | Pong \<Rightarrow> Ping"
  consider "child s t = Zombie" | "child s t \<noteq> Zombie" "child s ?u = Zombie" | "child s t \<noteq> Zombie" "child s ?u \<noteq> Zombie" by blast
  then show ?thesis
  proof cases
    case 1
    then have "p = proc s t \<and> s' = set_child t Reaped s" using assms by (simp add: waitpid_any_def)
    with 1 show ?thesis by blast
  next
    case 2
    then have "p = proc s ?u \<and> s' = set_child ?u Reaped s" using assms by (simp add: waitpid_any_def Let_def)
    with 2 show ?thesis by blast
  next
    case 3
    then have "s' = s \<and> (p = 0 \<or> p = -1)" using assms by (simp add: waitpid_any_def Let_def split: if_splits)
    then show ?thesis by blast
  qed
qed

lemma winding_chld:
  assumes w: "winding cfg (f # us) b ds n" and k: "kind f = K_chld" and s: "frame_step cfg now t f (n_life n) = (gs, s')"
  shows "(\<forall>g \<in> set gs. above g) \<and> collected s' (gs @ us) \<and> nest_effort (gs @ us) s' < nest_effort (f # us) (n_life n)"
proof -
  let ?s = "n_life n"
  note d = windingD [OF w]
  have c: "collected ?s (f # us)" using w by (simp add: winding_def)
  have e: "unwind_effort s1 = unwind_effort ?s" if "child s1 = child ?s" "sigchld_pending s1 = sigchld_pending ?s" "phase s1 = phase ?s" for s1
    by (simp add: unwind_effort_def that)
  show ?thesis
  proof (cases f)
    case C_wait
    have c': "collected ?s us" using c C_wait by (auto simp: collected_def)
    obtain p where p: "waitpid_any t ?s = (p, s')" "gs = (if p = -1 then [] else [C_got p])"
      using s by (auto simp: C_wait frame_step_def Let_def split: prod.splits)
    note q = waitpid_cases [OF p(1)]
    consider u where "child ?s u = Zombie" "p = proc ?s u" "s' = set_child u Reaped ?s" | "s' = ?s" "p = 0 \<or> p = -1"
      using q by blast
    then show ?thesis
    proof cases
      case (1 u)
      have pos: "0 < p" using d(5) 1 by (simp add: base_ok_def)
      have "collected s' (C_got p # us)" using c' 1(2) by (auto simp: collected_def 1(3) set_child_fields)
      moreover have "unwind_effort s' + 5 = unwind_effort ?s" using 1(1)
        by (cases u) (simp_all add: unwind_effort_def 1(3) set_child_fields)
      ultimately show ?thesis using pos p(2) C_wait by (simp add: nest_effort_def)
    next
      case 2
      have "collected s' (gs @ us)" using collected_mono [OF c'] 2(1) by simp
      then show ?thesis using 2 p(2) C_wait by (auto simp: nest_effort_def)
    qed
  next
    case (C_got p)
    have s': "s' = ?s" using s by (auto simp: C_got frame_step_def)
    show ?thesis
    proof (cases "p = 0")
      case True
      have "pid ?s v \<noteq> 0" for v using d(6) by (simp add: known_def)
      then have "gs = []" using s True by (simp add: C_got frame_step_def)
      moreover have "proc ?s v \<noteq> 0" if "child ?s v = Reaped" for v
        using d(5) that unfolding base_ok_def by (metis child_state.distinct(9) less_irrefl)
      then have "collected ?s us" using c True C_got unfolding collected_def by fastforce
      ultimately show ?thesis using True C_got s' by (simp add: nest_effort_def)
    next
      case False
      obtain v where gs: "gs = [C_set v] \<and> p = pid ?s v \<or> gs = [C_wait] \<and> (\<forall>v. p \<noteq> pid ?s v)"
        using s False by (auto simp: C_got frame_step_def all_tid split: if_splits)
      have "collected ?s (gs @ us)"
        unfolding collected_def
      proof (intro allI impI)
        fix x assume r: "child ?s x = Reaped"
        then have "pid ?s x = -1 \<or> proc ?s x = p \<or> C_got (proc ?s x) \<in> set us \<or> C_set x \<in> set us"
          using c C_got by (auto simp: collected_def)
        moreover have "pid ?s x = -1 \<or> C_set x \<in> set gs" if "proc ?s x = p"
        proof (cases "pid ?s x = -1")
          case False
          then have px: "pid ?s x = p" using d(5,6) that unfolding base_ok_def known_def by metis
          then have g: "gs = [C_set v]" "p = pid ?s v" using gs by auto
          have "pid ?s v \<noteq> -1" using px g(2) False by simp
          then have "proc ?s v = p" using d(5,6) g(2) unfolding base_ok_def known_def by metis
          then have "v = x" using d(5) that \<open>p \<noteq> 0\<close> unfolding base_ok_def by (cases v; cases x) auto
          then show ?thesis using g by simp
        qed simp
        ultimately show "pid ?s x = -1 \<or> C_got (proc ?s x) \<in> set (gs @ us) \<or> C_set x \<in> set (gs @ us)" by auto
      qed
      then show ?thesis using gs s' False C_got by (auto simp: nest_effort_def)
    qed
  next
    case (C_set v)
    have s': "s' = set_pid v (-1) ?s" "gs = [C_flag]" using s by (auto simp: C_set frame_step_def)
    have "collected s' (gs @ us)" using c by (auto simp: C_set s' collected_def set_pid_def pid_def)
    then show ?thesis using e [of s'] by (simp add: C_set s'(2) nest_effort_def) (simp add: s'(1) set_pid_def)
  next
    case C_flag
    have s': "s' = ?s\<lparr>stop := True\<rparr>" "gs = [C_timer]" using s by (auto simp: C_flag frame_step_def)
    have "collected s' (gs @ us)" using c by (auto simp: C_flag s' collected_def pid_def)
    then show ?thesis using e [of s'] by (simp add: C_flag s' nest_effort_def)
  next
    case C_timer
    have s': "s' = stop_timer ?s" "gs = [C_wait]" using s by (auto simp: C_timer frame_step_def)
    have "collected s' (gs @ us)" using c by (auto simp: C_timer s' collected_def pid_def stop_timer_def)
    then show ?thesis using e [of s'] by (simp add: C_timer s' nest_effort_def stop_timer_def)
  qed (use k in simp_all)
qed


text \<open>Every step that changes anything brings the end nearer, but for a SIGINT, whose handler returns at its test.\<close>

definition sigint_in :: "nest \<Rightarrow> nest \<Rightarrow> bool" where
  "sigint_in n n' \<longleftrightarrow> n' = push_frame (S_enter By_int) n"

definition nearer :: "life_cfg \<Rightarrow> frame list \<Rightarrow> caller \<Rightarrow> frame list \<Rightarrow> nest \<Rightarrow> nest \<Rightarrow> bool" where
  "nearer cfg us b ds n n' \<longleftrightarrow>
     (\<exists>vs. winding cfg vs b ds n' \<and> nest_effort vs (n_life n') < nest_effort us (n_life n))"

lemma winding_child_step:
  assumes w: "winding cfg us b ds n" and st: "nstep cfg n (nlife f n)" and a: "alive (child (n_life n) t)"
    and f: "child (f (n_life n)) = (child (n_life n))(t := c)" "proc (f (n_life n)) = proc (n_life n)" "phase (f (n_life n)) = phase (n_life n)"
      "\<And>u. u \<noteq> t \<Longrightarrow> pid (f (n_life n)) u = pid (n_life n) u"
    and c: "c = Zombie \<or> sigchld_pending (f (n_life n)) = sigchld_pending (n_life n) \<and>
      (child (n_life n) t = Starting \<and> c = Ready \<or> child (n_life n) t = Ready \<and> c = Running)"
  shows "nearer cfg us b ds n (nlife f n)"
proof -
  have "collected (n_life n) us" "c \<noteq> Reaped" using w c by (auto simp: winding_def)
  then have "collected (f (n_life n)) us" by (simp add: collected_def f)
  then have "winding cfg us b ds (nlife f n)"
    using winding_keep [OF w st, of us] w by (simp add: winding_def)
  moreover have "unwind_effort (f (n_life n)) < unwind_effort (n_life n)"
    using c a by (cases t; cases "child (n_life n) t") (auto simp: unwind_effort_def f of_bool_def)
  ultimately show ?thesis unfolding nearer_def by (intro exI [of _ us]) (simp add: nest_effort_def)
qed

lemma winding_frame:
  assumes w: "winding cfg us b ds n" and st: "nstep cfg n (run_top cfg now t n)" and p: "phase (n_life n) \<noteq> M_exited"
    and m: "us = [] \<longrightarrow> pid (n_life n) Ping = -1 \<and> pid (n_life n) Pong = -1"
  shows "nearer cfg us b ds n (run_top cfg now t n)"
proof (cases us)
  case Nil
  let ?s = "stop_finish (lc_cleanup_exits cfg) (n_life n)"
  note d = windingD [OF w]
  have n: "run_top cfg now t n = \<lparr>n_life = ?s, n_stack = S_wait b # ds\<rparr>"
    using m d(8) Nil by (simp add: run_top_def frame_step_def)
  have "collected (n_life n) []" using w Nil by (simp add: winding_def)
  then have "collected ?s []" by (simp add: collected_def pid_updates)
  then have "winding cfg [] b ds (run_top cfg now t n)" using winding_keep [OF w st] by (simp add: n)
  moreover have "unwind_effort ?s < unwind_effort (n_life n)" using p by (simp add: unwind_effort_def stop_finish_def)
  ultimately show ?thesis unfolding nearer_def by (intro exI [of _ "[]"]) (simp add: n Nil nest_effort_def)
next
  case (Cons f vs)
  note d = windingD [OF w]
  obtain gs s' where s: "frame_step cfg now t f (n_life n) = (gs, s')" by fastforce
  have n: "run_top cfg now t n = \<lparr>n_life = s', n_stack = (gs @ vs) @ S_wait b # ds\<rparr>"
    using d(8) Cons s by (simp add: run_top_def)
  have ab: "above f" "\<forall>g \<in> set vs. above g" "collected (n_life n) us" using w Cons by (simp_all add: winding_def)
  have "(\<forall>g \<in> set gs. above g) \<and> collected s' (gs @ vs) \<and> nest_effort (gs @ vs) s' < nest_effort us (n_life n)"
  proof (cases "kind f = K_chld")
    case True
    then show ?thesis using winding_chld [OF w [unfolded Cons] _ s] Cons by simp
  next
    case False
    then have f: "f = S_enter By_int" using ab(1) by (cases f) auto
    then have "gs = []" "s' = n_life n" using s d(2) by (simp_all add: frame_step_def)
    moreover have "collected (n_life n) vs" using ab(3) Cons f by (simp add: collected_def)
    ultimately show ?thesis by (simp add: Cons f nest_effort_def)
  qed
  then show ?thesis unfolding nearer_def using winding_keep [OF w st, of "gs @ vs"] ab(2)
    by (intro exI [of _ "gs @ vs"]) (auto simp: n)
qed

lemma winding_sigchld:
  assumes w: "winding cfg us b ds n" and st: "nstep cfg n n'" and p: "sigchld_pending (n_life n)"
    and n': "n' = push_frame C_wait (nlife (\<lambda>s. s\<lparr>sigchld_pending := False\<rparr>) n)"
  shows "nearer cfg us b ds n n'"
proof -
  have c: "collected (n_life n) us" "\<forall>f \<in> set us. above f" "n_stack n = us @ S_wait b # ds" using w by (simp_all add: winding_def)
  have "collected (n_life n') (C_wait # us)" by (rule collected_mono [OF c(1)]) (auto simp: n' pid_pending)
  then have "winding cfg (C_wait # us) b ds n'" using winding_keep [OF w st, of "C_wait # us"] c by (simp add: n')
  moreover have "nest_effort (C_wait # us) (n_life n') < nest_effort us (n_life n)"
    using p by (simp add: n' nest_effort_def unwind_effort_def)
  ultimately show ?thesis unfolding nearer_def by blast
qed

lemma winding_step:
  assumes w: "winding cfg us b ds n" and st: "nstep cfg n n'"
  shows "n' = n \<or> nearer cfg us b ds n n'
    \<or> sigint_in n n' \<and> winding cfg (S_enter By_int # us) b ds n' \<and> n_life n' = n_life n"
proof -
  note d = windingD [OF w]
  have ne: "n_stack n \<noteq> []" by (simp add: d(8))
  from st show ?thesis
  proof (cases rule: nstep.cases)
    case (N_ready t)
    have "nearer cfg us b ds n (nlife (thread_ready t) n)"
      by (rule winding_child_step [OF w st [unfolded N_ready(1)], where t = t and c = Ready])
        (use N_ready(2) in \<open>auto simp: thread_ready_frame\<close>)
    then show ?thesis using N_ready(1) by blast
  next
    case (N_go t)
    have "nearer cfg us b ds n (nlife (set_child t Running) n)"
      by (rule winding_child_step [OF w st [unfolded N_go(1)], where t = t and c = Running])
        (use N_go(2) in \<open>auto simp: set_child_def pid_def\<close>)
    then show ?thesis using N_go(1) by blast
  next
    case (N_interrupt t)
    have "nearer cfg us b ds n (nlife (interrupt_thread t) n)"
      by (rule winding_child_step [OF w st [unfolded N_interrupt(1)] N_interrupt(2), where c = Zombie])
        (use d(3) in \<open>auto simp: interrupt_thread_def child_dies_def set_child_def pid_def Let_def\<close>)
    then show ?thesis using N_interrupt(1) by blast
  next
    case (N_dies t)
    have "nearer cfg us b ds n (nlife (child_dies t) n)"
      by (rule winding_child_step [OF w st [unfolded N_dies(1)] N_dies(2), where c = Zombie])
        (auto simp: child_dies_def set_child_def pid_def)
    then show ?thesis using N_dies(1) by blast
  next
    case N_sigchld
    then show ?thesis using winding_sigchld [OF w st] by blast
  next
    case N_sigint
    have "winding cfg (S_enter By_int # us) b ds n'"
      by (rule winding_keep [OF w st]) (use w N_sigint(1) in \<open>auto simp: winding_def collected_def\<close>)
    then show ?thesis using N_sigint(1) by (simp add: sigint_in_def)
  next
    case (N_frame now t)
    show ?thesis
    proof (cases "us = [] \<and> \<not> (pid (n_life n) Ping = -1 \<and> pid (n_life n) Pong = -1)")
      case True
      then have "run_top cfg now t n = n" using d(8) by (auto simp: run_top_def frame_step_def)
      then show ?thesis using N_frame(1) by simp
    next
      case False
      then show ?thesis using winding_frame [OF w st [unfolded N_frame(1)] N_frame(2)] N_frame(1) by blast
    qed
  qed (use ne d(4) in simp_all)
qed

text \<open>A step for which nothing has to come from outside: no SIGINT, and no child that ends by itself.\<close>

definition own_step :: "nest \<Rightarrow> nest \<Rightarrow> bool" where
  "own_step n n' \<longleftrightarrow> \<not> sigint_in n n' \<and> (\<forall>t. n' \<noteq> nlife (child_dies t) n)"

definition changed :: "nest \<Rightarrow> nest \<Rightarrow> bool" where
  "changed n n' \<longleftrightarrow> n_stack n' \<noteq> n_stack n \<or> phase (n_life n') \<noteq> phase (n_life n)
     \<or> interrupt_pending (n_life n') \<noteq> interrupt_pending (n_life n)"

lemma changed_own: "changed n n' \<Longrightarrow> n' \<noteq> nlife (child_dies t) n"
  by (auto simp: changed_def child_dies_def set_child_def)

lemma chld_frame_moves: "frame_step cfg now t f s = (gs, s') \<Longrightarrow> above f \<Longrightarrow> visited s \<Longrightarrow> gs \<noteq> [f]"
  by (cases f) (auto simp: frame_step_def Let_def split: if_splits prod.splits)

lemma frame_changed:
  assumes w: "winding cfg us b ds n" and p: "phase (n_life n) \<noteq> M_exited"
    and m: "us = [] \<longrightarrow> pid (n_life n) Ping = -1 \<and> pid (n_life n) Pong = -1"
  shows "changed n (run_top cfg now t n)"
proof (cases us)
  case Nil
  then show ?thesis using m p windingD(8) [OF w] by (simp add: changed_def run_top_def frame_step_def stop_finish_def)
next
  case (Cons f vs)
  obtain gs s' where s: "frame_step cfg now t f (n_life n) = (gs, s')" by fastforce
  have "above f" using w Cons by (simp add: winding_def)
  then have "gs \<noteq> [f]" using chld_frame_moves [OF s] windingD(2) [OF w] by blast
  moreover have "gs @ r = f # r \<longleftrightarrow> gs = [f]" for r by (metis append_Cons append_Nil append_same_eq)
  ultimately show ?thesis using windingD(8) [OF w] Cons s by (simp add: changed_def run_top_def)
qed

lemma winding_moves:
  assumes w: "winding cfg us b ds n" and p: "phase (n_life n) \<noteq> M_exited"
  shows "\<exists>n'. nstep cfg n n' \<and> nearer cfg us b ds n n' \<and> changed n n'"
proof -
  let ?s = "n_life n"
  note d = windingD [OF w]
  have fr: "nstep cfg n (run_top cfg 0 Ping n)" using p d(8) by (intro N_frame) simp_all
  show ?thesis
  proof (cases "us \<noteq> [] \<or> pid ?s Ping = -1 \<and> pid ?s Pong = -1")
    case True
    then show ?thesis using winding_frame [OF w fr p] frame_changed [OF w p] fr by blast
  next
    case False
    then obtain t where t: "pid ?s t \<noteq> -1" "us = []" by auto
    have "child ?s t \<noteq> Reaped" "child ?s t \<noteq> Absent" "chld_due n" and ds: "K_chld \<notin> kind ` set ds"
      using w t by (auto simp: winding_def collected_def fork_nest_def)
    then consider "child ?s t = Zombie" | "alive (child ?s t)" by (cases "child ?s t") simp_all
    then show ?thesis
    proof cases
      case 1
      have n: "\<not> on_stack K_chld n" using ds by (simp add: on_stack_def d(8) t(2))
      then have "\<not> (\<exists>f \<in> set (n_stack n). chld_busy f)" by (force simp: on_stack_def chld_busy_def)
      then have sp: "sigchld_pending ?s" using 1 \<open>chld_due n\<close> by (auto simp: chld_due_def)
      have "changed n (push_frame C_wait (nlife (\<lambda>s. s\<lparr>sigchld_pending := False\<rparr>) n))" by (simp add: changed_def)
      with N_sigchld [OF p sp n] winding_sigchld [OF w _ sp refl] show ?thesis by blast
    next
      case 2
      have "nearer cfg us b ds n (nlife (interrupt_thread t) n)"
        by (rule winding_child_step [OF w N_interrupt [OF 2 d(7) [OF 2]] 2, where c = Zombie])
          (use d(3) in \<open>auto simp: interrupt_thread_def child_dies_def set_child_def pid_def Let_def\<close>)
      moreover have "\<not> interrupt_pending (interrupt_thread t ?s) t"
        by (simp add: interrupt_thread_def child_dies_def set_child_def Let_def)
      then have "changed n (nlife (interrupt_thread t) n)" using d(7) [OF 2] by (auto simp: changed_def)
      ultimately show ?thesis using N_interrupt [OF 2 d(7) [OF 2]] by blast
    qed
  qed
qed

lemma winding_exits: "winding cfg us b ds n \<Longrightarrow> \<exists>n'. nreach cfg n n' \<and> phase (n_life n') = M_exited"
proof (induction "nest_effort us (n_life n)" arbitrary: us n rule: less_induct)
  case less
  show ?case
  proof (cases "phase (n_life n) = M_exited")
    case True
    then show ?thesis using NR_init by blast
  next
    case False
    then obtain n1 vs where "nstep cfg n n1" "winding cfg vs b ds n1" "nest_effort vs (n_life n1) < nest_effort us (n_life n)"
      using winding_moves [OF less.prems] by (auto simp: nearer_def)
    then show ?thesis using less.hyps [of vs n1] nreach_trans NR_step [OF NR_init] by meson
  qed
qed

lemma winding_reach: "nreach cfg n n' \<Longrightarrow> winding cfg us b ds n \<Longrightarrow> \<exists>vs. winding cfg vs b ds n'"
proof (induction rule: nreach.induct)
  case (NR_step c c')
  then obtain vs where "winding cfg vs b ds c" by blast
  from winding_step [OF this NR_step.hyps(2)] this show ?case by (auto simp: nearer_def)
qed blast

lemma nearer_changes: "nearer cfg us b ds n n' \<Longrightarrow> winding cfg us b ds n \<Longrightarrow> n' \<noteq> n"
  by (auto simp: nearer_def winding_def)

text \<open>A child that was waited for elsewhere, and that no child handler is about to record, is never recorded.\<close>

definition n_lost :: "tid \<Rightarrow> nest \<Rightarrow> bool" where
  "n_lost t n \<longleftrightarrow> child (n_life n) t = Reaped \<and> pid (n_life n) t \<noteq> -1
     \<and> C_got (proc (n_life n) t) \<notin> set (n_stack n) \<and> C_set t \<notin> set (n_stack n)"

lemma frame_proc: "frame_step cfg now t f s = (gs, s') \<Longrightarrow> proc s' = proc s"
  by (cases f) (auto simp: frame_step_def kill_frame wait_frame pid_updates waitpid_frame(1) set_pid_def Let_def
      split: if_splits prod.splits)

lemma frame_lost:
  assumes s: "frame_step cfg now u f s = (gs, s')" and b: "base_ok s" "known s"
    and l: "child s t = Reaped" "pid s t \<noteq> -1" "f \<noteq> C_got (proc s t)" "f \<noteq> C_set t"
  shows "child s' t = Reaped \<and> pid s' t = pid s t \<and> C_got (proc s t) \<notin> set gs \<and> C_set t \<notin> set gs"
proof (cases f)
  case C_wait
  obtain p where p: "waitpid_any u s = (p, s')" "gs = (if p = -1 then [] else [C_got p])"
    using s by (auto simp: C_wait frame_step_def Let_def split: prod.splits)
  have r: "0 < proc s t" using b(1) l(1) by (simp add: base_ok_def)
  have "p \<noteq> proc s t \<and> child s' t = Reaped" using waitpid_cases [OF p(1)]
  proof (elim disjE exE conjE)
    fix v assume v: "child s v = Zombie" "p = proc s v" "s' = set_child v Reaped s"
    then have "v \<noteq> t" using l(1) by auto
    then have "proc s v \<noteq> proc s t" using b(1) r unfolding base_ok_def by (cases v; cases t) auto
    then show ?thesis using v l(1) by (simp add: set_child_fields)
  qed (use r l(1) in simp_all)
  then show ?thesis using p(2) waitpid_frame(2) [OF p(1)] by simp
next
  case (C_got p)
  have "pid s t = proc s t" using b l(2) unfolding base_ok_def known_def by metis
  then show ?thesis using s l C_got by (auto simp: frame_step_def split: if_splits)
next
  case (C_set v)
  then show ?thesis using s l by (auto simp: frame_step_def set_pid_def pid_def)
next
  case (I_wait0 r)
  then show ?thesis using s l(1) by (auto simp: frame_step_def wait_frame wait4_nohang_def set_child_fields)
next
  case (I_wait1 r)
  then show ?thesis using s l(1) by (auto simp: frame_step_def wait_frame wait4_nohang_def set_child_fields)
qed (use s l(1) in \<open>auto simp: frame_step_def kill_frame pid_updates split: if_splits\<close>)

lemma nstep_lost:
  assumes "nstep cfg n n'" "fork_nest cfg n" "n_lost t n"
  shows "n_lost t n'"
  using assms(1)
proof (cases rule: nstep.cases)
  case (N_ready u)
  then show ?thesis using assms(3) by (auto simp: n_lost_def thread_ready_frame)
next
  case (N_interrupt u)
  have "pid (interrupt_thread u (n_life n)) = pid (n_life n)" "proc (interrupt_thread u (n_life n)) = proc (n_life n)"
    by (auto simp: interrupt_thread_def child_dies_def set_child_def pid_def Let_def)
  moreover have "u \<noteq> t" using N_interrupt(2) assms(3) by (auto simp: n_lost_def)
  moreover from this have "child (interrupt_thread u (n_life n)) t = child (n_life n) t"
    by (simp add: interrupt_thread_def child_dies_def set_child_def Let_def)
  ultimately show ?thesis using assms(3) by (simp add: N_interrupt(1) n_lost_def)
next
  case (N_frame now u)
  obtain f fs gs s' where e: "n_stack n = f # fs" "frame_step cfg now u f (n_life n) = (gs, s')"
    "n' = \<lparr>n_life = (if gs @ fs = [] then wake s' else s'), n_stack = gs @ fs\<rparr>"
    using run_topE [OF N_frame(3), of cfg now u] N_frame(1) by metis
  have "base_ok (n_life n)" "known (n_life n)" using assms(2) by (simp_all add: fork_nest_def nest_ok_def all_known_def)
  note l = frame_lost [OF e(2) this, of t]
  have "child s' t = Reaped \<and> pid s' t = pid (n_life n) t \<and> C_got (proc (n_life n) t) \<notin> set gs \<and> C_set t \<notin> set gs"
    by (rule l) (use assms(3) e(1) in \<open>auto simp: n_lost_def\<close>)
  then show ?thesis using assms(3) e(1) frame_proc [OF e(2)] by (auto simp: e(3) n_lost_def wake_def pid_def)
qed (use assms(3) in \<open>auto simp: n_lost_def set_child_fields child_dies_frame monitor_start_frame main_test_def pid_phase pid_pending\<close>)

lemma nreach_lost: "nreach cfg n n' \<Longrightarrow> fork_nest cfg n \<Longrightarrow> n_lost t n \<Longrightarrow> n_lost t n'"
proof (induction rule: nreach.induct)
  case (NR_step c d)
  then show ?case using nstep_lost nreach_fork by blast
qed

text \<open>How often SIGINT comes in the first \<open>m\<close> steps of a run.\<close>

definition sigints :: "(nat \<Rightarrow> nest) \<Rightarrow> nat \<Rightarrow> nat" where
  "sigints g m = length (filter (\<lambda>i. sigint_in (g i) (g (Suc i))) [0..<m])"

lemma winding_run:
  assumes "winding cfg us b ds (g 0)"
    and "\<forall>i. phase (n_life (g i)) \<noteq> M_exited \<longrightarrow> nstep cfg (g i) (g (Suc i)) \<and> g (Suc i) \<noteq> g i"
    and "nest_effort us (n_life (g 0)) + 2 * sigints g m \<le> m"
  shows "\<exists>i \<le> m. phase (n_life (g i)) = M_exited"
proof (rule ccontr)
  assume n: "\<not> (\<exists>i \<le> m. phase (n_life (g i)) = M_exited)"
  have "k \<le> m \<Longrightarrow> \<exists>vs. winding cfg vs b ds (g k)
      \<and> nest_effort vs (n_life (g k)) + k \<le> nest_effort us (n_life (g 0)) + 2 * sigints g k" for k
  proof (induction k)
    case 0
    then show ?case using assms(1) by (intro exI [of _ us]) (simp add: sigints_def)
  next
    case (Suc k)
    then obtain vs where v: "winding cfg vs b ds (g k)"
      "nest_effort vs (n_life (g k)) + k \<le> nest_effort us (n_life (g 0)) + 2 * sigints g k" by auto
    have st: "nstep cfg (g k) (g (Suc k))" "g (Suc k) \<noteq> g k" using Suc.prems n assms(2) by auto
    have c: "sigints g (Suc k) = sigints g k + of_bool (sigint_in (g k) (g (Suc k)))" by (simp add: sigints_def)
    from winding_step [OF v(1) st(1)] st(2) show ?case
    proof (elim disjE)
      assume "nearer cfg vs b ds (g k) (g (Suc k))"
      then show ?thesis using v(2) c by (auto simp: nearer_def intro!: exI)
    next
      assume s: "sigint_in (g k) (g (Suc k)) \<and> winding cfg (S_enter By_int # vs) b ds (g (Suc k)) \<and> n_life (g (Suc k)) = n_life (g k)"
      then show ?thesis using v(2) c by (intro exI [of _ "S_enter By_int # vs"]) (simp add: nest_effort_def)
    qed simp
  qed
  then obtain vs where "winding cfg vs b ds (g m)" "nest_effort vs (n_life (g m)) = 0" using assms(3) by force
  then show False using n by (auto simp: nest_effort_def unwind_effort_def split: if_splits)
qed

lemma never_exits:
  assumes f: "fork_nest cfg n" and n: "n_stack n = S_wait b # ds" "phase (n_life n) \<noteq> M_exited"
    and r: "nreach cfg n n'" "phase (n_life n') = M_exited"
  shows "(\<forall>t. pid (n_life n) t = -1) \<or> \<not> stop_over_child (n_stack n)"
    "child (n_life n) t = Reaped \<Longrightarrow> \<not> stop_over_child (n_stack n) \<Longrightarrow> pid (n_life n) t = -1"
proof -
  have o: "nest_ok cfg n" "nest_ok cfg n'" using f nreach_fork [OF r(1) f] by (simp_all add: fork_nest_def)
  have "wedged n'" if "wedged n" by (rule nreach_wedged [OF r(1) o(1) that])
  then show "(\<forall>t. pid (n_life n) t = -1) \<or> \<not> stop_over_child (n_stack n)" using n(2) r(2) by (auto simp: wedged_def)
  assume a: "child (n_life n) t = Reaped" "\<not> stop_over_child (n_stack n)"
  show "pid (n_life n) t = -1"
  proof (rule ccontr)
    assume p: "pid (n_life n) t \<noteq> -1"
    have "K_chld \<notin> kind ` set ds" using a(2) by (simp add: n(1))
    then have "n_lost t n" using a(1) p by (force simp: n_lost_def n(1))
    then have "pid (n_life n') t \<noteq> -1" using nreach_lost [OF r(1) f] by (simp add: n_lost_def)
    then show False using o(2) r(2) by (cases t) (auto simp: nest_ok_def mon_ok_def exit_ok_def)
  qed
qed

lemma cleared_exits:
  assumes "n_stack n = S_wait b # ds" "phase (n_life n) \<noteq> M_exited" "pid (n_life n) Ping = -1" "pid (n_life n) Pong = -1"
  shows "\<exists>n'. nreach cfg n n' \<and> phase (n_life n') = M_exited"
proof -
  have "nstep cfg n (run_top cfg 0 Ping n)" using assms by (intro N_frame) simp_all
  moreover have "phase (n_life (run_top cfg 0 Ping n)) = M_exited"
    using assms by (simp add: run_top_def frame_step_def stop_finish_def)
  ultimately show ?thesis using NR_step [OF NR_init] by blast
qed

lemma winding_unstuck:
  assumes w: "winding cfg us b ds n"
  shows "phase (n_life n) = M_exited \<or> (\<exists>u. nstep cfg n u \<and> u \<noteq> n \<and> own_step n u)"
proof (cases "phase (n_life n) = M_exited")
  case False
  from winding_moves [OF w False] obtain u where u: "nstep cfg n u" "nearer cfg us b ds n u" "changed n u" by blast
  have "\<not> sigint_in n u"
  proof
    assume i: "sigint_in n u"
    then have s: "n_stack u = (S_enter By_int # us) @ S_wait b # ds" "n_life u = n_life n"
      using windingD(8) [OF w] by (simp_all add: sigint_in_def)
    obtain vs where v: "winding cfg vs b ds u" "nest_effort vs (n_life u) < nest_effort us (n_life n)"
      using u(2) by (auto simp: nearer_def)
    have "vs = S_enter By_int # us" using windingD(8) [OF v(1)] s(1) by simp
    then show False using v(2) s(2) by (simp add: nest_effort_def)
  qed
  then show ?thesis using u changed_own [OF u(3)] nearer_changes [OF u(2) w] by (auto simp: own_step_def)
qed simp

section \<open>Properties\<close>

text \<open>
  C5: with every statement of every handler a step of its own, and every handler interruptible by the other
  two: at most five handlers are on the stack, no child runs before both are ready, and when the
  monitor has exited both process ids have been cleared, the stop flag is set, the timer is off and
  the final statistics have been shown exactly if the cleanup of the mode returns; with forked
  children a process id is cleared only when its child has been waited for. Every run of the coarse
  life cycle, in which a handler is one step, is one of these runs, but for where the main program
  stands while the stop handler waits.
\<close>

theorem nested_handlers_safe:
  assumes "start_threads mode e = Inr s0" "mode = Thread_fork \<or> mode = Thread_thread"
    and "fst (se_forks e) \<noteq> snd (se_forks e)" "0 < fst (se_clones e) \<longrightarrow> fst (se_clones e) \<noteq> snd (se_clones e)"
  shows "(\<forall>n. nreach cfg (nest_init s0) n \<longrightarrow> length (n_stack n) \<le> 5
    \<and> (child (n_life n) t = Running \<longrightarrow> ready (n_life n) Ping \<and> ready (n_life n) Pong)
    \<and> (mode = Thread_fork \<longrightarrow> pid (n_life n) t = -1 \<longrightarrow> child (n_life n) t = Reaped)
    \<and> (phase (n_life n) = M_exited \<longrightarrow> pid (n_life n) t = -1 \<and> stop (n_life n) \<and> \<not> timer (n_life n)
         \<and> final_stats (n_life n) = (\<not> lc_cleanup_exits cfg)))
    \<and> (\<forall>s. reach cfg s0 s \<longrightarrow> (\<exists>n. nreach cfg (nest_init s0) n \<and> n_life n = s\<lparr>phase := phase (n_life n)\<rparr>
         \<and> (phase (n_life n) = M_exited \<longleftrightarrow> phase s = M_exited)))"
proof (intro conjI [of "All _"] allI impI)
  fix n assume assm: "nreach cfg (nest_init s0) n"
  have i: "nest_ok cfg (nest_init s0)"
    by (rule nest_init_ok [OF start_ok [OF assms(1-4)]]) (rule fresh_flags(5) [OF assms(1,2)])
  have n: "base_ok (n_life n)" "shape (n_stack n)" "exit_ok cfg (n_life n)"
    using nreach_ok [OF assm i] by (simp_all add: nest_ok_def mon_ok_def)
  have "child (n_life n) t = Reaped" if "mode = Thread_fork" "pid (n_life n) t = -1"
  proof -
    have "told s0" using fork_start(2) assms(1,3) that(1) by blast
    then have "all_known (nest_init s0)" by (simp add: told_def all_known_def nest_init_def)
    then show ?thesis using nreach_known [OF assm i] that(2) by (simp add: all_known_def known_def)
  qed
  moreover have "phase (n_life n) = M_exited \<longrightarrow> pid (n_life n) t = -1 \<and> stop (n_life n) \<and> \<not> timer (n_life n)
      \<and> final_stats (n_life n) = (\<not> lc_cleanup_exits cfg)"
    using n(3) by (cases t) (simp_all add: exit_ok_def)
  moreover have "child (n_life n) t = Running \<longrightarrow> ready (n_life n) Ping \<and> ready (n_life n) Pong"
    using n(1) by (auto simp: base_ok_def)
  ultimately show "length (n_stack n) \<le> 5
    \<and> (child (n_life n) t = Running \<longrightarrow> ready (n_life n) Ping \<and> ready (n_life n) Pong)
    \<and> (mode = Thread_fork \<longrightarrow> pid (n_life n) t = -1 \<longrightarrow> child (n_life n) t = Reaped)
    \<and> (phase (n_life n) = M_exited \<longrightarrow> pid (n_life n) t = -1 \<and> stop (n_life n) \<and> \<not> timer (n_life n)
         \<and> final_stats (n_life n) = (\<not> lc_cleanup_exits cfg))"
    using shape_depth [OF n(2)] by blast
next
  fix s assume "reach cfg s0 s"
  then obtain n where "nreach cfg (nest_init s0) n" "matches s n"
    using coarse_runs_nest [OF _ start_ok [OF assms(1-4)] fresh_flags(5) [OF assms(1,2)]] by blast
  then show "\<exists>n. nreach cfg (nest_init s0) n \<and> n_life n = s\<lparr>phase := phase (n_life n)\<rparr>
      \<and> (phase (n_life n) = M_exited \<longleftrightarrow> phase s = M_exited)"
    using matches_phase by blast
qed

theorem nested_handlers_safe_witness:
  "\<exists>s0 n. start_threads Thread_fork example_env = Inr s0 \<and> nreach example_cfg (nest_init s0) n
     \<and> phase (n_life n) = M_exited \<and> child (n_life n) Ping = Reaped"
proof -
  obtain s0 s where s: "start_threads Thread_fork example_env = Inr s0" "reach example_cfg s0 s" "phase s = M_exited"
    using example_exits by blast
  have e: "fst (se_forks example_env) \<noteq> snd (se_forks example_env)"
    "0 < fst (se_clones example_env) \<longrightarrow> fst (se_clones example_env) \<noteq> snd (se_clones example_env)"
    by (simp_all add: example_env_def)
  note safe = nested_handlers_safe [OF s(1) _ e, of example_cfg Ping]
  obtain n where "nreach example_cfg (nest_init s0) n" "phase (n_life n) = M_exited" using safe s by blast
  then show ?thesis using safe s(1) by blast
qed

text \<open>The child handler interrupted by SIGINT before its first statement.\<close>

lemma wedged_reachable:
  assumes "start_threads Thread_fork e = Inr s0" "fst (se_forks e) \<noteq> snd (se_forks e)"
  shows "\<exists>n. nreach cfg (nest_init s0) n \<and> stop_over_child (n_stack n) \<and> pid (n_life n) Ping \<noteq> -1
     \<and> on_stack (K_stop By_int) n"
proof -
  note f = fork_ok(2) [OF fork_start(3) [OF assms] assms(2)]
  have v: "\<not> visited s0" "phase s0 = M_ready_wait" using fresh_flags [OF assms(1)] by simp_all
  let ?a = "nlife (child_dies Ping) (nest_init s0)"
  let ?b = "push_frame C_wait (nlife (\<lambda>s. s\<lparr>sigchld_pending := False\<rparr>) ?a)"
  let ?c = "push_frame (S_enter By_int) ?b"
  let ?d = "run_top cfg 0 Ping ?c"
  have 1: "nstep cfg (nest_init s0) ?a" using f by (intro N_dies) (simp add: nest_init_def)
  have 2: "nstep cfg ?a ?b"
    using v by (intro N_sigchld) (simp_all add: nest_init_def on_stack_def child_dies_frame)
  have 3: "nstep cfg ?b ?c" using v by (intro N_sigint) (simp_all add: nest_init_def on_stack_def child_dies_frame)
  have 4: "nstep cfg ?c ?d" using v by (intro N_frame) (simp_all add: nest_init_def child_dies_frame)
  have "?d = \<lparr>n_life = (child_dies Ping s0)\<lparr>sigchld_pending := False\<rparr>, n_stack = [S_visit By_int, C_wait]\<rparr>"
    using v by (simp add: run_top_def frame_step_def nest_init_def nlife_def push_frame_def child_dies_frame)
  moreover have "pid ((child_dies Ping s0)\<lparr>sigchld_pending := False\<rparr>) Ping \<noteq> -1"
    using f by (simp add: pid_pending child_dies_frame)
  ultimately have "stop_over_child (n_stack ?d)" "pid (n_life ?d) Ping \<noteq> -1" "on_stack (K_stop By_int) ?d"
    by (simp_all add: on_stack_def)
  then show ?thesis using 1 2 3 4 by (meson NR_init NR_step)
qed

text \<open>
  C6: the handlers are installed with an empty mask, and the stop handler waits for the child handler
  to clear the process ids. When it is entered, by SIGINT or by the end of the run time, while the
  child handler is under way and an id is not cleared yet, the child handler does not go on until
  the stop handler returns, and SIGCHLD is blocked: the monitor never exits, whatever happens.
  Such a state is reachable, and there SIGINT is blocked as well.
\<close>

theorem stop_over_child_hangs:
  assumes "start_threads Thread_fork e = Inr s0" "fst (se_forks e) \<noteq> snd (se_forks e)"
  shows "(\<forall>n n'. nreach cfg (nest_init s0) n \<and> stop_over_child (n_stack n) \<and> pid (n_life n) t \<noteq> -1 \<and> nreach cfg n n'
       \<longrightarrow> phase (n_life n') \<noteq> M_exited \<and> on_stack K_chld n')
    \<and> (\<exists>n. nreach cfg (nest_init s0) n \<and> stop_over_child (n_stack n) \<and> pid (n_life n) Ping \<noteq> -1
         \<and> on_stack (K_stop By_int) n)"
proof -
  have i: "nest_ok cfg (nest_init s0)"
    by (rule nest_init_ok [OF fork_start(1) [OF assms]]) (simp add: fresh_flags(5) [OF assms(1)])
  have "phase (n_life n') \<noteq> M_exited \<and> on_stack K_chld n'"
    if n: "nreach cfg (nest_init s0) n" "stop_over_child (n_stack n)" "pid (n_life n) t \<noteq> -1" "nreach cfg n n'" for n n'
  proof -
    have o: "nest_ok cfg n" by (rule nreach_ok [OF n(1) i])
    then have "phase (n_life n) \<noteq> M_exited" using n(3) by (cases t) (auto simp: nest_ok_def mon_ok_def exit_ok_def)
    then have "wedged n" using n(2,3) by (auto simp: wedged_def)
    then have "wedged n'" by (rule nreach_wedged [OF n(4) o])
    then show ?thesis using stop_over_child_on by (simp add: wedged_def on_stack_def)
  qed
  then show ?thesis using wedged_reachable [OF assms] by blast
qed

theorem stop_over_child_hangs_witness:
  "\<exists>s0 n. start_threads Thread_fork example_env = Inr s0 \<and> nreach example_cfg (nest_init s0) n
     \<and> on_stack (K_stop By_int) n \<and> (\<forall>n'. nreach example_cfg n n' \<longrightarrow> phase (n_life n') \<noteq> M_exited)"
proof -
  obtain s0 where s: "start_threads Thread_fork example_env = Inr s0" using example_fork by blast
  have "fst (se_forks example_env) \<noteq> snd (se_forks example_env)" by (simp add: example_env_def)
  from stop_over_child_hangs [OF s this, of example_cfg Ping] s show ?thesis by blast
qed

text \<open>Nothing is in the way of a stop handler that waits.\<close>

definition way_clear :: "nest \<Rightarrow> bool" where
  "way_clear n \<longleftrightarrow> \<not> stop_over_child (n_stack n) \<and> (\<forall>t. child (n_life n) t = Reaped \<longrightarrow> pid (n_life n) t = -1)"

text \<open>
  C15: what it takes for a run with forked children to end once a stop handler waits, with every statement of the
  handlers a step of its own and interruptible. It can still end exactly if both process ids are cleared
  already, or no stop handler has interrupted the child handler and no child has been waited for
  while its id is still recorded. In the second case it is never stuck before the exit, even if no SIGINT
  comes and no child ends by itself, and the exit is inevitable: in whatever order the deaths, the signals and
  the statements come, at most 26 steps that change anything are made before it, and two more for
  each SIGINT that comes meanwhile.
\<close>

theorem waiting_stop_ends:
  assumes "start_threads Thread_fork e = Inr s0" "fst (se_forks e) \<noteq> snd (se_forks e)"
    and "nreach cfg (nest_init s0) n" "n_stack n = S_wait b # ds" "phase (n_life n) \<noteq> M_exited"
  shows "((\<exists>n'. nreach cfg n n' \<and> phase (n_life n') = M_exited) \<longleftrightarrow> (\<forall>t. pid (n_life n) t = -1) \<or> way_clear n)
    \<and> (way_clear n \<longrightarrow> (\<forall>n'. nreach cfg n n' \<longrightarrow>
         phase (n_life n') = M_exited \<or> (\<exists>u. nstep cfg n' u \<and> u \<noteq> n' \<and> own_step n' u)))
    \<and> (way_clear n \<longrightarrow> (\<forall>g m. g 0 = n
         \<and> (\<forall>i. phase (n_life (g i)) \<noteq> M_exited \<longrightarrow> nstep cfg (g i) (g (Suc i)) \<and> g (Suc i) \<noteq> g i)
         \<and> 26 + 2 * sigints g m \<le> m \<longrightarrow> (\<exists>i \<le> m. phase (n_life (g i)) = M_exited)))"
proof -
  have f: "fork_nest cfg n" by (rule nreach_fork [OF assms(3) fork_nest_init [OF assms(1,2)]])
  have w: "winding cfg [] b ds n" if "way_clear n"
    using that f assms(4) by (simp add: way_clear_def winding_def collected_def)
  have e: "way_clear n" if r: "nreach cfg n n'" "phase (n_life n') = M_exited" and p: "pid (n_life n) t \<noteq> -1" for n' t
    unfolding way_clear_def using never_exits [OF f assms(4,5) r] p by blast
  have "\<exists>n'. nreach cfg n n' \<and> phase (n_life n') = M_exited" if "\<forall>t. pid (n_life n) t = -1"
    by (rule cleared_exits [OF assms(4,5)]) (use that in simp_all)
  then have "(\<exists>n'. nreach cfg n n' \<and> phase (n_life n') = M_exited) \<longleftrightarrow> (\<forall>t. pid (n_life n) t = -1) \<or> way_clear n"
    using e winding_exits w by blast
  moreover have "phase (n_life n') = M_exited \<or> (\<exists>u. nstep cfg n' u \<and> u \<noteq> n' \<and> own_step n' u)"
    if "way_clear n" "nreach cfg n n'" for n'
    using winding_reach [OF that(2) w [OF that(1)]] winding_unstuck by blast
  moreover have "\<exists>i \<le> m. phase (n_life (g i)) = M_exited"
    if "way_clear n" "g 0 = n" "\<forall>i. phase (n_life (g i)) \<noteq> M_exited \<longrightarrow> nstep cfg (g i) (g (Suc i)) \<and> g (Suc i) \<noteq> g i"
      "26 + 2 * sigints g m \<le> m" for g m
    using winding_run [of cfg "[]" b ds g m] w [OF that(1)] that(2-4) unwind_effort_bound [of "n_life n"]
    by (simp add: nest_effort_def)
  ultimately show ?thesis by blast
qed

theorem waiting_stop_ends_witness:
  "\<exists>s0 n. start_threads Thread_fork example_env = Inr s0 \<and> nreach example_cfg (nest_init s0) n
     \<and> phase (n_life n) \<noteq> M_exited \<and> n_stack n = [S_wait By_int] \<and> (\<exists>n'. nreach example_cfg n n' \<and> phase (n_life n') = M_exited)"
proof -
  obtain s0 where s: "start_threads Thread_fork example_env = Inr s0" using example_fork by blast
  have e: "fst (se_forks example_env) \<noteq> snd (se_forks example_env)" by (simp add: example_env_def)
  have v: "phase s0 \<noteq> M_exited" "\<not> visited s0" using fresh_flags [OF s] by simp_all
  have c: "child s0 t = Starting" for t using fork_ok(2) [OF fork_start(3) [OF s e] e] by blast
  let ?n = "at_top (stop_work s0) [S_wait By_int]"
  have "nstep example_cfg (nest_init s0) (push_frame (S_enter By_int) (nest_init s0))"
    using v by (intro N_sigint) (simp_all add: nest_init_def on_stack_def)
  moreover have "push_frame (S_enter By_int) (nest_init s0) = at_top s0 [S_enter By_int]"
    by (simp add: push_frame_def nest_init_def at_top_def)
  ultimately have r: "nreach example_cfg (nest_init s0) ?n"
    using stop_run [OF v, of example_cfg By_int "[]"] nreach_trans NR_step [OF NR_init] by metis
  have n: "n_stack ?n = [S_wait By_int]" "n_life ?n = stop_work s0" by (simp_all add: at_top_def)
  have "\<not> stop_over_child (n_stack ?n) \<and> (\<forall>t. child (n_life ?n) t = Reaped \<longrightarrow> pid (n_life ?n) t = -1)"
    unfolding n by (simp add: stop_work_def stop_timer_def c)
  then have "way_clear ?n" by (rule way_clear_def [THEN iffD2])
  moreover have "phase (n_life ?n) \<noteq> M_exited" unfolding n using v by (simp add: stop_work_phase)
  ultimately show ?thesis using waiting_stop_ends [OF s e r n(1)] s r n(1) by blast
qed

end
