(* ===== verification/Store_Buffers.thy ===== *)
theory Store_Buffers
  imports Mode_Options
begin

text \<open>
  The busy-wait loops of \<^verbatim>\<open>comms/spin.c\<close> on a processor with store buffers (x86-TSO): a store goes
  to the buffer of the processor that makes it and reaches the memory later; a load sees the own buffered
  stores first. The methods of the table differ in the code that follows each store, and
  only \<^verbatim>\<open>mfence\<close> waits for the buffer. The other theories take the memory to be sequentially
  consistent; here it is shown that for these loops this loses nothing.
\<close>

section \<open>The machine\<close>

datatype tso_ping_pc = P_count | P_store | P_sync | P_test
datatype tso_pong_pc = Q_test | Q_store | Q_sync

text \<open>The oldest store of a buffer comes first.\<close>

record tso =
  tso_ping :: tso_ping_pc
  tso_pong :: tso_pong_pc
  tso_count :: "64 word"
  tso_var :: int
  tso_buf :: "tid \<Rightarrow> int list"

definition tso_init :: tso where
  "tso_init = \<lparr>tso_ping = P_count, tso_pong = Q_test, tso_count = 0, tso_var = 0, tso_buf = (\<lambda>_. [])\<rparr>"

definition load :: "tid \<Rightarrow> tso \<Rightarrow> int" where
  "load t s = (if tso_buf s t = [] then tso_var s else last (tso_buf s t))"

definition store :: "tid \<Rightarrow> int \<Rightarrow> tso \<Rightarrow> tso" where
  "store t v s = s\<lparr>tso_buf := (tso_buf s)(t := tso_buf s t @ [v])\<rparr>"

text \<open>
  Which code waits until the buffer is empty: \<^verbatim>\<open>mfence\<close>, which \<^verbatim>\<open>__sync_synchronize\<close> is too. Of \<^verbatim>\<open>msync\<close>
  nothing is assumed.
\<close>

fun drains :: "sync_code \<Rightarrow> bool" where
  "drains Asm_empty = False"
| "drains Mb = True"
| "drains Mb2 = False"
| "drains (Msync flag) = False"
| "drains Sync_synchronize = True"
| "drains No_code = False"

definition sync_passes :: "sync_code \<Rightarrow> tid \<Rightarrow> tso \<Rightarrow> bool" where
  "sync_passes code t s \<longleftrightarrow> \<not> drains code \<or> tso_buf s t = []"

text \<open>
  One instruction of a loop, with the operation it completes: a load that ends the waiting. (A store
  completes when it reaches the memory.)
\<close>

definition tso_ping_step :: "sync_code \<Rightarrow> tso \<Rightarrow> stage option \<times> tso" where
  "tso_ping_step code s =
     (case tso_ping s of
        P_count \<Rightarrow> (None, s\<lparr>tso_count := tso_count s + 1, tso_ping := P_store\<rparr>)
      | P_store \<Rightarrow> (None, (store Ping 1 s)\<lparr>tso_ping := P_sync\<rparr>)
      | P_sync \<Rightarrow> (None, if sync_passes code Ping s then s\<lparr>tso_ping := P_test\<rparr> else s)
      | P_test \<Rightarrow> if load Ping s \<noteq> 0 then (None, s) else (Some A2, s\<lparr>tso_ping := P_count\<rparr>))"

definition tso_pong_step :: "sync_code \<Rightarrow> tso \<Rightarrow> stage option \<times> tso" where
  "tso_pong_step code s =
     (case tso_pong s of
        Q_test \<Rightarrow> if load Pong s \<noteq> 1 then (None, s) else (Some B1, s\<lparr>tso_pong := Q_store\<rparr>)
      | Q_store \<Rightarrow> (None, (store Pong 0 s)\<lparr>tso_pong := Q_sync\<rparr>)
      | Q_sync \<Rightarrow> (None, if sync_passes code Pong s then s\<lparr>tso_pong := Q_test\<rparr> else s))"

text \<open>The oldest buffered store reaches the memory.\<close>

definition flush :: "tid \<Rightarrow> tso \<Rightarrow> stage option \<times> tso" where
  "flush t s =
     (case tso_buf s t of
        [] \<Rightarrow> (None, s)
      | v # vs \<Rightarrow> (Some (case t of Ping \<Rightarrow> A1 | Pong \<Rightarrow> B2), s\<lparr>tso_var := v, tso_buf := (tso_buf s)(t := vs)\<rparr>))"

datatype tso_action = Instr tid | Flush tid

definition tso_step :: "(tid \<Rightarrow> sync_code) \<Rightarrow> tso_action \<Rightarrow> tso \<Rightarrow> stage option \<times> tso" where
  "tso_step codes a s =
     (case a of
        Instr Ping \<Rightarrow> tso_ping_step (codes Ping) s
      | Instr Pong \<Rightarrow> tso_pong_step (codes Pong) s
      | Flush t \<Rightarrow> flush t s)"

fun tso_run :: "(tid \<Rightarrow> sync_code) \<Rightarrow> tso_action list \<Rightarrow> tso \<Rightarrow> stage list \<times> tso" where
  "tso_run codes [] s = ([], s)"
| "tso_run codes (a # as) s =
     (case tso_step codes a s of (e, s1) \<Rightarrow>
      case tso_run codes as s1 of (es, s2) \<Rightarrow>
        ((case e of None \<Rightarrow> es | Some t \<Rightarrow> t # es), s2))"

lemma tso_run_append:
  "tso_run codes (as @ bs) s =
     (case tso_run codes as s of (es, s1) \<Rightarrow> case tso_run codes bs s1 of (es2, s2) \<Rightarrow> (es @ es2, s2))"
  by (induction as arbitrary: s) (auto split: prod.splits option.splits)

section \<open>The buffers are invisible\<close>

text \<open>At most one store is buffered, and the place in the loop says which.\<close>

definition buf_ok :: "tso \<Rightarrow> bool" where
  "buf_ok s \<longleftrightarrow>
     (tso_buf s Ping = [] \<or> tso_buf s Ping = [1] \<and> (tso_ping s = P_sync \<or> tso_ping s = P_test))
     \<and> (tso_buf s Pong = [] \<or> tso_buf s Pong = [0] \<and> (tso_pong s = Q_sync \<or> tso_pong s = Q_test))"

text \<open>The state of the loops over a plain variable: a buffered store has not been made yet.\<close>

definition unbuffered :: "tso \<Rightarrow> int pp" where
  "unbuffered s =
     \<lparr>ping_pc = (case tso_ping s of P_count \<Rightarrow> At_count | P_store \<Rightarrow> At_a1
                   | _ \<Rightarrow> if tso_buf s Ping = [] then At_a2 else At_a1),
      pong_pc = (if tso_buf s Pong \<noteq> [] \<or> tso_pong s = Q_store then At_b2 else At_b1),
      ping_count = tso_count s, chan = tso_var s\<rparr>"

lemma unbuffered_init: "unbuffered tso_init = pp_init 0" "buf_ok tso_init"
  by (simp_all add: unbuffered_def tso_init_def pp_init_def buf_ok_def)

text \<open>The step of the plain loops that an action is, if any.\<close>

definition plain_step :: "tso_action \<Rightarrow> tso \<Rightarrow> (tid \<times> unit) list" where
  "plain_step a s =
     (case a of
        Instr Ping \<Rightarrow> if tso_ping s = P_count \<or> tso_ping s = P_test \<and> tso_buf s Ping = [] then [(Ping, ())] else []
      | Instr Pong \<Rightarrow> if tso_pong s = Q_test \<and> tso_buf s Pong = [] then [(Pong, ())] else []
      | Flush t \<Rightarrow> if tso_buf s t = [] then [] else [(t, ())])"

lemmas tso_defs = tso_step_def tso_ping_step_def tso_pong_step_def flush_def store_def load_def sync_passes_def

lemma instr_ping_plain:
  assumes "buf_ok s" "tso_step codes (Instr Ping) s = (e, s')"
  shows "buf_ok s' \<and> pp_run spin_ops (plain_step (Instr Ping) s) (unbuffered s)
    = ((case e of None \<Rightarrow> [] | Some t \<Rightarrow> [t]), unbuffered s')"
proof (cases "tso_ping s")
  case P_count
  then have "e = None" "s' = s\<lparr>tso_count := tso_count s + 1, tso_ping := P_store\<rparr>" "tso_buf s Ping = []"
    using assms by (simp_all add: tso_step_def tso_ping_step_def buf_ok_def)
  then show ?thesis using assms(1) P_count
    by (simp add: buf_ok_def plain_step_def unbuffered_def pp_step_def ping_step_def)
next
  case P_store
  then have "e = None" "s' = (store Ping 1 s)\<lparr>tso_ping := P_sync\<rparr>" "tso_buf s Ping = []"
    using assms by (simp_all add: tso_step_def tso_ping_step_def buf_ok_def)
  then show ?thesis using assms(1) P_store
    by (simp add: buf_ok_def plain_step_def unbuffered_def store_def)
next
  case P_sync
  then have "e = None" "s' = s \<or> s' = s\<lparr>tso_ping := P_test\<rparr>"
    using assms by (auto simp: tso_step_def tso_ping_step_def split: if_splits)
  then show ?thesis using assms(1) P_sync
    by (elim disjE) (simp_all add: buf_ok_def plain_step_def unbuffered_def)
next
  case P_test
  show ?thesis
  proof (cases "tso_buf s Ping = []")
    case True
    then have "plain_step (Instr Ping) s = [(Ping, ())]" "ping_pc (unbuffered s) = At_a2" "chan (unbuffered s) = tso_var s"
      using P_test by (simp_all add: plain_step_def unbuffered_def)
    moreover have "e = (if tso_var s = 0 then Some A2 else None)" "s' = (if tso_var s = 0 then s\<lparr>tso_ping := P_count\<rparr> else s)"
      using assms(2) P_test True by (simp_all add: tso_step_def tso_ping_step_def load_def split: if_splits)
    moreover have "unbuffered (s\<lparr>tso_ping := P_count\<rparr>) = (unbuffered s)\<lparr>ping_pc := At_count\<rparr>"
      by (simp add: unbuffered_def)
    moreover have "buf_ok (s\<lparr>tso_ping := P_count\<rparr>)" using assms(1) True by (simp add: buf_ok_def)
    ultimately show ?thesis using assms(1) by (simp add: pp_step_def ping_step_def spin_ops_def)
  next
    case False
    then have "load Ping s = 1" "plain_step (Instr Ping) s = []"
      using assms(1) P_test by (auto simp: buf_ok_def load_def plain_step_def)
    then show ?thesis using assms P_test by (auto simp: tso_step_def tso_ping_step_def)
  qed
qed

lemma instr_pong_plain:
  assumes "buf_ok s" "tso_step codes (Instr Pong) s = (e, s')"
  shows "buf_ok s' \<and> pp_run spin_ops (plain_step (Instr Pong) s) (unbuffered s)
    = ((case e of None \<Rightarrow> [] | Some t \<Rightarrow> [t]), unbuffered s')"
proof (cases "tso_pong s")
  case Q_store
  then have "e = None" "s' = (store Pong 0 s)\<lparr>tso_pong := Q_sync\<rparr>" "tso_buf s Pong = []"
    using assms by (simp_all add: tso_step_def tso_pong_step_def buf_ok_def)
  then show ?thesis using assms(1) Q_store
    by (simp add: buf_ok_def plain_step_def unbuffered_def store_def)
next
  case Q_sync
  then have "e = None" "s' = s \<or> s' = s\<lparr>tso_pong := Q_test\<rparr>"
    using assms by (auto simp: tso_step_def tso_pong_step_def split: if_splits)
  then show ?thesis using assms(1) Q_sync
    by (elim disjE) (simp_all add: buf_ok_def plain_step_def unbuffered_def)
next
  case Q_test
  show ?thesis
  proof (cases "tso_buf s Pong = []")
    case True
    then have "plain_step (Instr Pong) s = [(Pong, ())]" "pong_pc (unbuffered s) = At_b1" "chan (unbuffered s) = tso_var s"
      using Q_test by (simp_all add: plain_step_def unbuffered_def)
    moreover have "e = (if tso_var s = 1 then Some B1 else None)" "s' = (if tso_var s = 1 then s\<lparr>tso_pong := Q_store\<rparr> else s)"
      using assms(2) Q_test True by (simp_all add: tso_step_def tso_pong_step_def load_def split: if_splits)
    moreover have "unbuffered (s\<lparr>tso_pong := Q_store\<rparr>) = (unbuffered s)\<lparr>pong_pc := At_b2\<rparr>"
      by (simp add: unbuffered_def)
    moreover have "buf_ok (s\<lparr>tso_pong := Q_store\<rparr>)" using assms(1) True by (simp add: buf_ok_def)
    ultimately show ?thesis using assms(1) by (simp add: pp_step_def pong_step_def spin_ops_def)
  next
    case False
    then have "load Pong s = 0" "plain_step (Instr Pong) s = []"
      using assms(1) Q_test by (auto simp: buf_ok_def load_def plain_step_def)
    then show ?thesis using assms Q_test by (auto simp: tso_step_def tso_pong_step_def)
  qed
qed

lemma flush_plain:
  assumes "buf_ok s" "tso_step codes (Flush t) s = (e, s')"
  shows "buf_ok s' \<and> pp_run spin_ops (plain_step (Flush t) s) (unbuffered s)
    = ((case e of None \<Rightarrow> [] | Some t \<Rightarrow> [t]), unbuffered s')"
proof (cases "tso_buf s t")
  case Nil
  then have "e = None" "s' = s" "plain_step (Flush t) s = []"
    using assms(2) by (simp_all add: tso_step_def flush_def plain_step_def)
  then show ?thesis using assms(1) by simp
next
  case (Cons v vs)
  show ?thesis
  proof (cases t)
    case Ping
    then have p: "tso_buf s Ping = [1]" "tso_ping s = P_sync \<or> tso_ping s = P_test" using assms(1) Cons by (auto simp: buf_ok_def)
    have s': "e = Some A1" "s' = s\<lparr>tso_var := 1, tso_buf := (tso_buf s)(Ping := [])\<rparr>"
      using assms(2) p(1) Ping by (simp_all add: tso_step_def flush_def)
    have u: "ping_pc (unbuffered s) = At_a1" using p by (auto simp: unbuffered_def)
    have "unbuffered s' = (unbuffered s)\<lparr>chan := 1, ping_pc := At_a2\<rparr>"
      using p(2) unfolding s'(2) by (auto simp: unbuffered_def)
    moreover have "buf_ok s'" using assms(1) p(1) unfolding s'(2) by (simp add: buf_ok_def)
    ultimately show ?thesis using Ping p(1) u s'(1)
      by (simp add: plain_step_def pp_step_def ping_step_def spin_ops_def)
  next
    case Pong
    then have p: "tso_buf s Pong = [0]" "tso_pong s = Q_sync \<or> tso_pong s = Q_test" using assms(1) Cons by (auto simp: buf_ok_def)
    have s': "e = Some B2" "s' = s\<lparr>tso_var := 0, tso_buf := (tso_buf s)(Pong := [])\<rparr>"
      using assms(2) p(1) Pong by (simp_all add: tso_step_def flush_def)
    have u: "pong_pc (unbuffered s) = At_b2" using p by (auto simp: unbuffered_def)
    have "unbuffered s' = (unbuffered s)\<lparr>chan := 0, pong_pc := At_b1\<rparr>"
      using p(2) unfolding s'(2) by (auto simp: unbuffered_def)
    moreover have "buf_ok s'" using assms(1) p(1) unfolding s'(2) by (simp add: buf_ok_def)
    ultimately show ?thesis using Pong p(1) u s'(1)
      by (simp add: plain_step_def pp_step_def pong_step_def spin_ops_def)
  qed
qed

lemma tso_step_plain:
  assumes "buf_ok s" "tso_step codes a s = (e, s')"
  shows "buf_ok s' \<and> pp_run spin_ops (plain_step a s) (unbuffered s)
    = ((case e of None \<Rightarrow> [] | Some t \<Rightarrow> [t]), unbuffered s')"
proof (cases a)
  case (Instr t)
  then show ?thesis using instr_ping_plain [OF assms(1)] instr_pong_plain [OF assms(1)] assms(2) by (cases t) simp_all
next
  case (Flush t)
  then show ?thesis using flush_plain [OF assms(1)] assms(2) by simp
qed

fun plain_schedule :: "(tid \<Rightarrow> sync_code) \<Rightarrow> tso_action list \<Rightarrow> tso \<Rightarrow> (tid \<times> unit) list" where
  "plain_schedule codes [] s = []"
| "plain_schedule codes (a # as) s = plain_step a s @ plain_schedule codes as (snd (tso_step codes a s))"

lemma tso_run_plain:
  assumes "buf_ok s" "tso_run codes as s = (tr, s')"
  shows "buf_ok s' \<and> pp_run spin_ops (plain_schedule codes as s) (unbuffered s) = (tr, unbuffered s')"
  using assms
proof (induction as arbitrary: s tr)
  case (Cons a as)
  obtain e s1 where e: "tso_step codes a s = (e, s1)" by fastforce
  obtain es where es: "tso_run codes as s1 = (es, s')" "tr = (case e of None \<Rightarrow> es | Some t \<Rightarrow> t # es)"
    using Cons.prems(2) e by (auto split: prod.splits)
  note st = tso_step_plain [OF Cons.prems(1) e]
  show ?case using Cons.IH [OF _ es(1)] st es(2) e
    by (auto simp: pp_run_append split: option.splits)
qed simp

section \<open>Progress\<close>

text \<open>The operation whose turn it is completes within three actions: at most the two before it, and it.\<close>

definition turn_actions :: "stage \<Rightarrow> tso \<Rightarrow> tso_action list" where
  "turn_actions t s =
     (case t of
        A1 \<Rightarrow> (case tso_ping s of P_count \<Rightarrow> [Instr Ping, Instr Ping, Flush Ping] | P_store \<Rightarrow> [Instr Ping, Flush Ping]
                | _ \<Rightarrow> [Flush Ping])
      | A2 \<Rightarrow> (case tso_ping s of P_sync \<Rightarrow> [Instr Ping, Instr Ping] | _ \<Rightarrow> [Instr Ping])
      | B1 \<Rightarrow> (case tso_pong s of Q_sync \<Rightarrow> [Instr Pong, Instr Pong] | _ \<Rightarrow> [Instr Pong])
      | B2 \<Rightarrow> (case tso_pong s of Q_store \<Rightarrow> [Instr Pong, Flush Pong] | _ \<Rightarrow> [Flush Pong]))"

lemma turn_actions_complete:
  assumes "buf_ok s" "turn Send_first spin_rep t (unbuffered s)"
  shows "length (turn_actions t s) \<le> 3 \<and> fst (tso_run codes (turn_actions t s) s) = [t]"
proof (cases t)
  case A1
  then show ?thesis using assms
    by (cases "tso_ping s") (auto simp: turn_actions_def turn_def unbuffered_def buf_ok_def tso_defs)
next
  case A2
  then show ?thesis using assms
    by (cases "tso_ping s") (auto simp: turn_actions_def turn_def unbuffered_def buf_ok_def tso_defs spin_rep_def split: if_splits)
next
  case B1
  then show ?thesis using assms
    by (cases "tso_pong s") (auto simp: turn_actions_def turn_def unbuffered_def buf_ok_def tso_defs spin_rep_def split: if_splits)
next
  case B2
  then show ?thesis using assms
    by (cases "tso_pong s") (auto simp: turn_actions_def turn_def unbuffered_def buf_ok_def tso_defs split: if_splits)
qed

lemma tso_progress:
  assumes "buf_ok s" "turn Send_first spin_rep (cyc Send_first k) (unbuffered s)" "counted n (unbuffered s)"
  shows "\<exists>as s'. length as \<le> 3 * m \<and> tso_run codes as s = (map (cyc Send_first) [k..<k + m], s')"
  using assms
proof (induction m arbitrary: k s n)
  case 0
  then show ?case by (intro exI [of _ "[]"]) simp
next
  case (Suc m)
  let ?a = "turn_actions (cyc Send_first k) s"
  obtain s1 where s1: "length ?a \<le> 3" "tso_run codes ?a s = ([cyc Send_first k], s1)"
    using turn_actions_complete [OF Suc.prems(1,2), of codes] by (cases "tso_run codes ?a s") auto
  note p = tso_run_plain [OF Suc.prems(1) s1(2)]
  have r: "turn Send_first spin_rep (cyc Send_first (Suc k)) (unbuffered s1)"
      "counted (n + count_list [cyc Send_first k] A1) (unbuffered s1)"
    using spin.run_turn [OF Suc.prems(2) conjunct2 [OF p] Suc.prems(3)] by simp_all
  obtain bs s2 where bs: "length bs \<le> 3 * m" "tso_run codes bs s1 = (map (cyc Send_first) [Suc k..<Suc k + m], s2)"
    using Suc.IH [OF _ r] p by blast
  show ?case
    using s1 bs cyc_range_Suc [of Send_first k m]
    by (intro exI [of _ "?a @ bs"] exI [of _ s2]) (simp add: tso_run_append del: upt_Suc)
qed

text \<open>What a barrier adds: the variable is not tested before the own store has reached the memory.\<close>

lemma drained_step:
  assumes "drains (codes Ping)" "tso_ping s = P_test \<longrightarrow> tso_buf s Ping = []" "tso_step codes a s = (e, s')"
  shows "tso_ping s' = P_test \<longrightarrow> tso_buf s' Ping = []"
  using assms
  by (cases a; cases "tso_ping s"; cases "tso_pong s")
    (auto simp: tso_defs split: if_splits tid.splits list.splits)

lemma drained_run:
  assumes "drains (codes Ping)" "tso_ping s = P_test \<longrightarrow> tso_buf s Ping = []"
  shows "tso_ping (snd (tso_run codes as s)) = P_test \<longrightarrow> tso_buf (snd (tso_run codes as s)) Ping = []"
  using assms(2)
proof (induction as arbitrary: s)
  case (Cons a as)
  obtain e s1 where e: "tso_step codes a s = (e, s1)" by fastforce
  show ?case using Cons.IH [OF drained_step [OF assms(1) Cons.prems e]] e by (auto split: prod.splits)
qed simp

section \<open>The unrolled loops\<close>

text \<open>
  \<^verbatim>\<open>comms/spin_unrolled.c\<close>: \<^verbatim>\<open>SET_VAL\<close> is followed by the code of the method, which the macro
  \<^verbatim>\<open>MEM_SYNC_METHOD_\<close>\<open>n\<close> names; the three that are called after flags of \<^verbatim>\<open>msync\<close> have the same flag. The copies of
  \<^verbatim>\<open>ONE_PING\<close> and \<^verbatim>\<open>ONE_PONG\<close> in the loop bodies are run one after the other, round and round.
\<close>

definition mem_sync_method_code :: "int \<Rightarrow> sync_code res" where
  "mem_sync_method_code m = aget [No_code, Mb, Msync ''MS_SYNC'', Msync ''MS_SYNC'', Msync ''MS_SYNC''] m"

record unrolled_tso =
  ut_tso :: tso
  ut_ping_copy :: nat
  ut_pong_copy :: nat

definition ONE_PING :: "sync_code \<Rightarrow> unrolled_tso \<Rightarrow> stage option \<times> unrolled_tso" where
  "ONE_PING code s =
     (case tso_ping_step code (ut_tso s) of (e, s') \<Rightarrow>
        (e, s\<lparr>ut_tso := s',
             ut_ping_copy := (if tso_ping (ut_tso s) = P_test \<and> tso_ping s' = P_count
                              then next_copy (ut_ping_copy s) else ut_ping_copy s)\<rparr>))"

definition ONE_PONG :: "sync_code \<Rightarrow> unrolled_tso \<Rightarrow> stage option \<times> unrolled_tso" where
  "ONE_PONG code s =
     (case tso_pong_step code (ut_tso s) of (e, s') \<Rightarrow>
        (e, s\<lparr>ut_tso := s',
             ut_pong_copy := (if tso_pong (ut_tso s) = Q_sync \<and> tso_pong s' = Q_test
                              then next_copy (ut_pong_copy s) else ut_pong_copy s)\<rparr>))"

definition unrolled_tso_step :: "sync_code \<Rightarrow> tso_action \<Rightarrow> unrolled_tso \<Rightarrow> stage option \<times> unrolled_tso" where
  "unrolled_tso_step code a s =
     (case a of
        Instr Ping \<Rightarrow> ONE_PING code s
      | Instr Pong \<Rightarrow> ONE_PONG code s
      | Flush t \<Rightarrow> (case flush t (ut_tso s) of (e, s') \<Rightarrow> (e, s\<lparr>ut_tso := s'\<rparr>)))"

fun unrolled_tso_run :: "sync_code \<Rightarrow> tso_action list \<Rightarrow> unrolled_tso \<Rightarrow> stage list \<times> unrolled_tso" where
  "unrolled_tso_run code [] s = ([], s)"
| "unrolled_tso_run code (a # as) s =
     (case unrolled_tso_step code a s of (e, s1) \<Rightarrow>
      case unrolled_tso_run code as s1 of (es, s2) \<Rightarrow> ((case e of None \<Rightarrow> es | Some t \<Rightarrow> t # es), s2))"

definition unrolled_tso_init :: unrolled_tso where
  "unrolled_tso_init = \<lparr>ut_tso = tso_init, ut_ping_copy = 0, ut_pong_copy = 0\<rparr>"

definition tso_copies_ok :: "unrolled_tso \<Rightarrow> bool" where
  "tso_copies_ok s \<longleftrightarrow> ut_ping_copy s < unroll \<and> ut_pong_copy s < unroll"

lemma next_copy_bound: "i < unroll \<Longrightarrow> next_copy i < unroll"
  by (simp add: next_copy_def)

lemma unrolled_tso_step_rolls:
  assumes "unrolled_tso_step code a s = (e, s')" "tso_copies_ok s"
  shows "tso_step (\<lambda>_. code) a (ut_tso s) = (e, ut_tso s') \<and> tso_copies_ok s'"
proof (cases a)
  case (Instr t)
  then show ?thesis using assms
    by (cases t) (auto simp: unrolled_tso_step_def ONE_PING_def ONE_PONG_def tso_step_def tso_copies_ok_def
        next_copy_bound split: prod.splits)
next
  case (Flush t)
  then show ?thesis using assms by (auto simp: unrolled_tso_step_def tso_step_def tso_copies_ok_def split: prod.splits)
qed

lemma unrolled_tso_rolls:
  assumes "unrolled_tso_run code as s = (tr, s')" "tso_copies_ok s"
  shows "tso_run (\<lambda>_. code) as (ut_tso s) = (tr, ut_tso s') \<and> tso_copies_ok s'"
  using assms
proof (induction as arbitrary: s tr)
  case (Cons a as)
  obtain e s1 where e: "unrolled_tso_step code a s = (e, s1)" by fastforce
  obtain es s2 where r: "unrolled_tso_run code as s1 = (es, s2)" by fastforce
  have es: "s2 = s'" "tr = (case e of None \<Rightarrow> es | Some t \<Rightarrow> t # es)" using Cons.prems(1) e r by simp_all
  note st = unrolled_tso_step_rolls [OF e Cons.prems(2)]
  show ?case using Cons.IH [OF r [unfolded es(1)]] st es(2) by simp
qed simp

text \<open>
  With any of the five methods the unrolled loops alternate strictly on a processor with store buffers.
\<close>

lemma unrolled_correct_with_store_buffers:
  assumes "mem_sync_method_code m = Inr code" "unrolled_tso_run code as unrolled_tso_init = (tr, s)"
  shows "tr = map (cyc Send_first) [0..<length tr] \<and> tso_copies_ok s"
proof -
  have "tso_run (\<lambda>_. code) as tso_init = (tr, ut_tso s)" and c: "tso_copies_ok s"
    using unrolled_tso_rolls [OF assms(2)] by (simp_all add: unrolled_tso_init_def tso_copies_ok_def unroll_def)
  then have "pp_run spin_ops (plain_schedule (\<lambda>_. code) as tso_init) (pp_init 0) = (tr, unbuffered (ut_tso s))"
    using tso_run_plain [OF unbuffered_init(2)] by (metis unbuffered_init(1))
  moreover have "spin_rep A1 0" by (simp add: spin_rep_def)
  ultimately show ?thesis using spin.alternation(1) c by blast
qed

section \<open>Property\<close>

text \<open>
  C14: The busy-wait loops are correct on processors with store buffers, whatever two methods of the table ping and
  pong use: under every schedule of their instructions and of the buffers the operations complete in strict
  alternation, the counter is the number of rounds begun, and \<open>m\<close> more operations can always be completed
  in \<open>3 * m\<close> actions; each such run is a run of the loops over a plain variable. What a barrier
  changes is only that ping waits for its store to reach the memory before it tests the variable.
\<close>

theorem spin_correct_with_store_buffers:
  "case tso_run codes as tso_init of (tr, s) \<Rightarrow>
     pp_run spin_ops (plain_schedule codes as tso_init) (pp_init 0) = (tr, unbuffered s)
     \<and> tr = map (cyc Send_first) [0..<length tr]
     \<and> tso_count s = of_nat ((length tr + 3) div 4 + (if ping_pc (unbuffered s) = At_a1 then 1 else 0))
     \<and> (\<exists>bs s'. length bs \<le> 3 * m \<and> tso_run codes bs s = (map (cyc Send_first) [length tr..<length tr + m], s'))
     \<and> (drains (codes Ping)
         \<longleftrightarrow> \<not> (\<exists>cs. tso_ping (snd (tso_run codes cs tso_init)) = P_test \<and> tso_buf (snd (tso_run codes cs tso_init)) Ping \<noteq> []))"
proof -
  obtain tr s where r: "tso_run codes as tso_init = (tr, s)" by fastforce
  have rep: "spin_rep A1 0" by (simp add: spin_rep_def)
  note p = tso_run_plain [OF unbuffered_init(2) r]
  then have pl: "pp_run spin_ops (plain_schedule codes as tso_init) (pp_init 0) = (tr, unbuffered s)"
    by (simp add: unbuffered_init)
  note a = spin.alternation [OF rep pl]
  note t = spin.run_turn [OF turn_init [where rep = spin_rep and ord = Send_first, OF rep] pl counted_init]
  have prog: "\<exists>bs s'. length bs \<le> 3 * m \<and> tso_run codes bs s = (map (cyc Send_first) [length tr..<length tr + m], s')"
    using tso_progress [of s "length tr" "0 + count_list tr A1" m codes] p t by simp
  have d: "drains (codes Ping)
      \<longleftrightarrow> \<not> (\<exists>cs. tso_ping (snd (tso_run codes cs tso_init)) = P_test \<and> tso_buf (snd (tso_run codes cs tso_init)) Ping \<noteq> [])"
  proof
    assume "drains (codes Ping)"
    then show "\<not> (\<exists>cs. tso_ping (snd (tso_run codes cs tso_init)) = P_test \<and> tso_buf (snd (tso_run codes cs tso_init)) Ping \<noteq> [])"
      using drained_run [of codes tso_init] by (auto simp: tso_init_def)
  next
    assume n: "\<not> (\<exists>cs. tso_ping (snd (tso_run codes cs tso_init)) = P_test \<and> tso_buf (snd (tso_run codes cs tso_init)) Ping \<noteq> [])"
    let ?cs = "[Instr Ping, Instr Ping, Instr Ping]"
    show "drains (codes Ping)"
    proof (rule ccontr)
      assume "\<not> drains (codes Ping)"
      then have "tso_ping (snd (tso_run codes ?cs tso_init)) = P_test \<and> tso_buf (snd (tso_run codes ?cs tso_init)) Ping \<noteq> []"
        by (simp add: tso_defs tso_init_def)
      with n show False by blast
    qed
  qed
  show ?thesis using pl a(1,2) prog d unfolding unbuffered_def by (simp add: r)
qed

end
