(* ===== verification/Benaphore.thy ===== *)
theory Benaphore
  imports Prelude
begin

text \<open>
  \<^verbatim>\<open>comms/benaphore.c\<close>, a lock that the Makefile does not build: an atomic counter with a semaphore
  for those who have to wait. \<^verbatim>\<open>atomic_add\<close>, \<^verbatim>\<open>acquire_sem\<close> and \<^verbatim>\<open>release_sem\<close> are calls of another system, taken
  as it documents them: an addition that returns the old value, and the operations of a counting
  semaphore. (The functions of the file that call what is declared nowhere are left out.)
\<close>

section \<open>Making the pair\<close>

record ben_state =
  ben_num :: nat
  ben_atom :: int
  ben_sem :: nat

text \<open>
  The counter that the lock works on is the variable \<^verbatim>\<open>benaphore_atom\<close> itself, whose address the code
  passes: a pointer, set to the \<open>address\<close> of the mapping. \<open>leftover\<close> is the value of a semaphore of that
  name, \<open>None\<close> if there is none and \<open>opens\<close> tells whether \<^verbatim>\<open>sem_open\<close> succeeds.
\<close>

definition make_ben_pair :: "bool \<Rightarrow> nat option \<Rightarrow> int \<Rightarrow> ben_state \<Rightarrow> ((int \<times> int) \<times> ben_state) res" where
  "make_ben_pair opens leftover address s =
     bind_res
       (if ben_num s = 0
        then (if \<not> opens then Inl (Exit_fail ''Error opening semaphore '%s': %s'')
              else Inr (s\<lparr>ben_sem := (case leftover of None \<Rightarrow> 0 | Some v \<Rightarrow> v), ben_atom := address\<rparr>))
        else Inr s)
       (\<lambda>s1. Inr ((int (ben_num s1), int (ben_num s1)), s1\<lparr>ben_num := ben_num s1 + 1\<rparr>))"

section \<open>The lock\<close>

text \<open>Where a thread is: outside, waiting for the semaphore, inside, or about to release it to a waiter.\<close>

datatype ben_pc = Outside | Waiting | Inside | Releasing

definition acquire_ben :: "ben_state \<Rightarrow> ben_pc \<times> ben_state" where
  "acquire_ben s = (if ben_atom s > 0 then Waiting else Inside, s\<lparr>ben_atom := ben_atom s + 1\<rparr>)"

definition acquire_sem :: "ben_state \<Rightarrow> (ben_pc \<times> ben_state) option" where
  "acquire_sem s = (if ben_sem s = 0 then None else Some (Inside, s\<lparr>ben_sem := ben_sem s - 1\<rparr>))"

definition release_ben :: "ben_state \<Rightarrow> ben_pc \<times> ben_state" where
  "release_ben s = (if ben_atom s > 1 then Releasing else Outside, s\<lparr>ben_atom := ben_atom s - 1\<rparr>)"

definition release_sem :: "ben_state \<Rightarrow> ben_pc \<times> ben_state" where
  "release_sem s = (Outside, s\<lparr>ben_sem := ben_sem s + 1\<rparr>)"

text \<open>\<^verbatim>\<open>do_send_ben\<close> of a thread: acquire and release, over and over. \<open>None\<close> means that it has to wait.\<close>

definition do_send_ben :: "ben_pc \<Rightarrow> ben_state \<Rightarrow> (ben_pc \<times> ben_state) option" where
  "do_send_ben pc s =
     (case pc of
        Outside \<Rightarrow> Some (acquire_ben s)
      | Waiting \<Rightarrow> acquire_sem s
      | Inside \<Rightarrow> Some (release_ben s)
      | Releasing \<Rightarrow> Some (release_sem s))"

inductive ben_reach :: "ben_state \<Rightarrow> ('t \<Rightarrow> ben_pc) \<times> ben_state \<Rightarrow> bool" for s0 where
  Ben_init: "ben_reach s0 (\<lambda>_. Outside, s0)"
| Ben_step: "ben_reach s0 (pcs, s) \<Longrightarrow> do_send_ben (pcs t) s = Some (pc, s') \<Longrightarrow> ben_reach s0 (pcs(t := pc), s')"

section \<open>Properties\<close>

definition num_at :: "('t \<Rightarrow> ben_pc) \<Rightarrow> ben_pc \<Rightarrow> nat" where
  "num_at pcs x = card {t. pcs t = x}"

lemma num_at_move:
  fixes pcs :: "'t :: finite \<Rightarrow> ben_pc"
  assumes "pcs t = x" "x \<noteq> y"
  shows "num_at (pcs(t := y)) z = (if z = x then num_at pcs z - 1 else if z = y then num_at pcs z + 1 else num_at pcs z)"
    and "0 < num_at pcs x"
proof -
  have x: "{u. (pcs(t := y)) u = x} = {u. pcs u = x} - {t}" and y: "{u. (pcs(t := y)) u = y} = insert t {u. pcs u = y}"
    using assms by auto
  have z: "z \<noteq> x \<Longrightarrow> z \<noteq> y \<Longrightarrow> {u. (pcs(t := y)) u = z} = {u. pcs u = z}" using assms by auto
  show "num_at (pcs(t := y)) z = (if z = x then num_at pcs z - 1 else if z = y then num_at pcs z + 1 else num_at pcs z)"
    using x y z assms by (simp add: num_at_def card_Diff_singleton)
  show "0 < num_at pcs x" using assms(1) by (auto simp: num_at_def card_gt_0_iff)
qed

text \<open>With a counter that starts at zero, one token goes round.\<close>

lemma ben_tokens:
  fixes pcs :: "'t :: finite \<Rightarrow> ben_pc"
  assumes "ben_reach s0 (pcs, s)" "ben_atom s0 = 0" "ben_sem s0 = 0"
  shows "ben_atom s = int (num_at pcs Inside + num_at pcs Waiting)
    \<and> num_at pcs Inside + ben_sem s + num_at pcs Releasing = (if 0 < ben_atom s then 1 else 0)"
  using assms(1)
proof (induction "(pcs, s)" arbitrary: pcs s rule: ben_reach.induct)
  case Ben_init
  then show ?case using assms(2,3) by (simp add: num_at_def)
next
  case (Ben_step pcs s t pc s')
  note IH = Ben_step(2)
  show ?case
  proof (cases "pcs t")
    case Outside
    then show ?thesis using IH Ben_step(3) num_at_move [of pcs t Outside Inside] num_at_move [of pcs t Outside Waiting]
      by (auto simp: do_send_ben_def acquire_ben_def split: if_splits)
  next
    case Waiting
    then show ?thesis using IH Ben_step(3) num_at_move [of pcs t Waiting Inside]
      by (auto simp: do_send_ben_def acquire_sem_def split: if_splits)
  next
    case Inside
    then show ?thesis using IH Ben_step(3) num_at_move [of pcs t Inside Outside] num_at_move [of pcs t Inside Releasing]
      by (auto simp: do_send_ben_def release_ben_def split: if_splits)
  next
    case Releasing
    then show ?thesis using IH Ben_step(3) num_at_move [of pcs t Releasing Outside]
      by (auto simp: do_send_ben_def release_sem_def split: if_splits)
  qed
qed

text \<open>
  So such a lock admits one thread at a time and never leaves all of them waiting. As it is written it does not
  start at zero but at the address of the mapping: then every thread waits from the beginning, unless a
  semaphore of an earlier run is left, which lets as many in as its value.
\<close>

lemma benaphore_excludes:
  fixes pcs :: "'t :: finite \<Rightarrow> ben_pc"
  assumes "ben_reach s0 (pcs, s)" "ben_atom s0 = 0" "ben_sem s0 = 0"
  shows "(pcs t = Inside \<and> pcs u = Inside \<longrightarrow> t = u) \<and> (\<exists>t. do_send_ben (pcs t) s \<noteq> None)"
proof -
  note i = ben_tokens [OF assms]
  have one: "num_at pcs Inside \<le> 1" using i by (simp split: if_splits)
  have "t = u" if "pcs t = Inside" "pcs u = Inside"
  proof (rule ccontr)
    assume "t \<noteq> u"
    then have "card {t, u} = 2" by simp
    moreover have "card {t, u} \<le> num_at pcs Inside" unfolding num_at_def by (rule card_mono) (use that in auto)
    ultimately show False using one by simp
  qed
  moreover have "\<exists>t. do_send_ben (pcs t) s \<noteq> None"
  proof (rule ccontr)
    assume n: "\<not> (\<exists>t. do_send_ben (pcs t) s \<noteq> None)"
    then have none: "do_send_ben (pcs t) s = None" for t by blast
    have w: "pcs t = Waiting \<and> ben_sem s = 0" for t
      using none [of t] by (cases "pcs t") (simp_all add: do_send_ben_def acquire_sem_def split: if_splits)
    then have "num_at pcs Waiting = card (UNIV :: 't set)" "num_at pcs Inside = 0" "num_at pcs Releasing = 0" "ben_sem s = 0"
      by (simp_all add: num_at_def)
    then show False using i by (simp split: if_splits)
  qed
  ultimately show ?thesis by blast
qed

lemma benaphore_as_written:
  assumes "make_ben_pair True leftover address s1 = Inr (fd, s0)" "ben_num s1 = 0" "0 < address"
    and "ben_reach s0 (pcs, s)"
  shows "leftover = None \<Longrightarrow> pcs t = Outside \<or> pcs t = Waiting"
proof -
  assume n: "leftover = None"
  then have i: "ben_atom s0 = address" "ben_sem s0 = 0" using assms(1,2) by (auto simp: make_ben_pair_def)
  have "ben_sem s = 0 \<and> 0 < ben_atom s \<and> (\<forall>t. pcs t = Outside \<or> pcs t = Waiting)"
    using assms(4)
  proof (induction "(pcs, s)" arbitrary: pcs s rule: ben_reach.induct)
    case Ben_init
    then show ?case using i assms(3) by simp
  next
    case (Ben_step pcs s t pc s')
    then have "pcs t = Outside \<or> pcs t = Waiting" by blast
    then show ?case using Ben_step(2,3)
      by (elim disjE) (auto simp: do_send_ben_def acquire_ben_def acquire_sem_def split: if_splits)
  qed
  then show ?thesis by blast
qed

end
