(* ===== verification/Small_Routines.thy ===== *)
theory Small_Routines
  imports Program Signals
begin

text \<open>
  The small functions of the sources that no other theory needs: the default operations of a mode
  (\<^verbatim>\<open>comms.c\<close>), the generic form of the eventfd operations (\<^verbatim>\<open>comms/eventfd.c\<close>), the pong side of the nop
  mode (\<^verbatim>\<open>comms/nop.c\<close>), \<^verbatim>\<open>exit_fail\<close> and the numerical helpers of \<^verbatim>\<open>common.c\<close>, the queries of \<^verbatim>\<open>sched.c\<close>,
  the older backtrace of \<^verbatim>\<open>signals.c\<close>, \<^verbatim>\<open>estimate_cpu_speed\<close> (\<^verbatim>\<open>threads_children.c\<close>) and \<^verbatim>\<open>monitor_cleanup\<close> (\<^verbatim>\<open>threads_monitor.c\<close>).
\<close>

section \<open>Default operations\<close>

definition comm_no_init :: int where "comm_no_init = 0"
definition comm_no_begin :: int where "comm_no_begin = 0"
definition comm_no_cleanup :: int where "comm_no_cleanup = 0"
definition comm_show_no_options :: "string \<Rightarrow> int" where "comm_show_no_options indent_string = 0"

text \<open>The text printed and the result; printing a name that is NULL is a fault.\<close>

definition comm_parse_no_options :: "comm_registry \<Rightarrow> int \<Rightarrow> string \<Rightarrow> (string \<times> int) res" where
  "comm_parse_no_options reg i option_string =
     bind_res (get_comm_mode_name i reg) (\<lambda>name.
       case name of None \<Rightarrow> Inl Null_pointer
       | Some n \<Rightarrow> Inr (''Comm mode '' @ [CHR 0x27] @ n @ [CHR 0x27] @ '' has no options.'' @ [CHR 0x0A], 0))"

text \<open>In the program as built, any chosen mode without options of its own is named in the message.\<close>

lemma no_options_named:
  assumes "i < length built_modes"
  shows "\<exists>reg. run_constructors built_modes initial_registry = Inr reg
     \<and> comm_parse_no_options reg (int i) opts
         = Inr (''Comm mode '' @ [CHR 0x27] @ ii_name (fst (built_modes ! i)) @ [CHR 0x27] @ '' has no options.''
                @ [CHR 0x0A], 0)"
proof -
  have d: "distinct (map (ii_name \<circ> fst) built_modes)" using built_distinct by (simp add: comp_def)
  obtain r where r: "run_constructors built_modes initial_registry = Inr r" "reg_ok r" "mode_view r = map mode_abs built_modes"
    using run_constructors_ok [OF d] by blast
  have "get_comm_mode_name (int i) r = Inr (Some (fst (mode_abs (built_modes ! i))))"
    using get_name_view [OF r(2), of i] assms r(3) by simp
  then show ?thesis using r(1) by (simp add: comm_parse_no_options_def mode_abs_def)
qed

section \<open>The eventfd operations\<close>

text \<open>
  The functions return 1 exactly if the library call returns 0. The mode has loops of its own and does not
  enter them into its table; with the generic loops they would do the same.
\<close>

definition do_send_eventfd :: "outcome \<Rightarrow> int \<Rightarrow> kernel \<Rightarrow> int \<times> kernel" where
  "do_send_eventfd oc fd k = (case eventfd_write1 oc fd k of (r, k') \<Rightarrow> (of_bool (r = 0), k'))"

definition do_recv_eventfd :: "outcome \<Rightarrow> int \<Rightarrow> kernel \<Rightarrow> int \<times> kernel" where
  "do_recv_eventfd oc fd k = (case eventfd_read oc fd k of (r, v, k') \<Rightarrow> (of_bool (r = 0), k'))"

lemma eventfd_loops_generic: "generic_ops do_send_eventfd do_recv_eventfd = eventfd_ops"
  by (intro ext) (simp add: generic_ops_def eventfd_ops_def do_send_eventfd_def do_recv_eventfd_def
      split: stage.split prod.split)

section \<open>The pong side of the nop mode\<close>

definition comm_pong_nop :: "64 word \<times> int \<Rightarrow> 64 word \<times> int" where
  "comm_pong_nop s = s"

fun nop_run :: "int \<Rightarrow> tid list \<Rightarrow> 64 word \<times> int \<Rightarrow> ((64 word \<times> int) option) res" where
  "nop_run variety [] s = Inr (Some s)"
| "nop_run variety (Ping # ts) s =
     bind_res (nop_iteration variety s) (\<lambda>r. case r of None \<Rightarrow> Inr None | Some s1 \<Rightarrow> nop_run variety ts s1)"
| "nop_run variety (Pong # ts) s = nop_run variety ts (comm_pong_nop s)"

lemma nop_run_counts: "nop_run variety ts s = nop_iterations (count_list ts Ping) variety s"
proof (induction ts arbitrary: s)
  case (Cons t ts)
  have "(\<lambda>r. case r of None \<Rightarrow> Inr None | Some s1 \<Rightarrow> nop_run variety ts s1)
      = (\<lambda>r. case r of None \<Rightarrow> Inr None | Some s1 \<Rightarrow> nop_iterations (count_list ts Ping) variety s1)"
    by (intro ext) (simp add: Cons.IH split: option.split)
  then show ?case by (cases t) (simp_all add: comm_pong_nop_def Cons.IH)
qed simp

section \<open>exit\_fail\<close>

text \<open>
  \<^verbatim>\<open>safe_write\<close> takes its arguments one by one, but \<^verbatim>\<open>exit_fail\<close> passes it its own argument list as the
  only one. \<open>vs\<close> is what \<^verbatim>\<open>vsnprintf\<close> makes of a format and arguments. The result is what is written
  and the exit status.
\<close>

datatype 'a fmt_arg = Given 'a | Va_list

definition exit_fail ::
    "(string \<Rightarrow> 'a fmt_arg list \<Rightarrow> string option) \<Rightarrow> (string \<Rightarrow> int) \<Rightarrow> string \<Rightarrow> string \<Rightarrow> 'a list
      \<Rightarrow> (int \<times> string) list \<times> int" where
  "exit_fail vs wr err fmt args = (fst (snd (safe_write 1 '''' 400 (vs fmt [Va_list]) wr err)), 1)"

text \<open>So the message never shows an argument; a format without conversions is written as it is.\<close>

lemma exit_fail_drops_arguments:
  "exit_fail vs wr err fmt args = exit_fail vs wr err fmt args'"
  "vs fmt [Va_list] = Some fmt \<Longrightarrow> length fmt < 400 \<Longrightarrow> 0 \<le> wr fmt \<Longrightarrow> exit_fail vs wr err fmt args = ([(1, fmt)], 1)"
  by (simp_all add: exit_fail_def safe_write_fits)

section \<open>Numerical helpers\<close>

text \<open>
  The library functions are arguments; a quotient of logarithms by zero and conversions out of range
  have no value here.
\<close>

definition log_base :: "(rat \<Rightarrow> rat) \<Rightarrow> (rat \<Rightarrow> rat) \<Rightarrow> rat \<Rightarrow> rat \<Rightarrow> rat res" where
  "log_base rnd logl base num = (if logl base = 0 then Inl Unspecified else Inr (rnd (logl num / logl base)))"

definition ld_to_ull :: "rat \<Rightarrow> 64 word res" where
  "ld_to_ull d = (if d \<le> -1 \<or> 2 ^ 64 \<le> d then Inl Unspecified else Inr (word_of_int (ld_trunc d)))"

definition ipowll :: "(int \<Rightarrow> rat) \<Rightarrow> (rat \<Rightarrow> rat \<Rightarrow> rat) \<Rightarrow> int \<Rightarrow> int \<Rightarrow> int res" where
  "ipowll to_double pow x y =
     (let pf = pow (to_double x) (to_double y)
      in if pf \<le> - (2 ^ 63) - 1 \<or> 2 ^ 63 \<le> pf then Inl Unspecified else Inr (ld_trunc pf))"

lemma ld_to_ull_nat:
  assumes "n < 2 ^ 64"
  shows "ld_to_ull (of_nat n) = Inr (of_nat n)"
proof -
  have "(of_nat n :: rat) < of_nat (2 ^ 64)" using assms by (simp only: of_nat_less_iff)
  then show ?thesis by (simp add: ld_to_ull_def ld_trunc_def not_le)
qed

text \<open>Exact where the floating-point functions are.\<close>

lemma ipowll_exact:
  assumes "to_double x = of_int x" "to_double y = of_int y" "pow (of_int x) (of_int y) = of_int (x ^ nat y)"
    and "- (2 ^ 63) \<le> x ^ nat y" "x ^ nat y < 2 ^ 63"
  shows "ipowll to_double pow x y = Inr (x ^ nat y)"
proof -
  have "(of_int (- (2 ^ 63)) :: rat) \<le> of_int (x ^ nat y)" "(of_int (x ^ nat y) :: rat) < of_int (2 ^ 63)"
    using assms(4,5) by (simp_all only: of_int_le_iff of_int_less_iff)
  then have "\<not> (of_int (x ^ nat y) :: rat) \<le> - (2 ^ 63) - 1" "\<not> 2 ^ 63 \<le> (of_int (x ^ nat y) :: rat)" by simp_all
  moreover have "ld_trunc (of_int (x ^ nat y)) = x ^ nat y" by (simp add: ld_trunc_def del: of_int_power)
  ultimately show ?thesis using assms(1-3) by (simp add: ipowll_def Let_def del: of_int_power)
qed

text \<open>
  \<^verbatim>\<open>estimate_cpu_speed\<close>: the two fields it sets. A counter that has not moved gives the infinite cycle time
  of a division by zero, which has no value here.
\<close>

definition estimate_cpu_speed :: "64 word \<Rightarrow> rat \<Rightarrow> 64 word \<Rightarrow> rat \<Rightarrow> (rat \<times> rat) res" where
  "estimate_cpu_speed t0 s0 t1 s1 =
     (let mhz = estimate_cpu_mhz t0 s0 t1 s1
      in if mhz = 0 then Inl Unspecified else Inr (mhz, 1 / mhz / 10 ^ 6))"

text \<open>Without rounding, the cycles counted last as long as the time measured.\<close>

lemma cycles_fill_time:
  assumes "estimate_cpu_speed t0 s0 t1 s1 = Inr (mhz, cycle_time)"
  shows "of_int (uint (t1 - t0)) * cycle_time = s1 - s0"
  using assms by (auto simp: estimate_cpu_speed_def estimate_cpu_mhz_def Let_def field_simps split: if_splits)

section \<open>Scheduling queries\<close>

text \<open>
  \<^verbatim>\<open>get_priorities\<close> leaves policy and priority in the configuration; when \<^verbatim>\<open>sched_getparam\<close> fails the
  priority is whatever was on the stack.
\<close>

definition get_priorities :: "int \<Rightarrow> int option \<Rightarrow> (int \<times> int) res" where
  "get_priorities policy getparam =
     (case getparam of None \<Rightarrow> Inl Unspecified | Some prio \<Rightarrow> Inr (policy, prio))"

definition sched_getcpu :: "int \<Rightarrow> int \<Rightarrow> int" where
  "sched_getcpu syscall_result c = (let s = to_int syscall_result in if s = -1 then s else c)"

text \<open>What \<^verbatim>\<open>set_priorities\<close> has set for root is read back.\<close>

lemma priorities_read_back:
  "set_priorities c = Some (policy, prio) \<Longrightarrow> get_priorities policy (Some prio) = Inr (sched_policy c, sched_prio c)"
  by (simp add: set_priorities_def get_priorities_def split: if_splits)

section \<open>The older backtrace\<close>

text \<open>
  \<^verbatim>\<open>print_backtrace\<close>: the line on the standard output and those on the standard error, from the number of
  addresses and the array of their symbols, NULL when there is no memory for it.
\<close>

fun backtrace_lines :: "string list option \<Rightarrow> int \<Rightarrow> nat \<Rightarrow> string list res" where
  "backtrace_lines strings i 0 = Inr []"
| "backtrace_lines strings i (Suc n) =
     (case strings of None \<Rightarrow> Inl Null_pointer
      | Some ss \<Rightarrow> bind_res (aget ss i) (\<lambda>s. bind_res (backtrace_lines strings (i + 1) n) (\<lambda>ls.
          Inr ((s @ [CHR 0x0A]) # ls))))"

definition print_backtrace :: "int \<Rightarrow> int \<Rightarrow> string list option \<Rightarrow> (string \<times> string list) res" where
  "print_backtrace signum n strings =
     bind_res (backtrace_lines strings 0 (nat n)) (\<lambda>ls.
       Inr (''print_backtrace: got signal '' @ dec_int signum @ [CHR 0x0A], ls))"

definition print_backtrace_die :: "int \<Rightarrow> int \<Rightarrow> string list option \<Rightarrow> ((string \<times> string list) \<times> crash_end) res" where
  "print_backtrace_die signum n strings =
     bind_res (print_backtrace signum n strings) (\<lambda>out. Inr (out, Exits 1))"

lemma backtrace_lines_all:
  "i + n \<le> length ss \<Longrightarrow> backtrace_lines (Some ss) (int i) n = Inr (map (\<lambda>s. s @ [CHR 0x0A]) (take n (drop i ss)))"
proof (induction n arbitrary: i)
  case (Suc n)
  have "drop i ss = ss ! i # drop (Suc i) ss" using Suc.prems by (simp add: Cons_nth_drop_Suc)
  then show ?case using Suc.IH [of "Suc i"] Suc.prems by (simp add: add.commute)
qed simp

text \<open>With the array that belongs to the addresses every symbol is shown, and the process ends.\<close>

lemma print_backtrace_whole:
  assumes "n = int (length ss)"
  shows "print_backtrace_die signum n (Some ss)
     = Inr ((''print_backtrace: got signal '' @ dec_int signum @ [CHR 0x0A], map (\<lambda>s. s @ [CHR 0x0A]) ss), Exits 1)"
  using backtrace_lines_all [of 0 "length ss" ss] assms by (simp add: print_backtrace_die_def print_backtrace_def)

section \<open>The end of the monitor\<close>

text \<open>
  \<^verbatim>\<open>monitor_cleanup\<close>: the stacks it frees (freeing NULL does nothing), and that the shared area is gone.
\<close>

definition monitor_cleanup :: "life \<Rightarrow> tid list \<times> life option" where
  "monitor_cleanup s = (filter (\<lambda>t. ti_stack (info s t)) [Ping, Pong], None)"

text \<open>It frees what \<^verbatim>\<open>do_clone\<close> has allocated, and nothing in the other modes.\<close>

lemma monitor_cleanup_frees:
  assumes "start_threads mode e = Inr s"
  shows "fst (monitor_cleanup s) = (if mode = Thread_thread then [Ping, Pong] else [])"
  using assms
  by (cases mode) (auto simp: start_threads_def do_fork_def do_clone_def do_pthread_def clone_one_def set_pid_def set_tid_def
      spawn_def init_threads_def monitor_cleanup_def bind_res_Inr_iff Let_def split: if_splits)

end
