(* ===== verification/Spec2Isabelle.thy ===== *)
theory Spec2Isabelle
  imports Usage Mode_Handlers Nested_Handlers Store_Buffers Benaphore Small_Routines
begin

text \<open>
  A verification of \<^verbatim>\<open>test_process_pingpong\<close>, a C program that measures how fast two threads of control
  can pass a turn back and forth over a communication mode chosen on the command line (pipes,
  sockets, semaphores, signals, futexes, a shared variable and so on).

  \<^bold>\<open>The program.\<close> Before \<^verbatim>\<open>main\<close>, a constructor per mode enters its operations into a growing table
  (\<^verbatim>\<open>comms.c\<close>, \<^verbatim>\<open>comms.h\<close>). \<^verbatim>\<open>main\<close> checks the table, sets the defaults, reads the command line and
  copies the operations of the chosen mode into the configuration (\<^verbatim>\<open>setup.c\<close>, \<^verbatim>\<open>sched.c\<close>), lets its
  pair function make two pairs of descriptors and wires them crosswise (\<^verbatim>\<open>make_pairs\<close>), and starts
  two children by fork, clone or pthreads (\<^verbatim>\<open>threads_startup.c\<close>). The children run the ping and the
  pong loop of the mode (\<^verbatim>\<open>threads_children.c\<close>, \<^verbatim>\<open>comms/*.c\<close>); the parent shows statistics on a timer
  (\<^verbatim>\<open>stats_periodic.c\<close>), stops the children, waits for them and shows a summary
  (\<^verbatim>\<open>threads_monitor.c\<close>, \<^verbatim>\<open>stats_final.c\<close>).

  \<^bold>\<open>The theories.\<close>
  \<^item> \<open>Prelude\<close>: faults as values (\<open>'a res\<close>, where \<open>Inl\<close> is an exit, a NULL access, an access out of
    bounds, or an undefined conversion), C integer conversions, array accesses, and the C string
    functions the sources call.
  \<^item> \<open>Common\<close> (\<^verbatim>\<open>common.c\<close>): clock arithmetic, page alignment, fixed-point conversion, byte copy,
    checked write. \<open>Units\<close> (\<^verbatim>\<open>units.c\<close>): durations as texts.
  \<^item> \<open>Comms\<close> (\<^verbatim>\<open>comms.c\<close>): the table of modes with its growth, constructors, lookups, verification and
    destructor. The locale \<open>keyed_table\<close> states what the table promises to its users and is
    interpreted on the operations of the code.
  \<^item> \<open>Pingpong\<close>: the two loops as a machine whose schedule, with what the kernel answers to each call,
    is arbitrary; \<open>alternates\<close> (strict alternation of the operations and an exact round counter) and
    \<open>progresses\<close> (after any schedule, \<open>m\<close> more operations complete within \<open>2 * m\<close> steps) are the
    specification of a mode. The locales \<open>handshake\<close> and \<open>live_handshake\<close> prove both once from the
    laws of a transport.
  \<^item> \<open>Shared_Modes\<close> (\<^verbatim>\<open>comms/spin.c\<close>, \<^verbatim>\<open>yield.c\<close>, \<^verbatim>\<open>spin_unrolled.c\<close>, \<^verbatim>\<open>race.c\<close>), \<open>Kernel\<close> (the kernel objects, as
    POSIX documents them, and the locale \<open>call_handshake\<close> of transports made of system calls),
    \<open>Fd_Modes\<close> (\<^verbatim>\<open>comms/pipe.c\<close>, \<^verbatim>\<open>tcp.c\<close>, \<^verbatim>\<open>namedpipe.c\<close>, \<^verbatim>\<open>socket_pair.c\<close>, \<^verbatim>\<open>eventfd.c\<close>, \<^verbatim>\<open>make_pairs\<close>) and
    \<open>Sync_Modes\<close> (\<^verbatim>\<open>comms/sem.c\<close>, \<^verbatim>\<open>mq.c\<close>, \<^verbatim>\<open>signal.c\<close>, \<^verbatim>\<open>futex.c\<close>, \<^verbatim>\<open>send_sig\<close>): the modes, each with its
    pair function and its loops, as interpretations of those locales.
  \<^item> \<open>Udp_Mode\<close>, \<open>Inotify_Mode\<close>, \<open>Futex_Test_Mode\<close>: the modes of \<^verbatim>\<open>comms/udp.c\<close>, \<^verbatim>\<open>inotify.c\<close> and \<^verbatim>\<open>futex_test.c\<close>
    over datagram sockets, event queues and a futex as their manual pages document them. \<open>Benaphore\<close>: the lock
    of \<^verbatim>\<open>comms/benaphore.c\<close>, which is not built.
  \<^item> \<open>Cleanup\<close>: the named objects that outlive a process, which the semaphore, message queue, named
    pipe, futex and inotify modes make, and their cleanup functions.
  \<^item> \<open>Mode_Options\<close>: the option strings and option lists of the spin and the nop mode, and the nop loops.
    \<open>Store_Buffers\<close>: the busy-wait loops of the spin mode with each of its memory-synchronisation methods
    on a processor that delays stores, as a refinement of those of \<open>Shared_Modes\<close>; and the unrolled loops there.
  \<^item> \<open>Setup\<close> (\<^verbatim>\<open>setup.c\<close>, \<^verbatim>\<open>sched.c\<close>): configuration, defaults, command line, scheduling, setup.
  \<^item> \<open>Threads\<close> (\<^verbatim>\<open>threads_startup.c\<close>, \<^verbatim>\<open>threads_children.c\<close>, \<^verbatim>\<open>threads_monitor.c\<close>): the life of a run as a
    step relation over the handlers, with its invariant.
  \<^item> \<open>Signals\<close> (\<^verbatim>\<open>signals.c\<close> and the other places that install handlers): the dispositions of the monitor
    and of the children, the mask of the suspension, the crash handler. \<open>Boot\<close>: the beginning of
    \<^verbatim>\<open>do_monitor_work\<close> statement by statement, with signals in between; every run of \<open>Threads\<close> is one of
    its runs. \<open>Nested_Handlers\<close>: the handlers of the monitor statement by statement, one on top of another, with
    the mask that the kernel makes of it; every run of \<open>Threads\<close> is one of its runs too.
    \<open>Pthread_Life\<close>: the life of a run whose children are threads of the monitor's own process.
  \<^item> \<open>Stats\<close> (\<^verbatim>\<open>stats_periodic.c\<close>, \<^verbatim>\<open>stats_final.c\<close>): intervals, rows, summary, scheduler reports, as values.
    \<open>Reports\<close>: the same as the texts that are written, piece by piece.
  \<^item> \<open>Children\<close> (\<^verbatim>\<open>threads_children.c\<close>): the setup of a child step by step and its interrupt handler, as a
    refinement of what \<open>Threads\<close> has of them.
  \<^item> \<open>Program\<close> (\<^verbatim>\<open>test_process_pingpong.c\<close>, the operation tables of \<^verbatim>\<open>comms/*.c\<close>): \<^verbatim>\<open>main\<close>.
    \<open>Usage\<close> (\<^verbatim>\<open>setup.c\<close>): the usage text and the announcement of the run. \<open>Mode_Handlers\<close>: what
    \<^verbatim>\<open>comm_pre\<close> of each mode does to the signals of the life of a run.
  \<^item> \<open>Small_Routines\<close>: the functions nothing else needs, such as the default operations of a mode, \<^verbatim>\<open>exit_fail\<close>,
    the numerical helpers of \<^verbatim>\<open>common.c\<close> and those that are never called.

  \<^bold>\<open>What is shown.\<close> From every command line on which the program comes up, in each of the fourteen modes
  that pass a turn, the loops that are installed belong to the mode, and on the objects that its own setup makes
  they pass the turn in strict alternation and count exactly the rounds begun, whatever the
  schedule and the interruptions (for inotify: without interruptions), and (futexes apart) can
  always go on; of the other five, futex_test means to and never does. The unrolled loops do what the
  simple ones do, and the busy-wait loops need no memory barrier. The table of modes holds exactly the modes of its constructors, every accepted
  command line leaves a well-formed configuration, the names and numbers in the usage text are those the
  parsers take, and the mode and the cpus announced are those of the run. A child is ready only when all is set up, every signal that can arrive has its
  handler, no child starts before both are ready, at most five handlers
  are ever on top of one another; with children made by fork the process ids are cleared only for children that
  have been waited for, and the monitor exits only after both. Once a stop handler waits it does so within a bounded
  number of events in any order, statement by statement, if it has not interrupted the child handler and no child was waited for
  elsewhere; with ids left to clear these conditions are needed too. Setup and cleanup leave the
  names of the system as they were. This holds with every statement of the monitor's beginning a step of its own,
  and the setup of no mode takes the signals that it needs. The intervals of the statistics add up to the run, the
  texts shown fit their buffers, and the rows stand under their header.
  Where the code does something other than it means to, the theorem states what it does: a child
  reaped by the statistics handler, one that dies before it is ready, or a death just before the
  suspension leaves the run hanging, and so does a stop handler on top of the child handler; a cloned child
  that has not recorded its id is taken for dead and left behind, a failed clone goes unnoticed, a scheduler report that is cut
  off overruns an array, files and a segment are left behind, semaphores left by a killed run spoil the next one, a run time
  announced as indefinite ends at the first tick, with threads instead of processes the final
  statistics are never shown and a stop ends the process by the interrupts it sends to itself, by the return of \<^verbatim>\<open>main\<close>, or not at
  all, and a timer tick or two deaths at the very beginning stop the run or leave it hanging; lemmas that are not properties show the rounding of the
  printed durations, the options of the usage text that are refused, and the like.

  \<^bold>\<open>Assumptions of the model.\<close> One attempt of a loop operation is one step, memory is sequentially
  consistent (but in \<open>Store_Buffers\<close>), and a signal handler of the monitor runs as one step except for the wait of
  the stop handler (\<open>Nested_Handlers\<close> takes the handlers apart, and that a run ends is shown there). In \<open>Threads\<close> the monitor sets the timer, releases the children and takes the start
  time in one step, with its handlers installed; \<open>Boot\<close> takes these steps apart.
  Times and \<open>long double\<close> values are rationals, with the rounding of the machine as an argument
  (\<open>rnd\<close>) where an operation rounds; the counter is a 64-bit word and wraps. What the operating
  system answers is an argument, but for the calls listed below. The constructors run with every \<^verbatim>\<open>realloc\<close>
  granted, except where the building of the table itself is concerned (\<open>run_constructors_with\<close>). No definition needs fuel: loops that end are
  recursions with a termination proof, and the endless loops are steps of a machine.

  \<^bold>\<open>What is not modelled.\<close> The mode sendmmsg and, but for its lock, the mode benaphore, which the Makefile does
  not build and which no longer compile; the unrolled variety of the nop mode, inline assembly on registers that nothing
  sets; closing descriptors, unmapping and freeing memory while the program goes on, which the end of a process does
  anyway (\<^verbatim>\<open>drop_memsync_info\<close>); a \<^verbatim>\<open>pipe\<close>, \<^verbatim>\<open>socketpair\<close>, \<^verbatim>\<open>eventfd\<close>, UDP socket or shared memory call of a pair function
  that fails, which the program does not notice: it would go on with descriptors that are not set; \<^verbatim>\<open>native_read_tscp\<close>, which nothing calls and which is
  assembly; the variants for a C library other than glibc; and the texts of diagnostics, of which only
  the format is kept in the fault that follows.
\<close>

section \<open>The program as a whole\<close>

text \<open>
  The program as it is built: the constructors of its nineteen modes succeed and leave a registry
  that \<^verbatim>\<open>main\<close> accepts, in which each mode is found by its name at its place, and every mode has a
  pair function, so that the setup never calls NULL.
\<close>

lemma program_registry:
  "\<exists>reg. run_constructors built_modes initial_registry = Inr reg
     \<and> comm_mode_verify_all reg = Inr True
     \<and> map (\<lambda>m. parse_comm_mode (ii_name (fst m)) reg) built_modes
         = map (\<lambda>i. Inr (int i, int i, [])) [0..<19]
     \<and> list_all (\<lambda>m. comm_make_pair (snd m) \<noteq> None) built_modes"
proof -
  obtain reg where reg: "run_constructors built_modes initial_registry = Inr reg"
    "comm_mode_verify_all reg = Inr True"
    using built_registry by blast
  have l: "length built_modes = 19" using arg_cong [OF built_names, of length] by simp
  have p: "\<And>i. i < 19 \<Longrightarrow> parse_comm_mode (ii_name (fst (built_modes ! i))) reg = Inr (int i, int i, [])"
    using built_entry(2) [OF built_distinct reg(1)] l by simp
  have "map (\<lambda>m. parse_comm_mode (ii_name (fst m)) reg) built_modes
      = map (\<lambda>i. Inr (int i, int i, [])) [0..<19]"
    by (rule nth_equalityI) (simp_all add: l p)
  with reg show ?thesis using built_make_pair by (fastforce simp: list_all_iff fn_def)
qed

text \<open>
  C1: from the command line to the loops. Whatever the options are, if the startup succeeds on a system
  with fresh objects, and the mode is not one of the five that do not pass a turn, then the
  pair function, the loops and the functions they call all belong to the chosen mode, and on what its setup made and
  wired the loops complete their operations in strict alternation under every schedule, count the
  rounds and (futexes apart) never get stuck. The semaphores must be new and the fifos must open. For inotify this is
  shown of operations that no signal interrupts, over event queues that are empty at the start.
\<close>

theorem modes_end_to_end:
  assumes "main env args w0 = Inr (c, w, s0)" "fresh w0"
    and "pe_sem_opens (me_pairs env) = (\<lambda>_. Some 0)" "pe_open (me_pairs env) = (False, False)"
    and "0 < ping_pid" "0 < pong_pid" "ping_pid \<noteq> pong_pid"
    and "comm_ping (cfg_ops c) \<notin> set (map (\<lambda>n. fn (''comm_ping_'' @ n)) no_turn_modes)"
  shows "passes_turn (cfg_ops c) (ping_pid, pong_pid) (wires c) w"
proof -
  obtain m w1 user f sh po where m: "m \<in> set built_modes" "comm_make_pair (snd m) = Some f"
    and ops: "cfg_ops c = (fill_ops (snd m))\<lparr>comm_show_options := sh, comm_parse_options := po\<rparr>"
    and w1: "same_objects w0 w1"
    and mp: "make_pairs (run_pair (me_pairs env) user (ii_name (fst m)) f) w1 = Inr (wires c, w)"
    by (rule main_ran [OF assms(1)], rule that)
  obtain n where n: "f = Mode_fn n" using built_make_pair [OF m(1)] m(2) by (auto simp: fn_def)
  have turn: "ii_name (fst m) \<notin> set no_turn_modes" using no_turn_loops [OF m(1)] assms(8) ops by simp
  show ?thesis
    unfolding ops using built_passes [OF m(1) turn _ mp [unfolded n] fresh_same [OF w1 assms(2)] assms(3-7)] m(2) n
    by (simp add: fn_def)
qed

theorem modes_end_to_end_witness:
  "\<exists>c w s0. main all_well ([Short (CHR ''m'') (Some ''pipe'')], []) fresh_world = Inr (c, w, s0)
     \<and> passes_turn (cfg_ops c) (100, 101) (wires c) w
     \<and> comm_ping (cfg_ops c) = fn ''comm_ping_pipe''"
proof -
  obtain c w s0 where m: "main all_well ([Short (CHR ''m'') (Some ''pipe'')], []) fresh_world = Inr (c, w, s0)"
    "comm_make_pair (cfg_ops c) = fn ''pipe''" "comm_ping (cfg_ops c) = fn ''comm_ping_pipe''" using all_well_pipe by blast
  have f: "fresh fresh_world" by (simp add: fresh_def fresh_world_def empty_kernel_def empty_net_def spin_initial_def)
  have e: "pe_sem_opens (me_pairs all_well) = (\<lambda>_. Some 0)" "pe_open (me_pairs all_well) = (False, False)"
    by (simp_all add: all_well_def)
  have "comm_ping (cfg_ops c) \<notin> set (map (\<lambda>n. fn (''comm_ping_'' @ n)) no_turn_modes)"
    using m(3) by (simp add: no_turn_modes_def fn_def)
  from modes_end_to_end [OF m(1) f e _ _ _ this, of 100 101] m show ?thesis by simp
qed

text \<open>
  C9: the end of a run: whatever the options are, if the program comes up with forked or cloned
  children, then in every state in which the monitor has exited both process ids have been cleared
  and the timer is off, and forked children have been waited for; and the final statistics have been shown in all modes but the two that
  talk over pipes, whose cleanup functions exit before that.
\<close>

theorem whole_run_end:
  assumes "main env args w0 = Inr (c, w, s0)" "thread_mode c = Thread_fork \<or> thread_mode c = Thread_thread"
    and "fst (se_forks (me_start env)) \<noteq> snd (se_forks (me_start env))"
    and "fst (se_clones (me_start env)) \<noteq> snd (se_clones (me_start env))"
    and "reach (run_cfg c) s0 s" "phase s = M_exited"
  shows "pid s t = -1 \<and> \<not> timer s \<and> (thread_mode c = Thread_fork \<longrightarrow> child s t = Reaped)
    \<and> (final_stats s \<longleftrightarrow> comm_make_pair (cfg_ops c) \<noteq> fn ''pipe''
         \<and> comm_make_pair (cfg_ops c) \<noteq> fn ''comm_makepair_namedpipe'')"
proof -
  obtain m f sh po where m: "m \<in> set built_modes" "comm_make_pair (snd m) = Some f"
    and ops: "cfg_ops c = (fill_ops (snd m))\<lparr>comm_show_options := sh, comm_parse_options := po\<rparr>"
    and st: "start_threads (thread_mode c) (me_start env) = Inr s0"
    by (rule main_ran [OF assms(1)], rule that)
  have ok: "life_ok (run_cfg c) s" using reach_ok [OF assms(5) start_ok [OF st assms(2,3)]] assms(4) by blast
  then have "pid s t = -1" "\<not> timer s" "final_stats s = (\<not> cleanup_exits (comm_cleanup (fill_ops (snd m))))"
    using assms(6) ops by (cases t; simp add: life_ok_def monitor_ok_def run_cfg_def)+
  moreover have "child s t = Reaped" if "thread_mode c = Thread_fork"
  proof -
    have "start_threads Thread_fork (me_start env) = Inr s0" using st that by simp
    from fork_start [OF this assms(3)] have "told s" using reach_told [OF assms(5)] by blast
    then show ?thesis using calculation(1) by (simp add: told_def known_def)
  qed
  ultimately show ?thesis using built_cleanups [OF m(1)] m(2) ops by (simp add: fill_ops_def)
qed

text \<open>Cloned children can be stopped as soon as both are ready.\<close>

lemma all_well_exits:
  assumes "start_threads Thread_thread (me_start all_well) = Inr s0"
  shows "\<exists>s. reach cfg s0 s \<and> phase s = M_exited"
proof -
  let ?s1 = "thread_ready Ping s0"
  let ?s2 = "thread_ready Pong ?s1"
  let ?s3 = "wake (stop_handler ?s2)"
  have s0: "s0 = clone_one Pong 101 (clone_one Ping 100
      (init_threads\<lparr>info := (\<lambda>t. (info init_threads t)\<lparr>ti_stack := True\<rparr>)\<rparr>))"
    using assms by (simp add: start_threads_def do_clone_def all_well_def example_env_def Let_def
        split: if_splits)
  have i: "child s0 t = Starting" "phase s0 = M_ready_wait" "\<not> visited s0" "pid s0 t = 0" "0 < proc s0 t" for t
    unfolding s0 by (cases t; simp add: clone_one_def set_tid_def spawn_def init_threads_def pid_def)+
  have r2: "reach cfg s0 ?s2"
    using i by (intro R_step [OF R_step [OF R_init L_ready] L_ready])
      (simp_all add: thread_ready_def set_child_def set_pid_def set_tid_def Let_def)
  have j: "child ?s2 t = Ready" "phase ?s2 = M_ready_wait" "\<not> visited ?s2" "pid ?s2 t \<noteq> 0" for t
    using i(1,4,5) [of Ping] i(1,4,5) [of Pong] i(2,3)
    by (cases t; simp add: thread_ready_def set_child_def set_pid_def set_tid_def pid_def Let_def)+
  have ok0: "life_ok cfg s0" using start_ok [OF assms] by (simp add: all_well_def example_env_def)
  note ok2 = reach_ok [OF r2 ok0]
  have k: "pid ?s2 t \<noteq> -1" for t
    using i(1,4,5) [of Ping] i(1,4,5) [of Pong] by (cases t; simp add: thread_ready_frame)
  have told2: "told ?s2" using j k by (simp add: told_def known_def)
  have r3: "reach cfg s0 ?s3" using R_step [OF r2 L_sigint] j(2) by simp
  have h: "phase ?s3 = M_stopping" "child ?s3 = child ?s2"
    using j(2,3) by (simp_all add: wake_def stop_handler_def stop_timer_def)
  have told3: "told ?s3" using stop_handler_told [OF ok2 told2] h(1) by (simp add: wake_def split: if_splits)
  show ?thesis
    using stop_reaches_exit [OF reach_ok [OF r3 ok0] told3 h(1)] j(1) h(2) reach_trans [OF _ r3] by auto
qed

theorem whole_run_end_witness:
  "\<exists>c w s0 s. main all_well ([Short (CHR ''m'') (Some ''pipe'')], []) fresh_world = Inr (c, w, s0)
     \<and> reach (run_cfg c) s0 s \<and> phase s = M_exited \<and> pid s Pong = -1 \<and> \<not> final_stats s"
proof -
  obtain c w s0 where m: "main all_well ([Short (CHR ''m'') (Some ''pipe'')], []) fresh_world = Inr (c, w, s0)"
    "comm_make_pair (cfg_ops c) = fn ''pipe''" "thread_mode c = Thread_thread"
    "start_threads Thread_thread (me_start all_well) = Inr s0" using all_well_pipe by blast
  obtain s where s: "reach (run_cfg c) s0 s" "phase s = M_exited" using all_well_exits [OF m(4)] by blast
  have "pid s Pong = -1 \<and> \<not> final_stats s"
    using whole_run_end [OF m(1) _ _ _ s, where t = Pong] m(2,3) by (simp add: all_well_def example_env_def)
  with m(1) s show ?thesis by blast
qed

end
